(* ===== verification/Prelude.thy ===== *)
theory Prelude
  imports Main "HOL-Library.Word"
begin

text \<open>
  What every component shares: bytes and byte buffers, the error values of the C++ code, a
  sequencing operator for fallible steps, checked reads and writes of a buffer, buffers made of
  blocks of one width, and the partition of a range of indices into parts that the worker threads
  of ORTOA-LBL use.
\<close>

unbundle bit_operations_syntax

section \<open>Types and hint collections\<close>

type_synonym size_t = "64 word"
type_synonym byte = "8 word"
type_synonym bytes = "8 word list"

named_theorems buffer_simps \<open>lengths and contents of buffers\<close>
named_theorems layout \<open>the numeric constants of the wire layout\<close>

text \<open>
  How a C++ operation can fail to return.  \<open>LengthError\<close> is \<open>std::length_error\<close>,
  \<open>OutOfRange\<close> is \<open>std::out_of_range\<close>, \<open>TransportError\<close> is a Thrift
  \<open>TException\<close>, \<open>RuntimeError\<close> is \<open>std::runtime_error\<close>, \<open>ProcessExit\<close> is \<open>exit(1)\<close> or \<open>abort()\<close>, and
  \<open>Undefined\<close> is an access outside an object, where C++ gives the program no meaning.
\<close>

datatype error = LengthError | OutOfRange | TransportError | RuntimeError | ProcessExit | Undefined

type_synonym 'a res = "error + 'a"

section \<open>Sequencing fallible steps\<close>

definition bind_res :: "'a res \<Rightarrow> ('a \<Rightarrow> 'b res) \<Rightarrow> 'b res" where
  "bind_res m f = (case m of Inl e \<Rightarrow> Inl e | Inr x \<Rightarrow> f x)"

lemma bind_res_simps [simp]:
  "bind_res (Inl e) f = Inl e"
  "bind_res (Inr x) f = f x"
  by (simp_all add: bind_res_def)

lemma bind_res_eq_Inr: "bind_res m f = Inr y \<longleftrightarrow> (\<exists>x. m = Inr x \<and> f x = Inr y)"
  by (cases m) simp_all

fun map_res :: "('a \<Rightarrow> 'b res) \<Rightarrow> 'a list \<Rightarrow> 'b list res" where
  "map_res f [] = Inr []"
| "map_res f (x # xs) = bind_res (f x) (\<lambda>y. bind_res (map_res f xs) (\<lambda>ys. Inr (y # ys)))"

lemma map_res_Inr: "(\<And>x. x \<in> set xs \<Longrightarrow> f x = Inr (g x)) \<Longrightarrow> map_res f xs = Inr (map g xs)"
  by (induction xs) simp_all

lemma map_res_eq_Inr:
  "map_res f xs = Inr ys \<longleftrightarrow> list_all2 (\<lambda>x y. f x = Inr y) xs ys"
  by (induction xs arbitrary: ys) (auto simp: bind_res_eq_Inr list_all2_Cons1)

lemma map_res_InrD: "map_res f xs = Inr ys \<Longrightarrow> y \<in> set ys \<Longrightarrow> \<exists>x \<in> set xs. f x = Inr y"
  by (induction xs arbitrary: ys) (auto simp: bind_res_eq_Inr)

section \<open>Runs of step relations\<close>

lemma sum_list_map_update:
  fixes f :: "'a \<Rightarrow> 'b :: comm_monoid_add"
  shows "j < length ws \<Longrightarrow> sum_list (map f (ws[j := w])) + f (ws ! j) = sum_list (map f ws) + f w"
proof (induction ws arbitrary: j)
  case (Cons v ws)
  then show ?case by (cases j) (simp_all add: ac_simps)
qed simp

lemma sum_change_one:
  fixes f g :: "nat \<Rightarrow> 'a :: comm_monoid_add"
  assumes "i < n" and "\<And>k. k \<noteq> i \<Longrightarrow> g k = f k"
  shows "(\<Sum>k<n. g k) + f i = (\<Sum>k<n. f k) + g i"
proof -
  have "(\<Sum>k \<in> {..<n} - {i}. g k) = (\<Sum>k \<in> {..<n} - {i}. f k)" by (rule sum.cong) (simp_all add: assms(2))
  with assms(1) show ?thesis
    using sum.remove [of "{..<n}" i g] sum.remove [of "{..<n}" i f] by (simp add: ac_simps)
qed

text \<open>How far a list is acceptable, one element at a time.\<close>

lemma takeWhile_next:
  assumes "n \<le> length (takeWhile P xs)" and "drop n xs = x # ys"
  shows "if P x then Suc n \<le> length (takeWhile P xs) else n = length (takeWhile P xs)"
proof -
  have x: "n < length xs" "xs ! n = x" using assms(2) by (metis drop_all list.distinct(1) not_le, metis hd_drop_conv_nth drop_eq_Nil list.distinct(1) list.sel(1) not_le)
  show ?thesis
  proof (cases "n = length (takeWhile P xs)")
    case True
    with x nth_length_takeWhile [of P xs] show ?thesis by auto
  next
    case False
    with assms(1) have "n < length (takeWhile P xs)" by simp
    with x show ?thesis using nth_mem [of n "takeWhile P xs"] by (auto simp: takeWhile_nth dest: set_takeWhileD)
  qed
qed

lemma two_steps: "r\<^sup>*\<^sup>* a b \<Longrightarrow> r b c \<Longrightarrow> r c d \<Longrightarrow> r\<^sup>*\<^sup>* a d"
  by (rule rtranclp.rtrancl_into_rtrancl [OF rtranclp.rtrancl_into_rtrancl])

text \<open>A run as the sequence of its states.\<close>

definition run_of :: "('s \<Rightarrow> 's \<Rightarrow> bool) \<Rightarrow> (nat \<Rightarrow> 's) \<Rightarrow> nat \<Rightarrow> bool" where
  "run_of step r k \<longleftrightarrow> (\<forall>j<k. step (r j) (r (Suc j)))"

lemma run_of_relpow: "run_of step r k \<Longrightarrow> (step ^^ k) (r 0) (r k)"
  unfolding run_of_def relpowp_fun_conv by blast

lemma run_of_steps: "run_of step r k \<Longrightarrow> step\<^sup>*\<^sup>* (r 0) (r k)"
  by (rule relpowp_imp_rtranclp [OF run_of_relpow])

lemma relpow_run_of: "(step ^^ k) a b \<Longrightarrow> \<exists>r. run_of step r k \<and> r 0 = a \<and> r k = b"
  unfolding run_of_def relpowp_fun_conv by blast

lemma steps_run_of: "step\<^sup>*\<^sup>* a b \<Longrightarrow> \<exists>r k. run_of step r k \<and> r 0 = a \<and> r k = b"
  by (metis relpow_run_of rtranclp_imp_relpowp)

lemma run_of_mono: "run_of step r k \<Longrightarrow> (\<And>j. j < k \<Longrightarrow> step (r j) (r (Suc j)) \<Longrightarrow> step' (r j) (r (Suc j))) \<Longrightarrow> run_of step' r k"
  by (simp add: run_of_def)

lemma run_of_inv:
  assumes "run_of step r k" and "I (r 0)" and "\<And>s s'. step s s' \<Longrightarrow> I s \<Longrightarrow> I s'" and "j \<le> k"
  shows "I (r j)"
  using assms(4)
proof (induction j)
  case (Suc j)
  then have "step (r j) (r (Suc j))" "I (r j)" using assms(1) by (simp_all add: run_of_def)
  then show ?case by (rule assms(3))
qed (rule assms(2))

text \<open>Every run from \<open>s\<close> is bounded and stops only where \<open>P\<close> holds.\<close>

definition always_ends :: "('s \<Rightarrow> 's \<Rightarrow> bool) \<Rightarrow> ('s \<Rightarrow> bool) \<Rightarrow> 's \<Rightarrow> bool" where
  "always_ends step P s \<longleftrightarrow> (\<exists>b. \<forall>k t. (step ^^ k) s t \<longrightarrow> k \<le> b \<and> (P t \<or> (\<exists>t'. step t t')))"

text \<open>
  A step relation with an invariant and a rank that every step makes smaller: its runs keep the
  invariant, are bounded by the rank, and each can be taken to a state in which nothing can go on.
\<close>

locale ranked_steps =
  fixes step :: "'s \<Rightarrow> 's \<Rightarrow> bool" and inv :: "'s \<Rightarrow> bool" and rank :: "'s \<Rightarrow> nat"
  assumes inv_step: "step s s' \<Longrightarrow> inv s \<Longrightarrow> inv s'"
    and rank_step: "step s s' \<Longrightarrow> inv s \<Longrightarrow> rank s' < rank s"
begin

lemma inv_steps: "step\<^sup>*\<^sup>* s s' \<Longrightarrow> inv s \<Longrightarrow> inv s'"
  by (induction rule: rtranclp_induct) (auto intro: inv_step)

lemma bounded: "(step ^^ k) s s' \<Longrightarrow> inv s \<Longrightarrow> k + rank s' \<le> rank s"
proof (induction k arbitrary: s')
  case (Suc k)
  then obtain y where y: "(step ^^ k) s y" "step y s'" by auto
  from inv_steps [OF relpowp_imp_rtranclp [OF y(1)] Suc.prems(2)] rank_step [OF y(2)] Suc.IH [OF y(1) Suc.prems(2)]
  show ?case by simp
qed simp

lemma run_to_end:
  assumes "inv s"
  shows "\<exists>k s'. (step ^^ k) s s' \<and> (\<forall>s''. \<not> step s' s'')"
  using assms
proof (induction "rank s" arbitrary: s rule: less_induct)
  case less
  show ?case
  proof (cases "\<exists>t. step s t")
    case True
    then obtain t where t: "step s t" ..
    from less.hyps [OF rank_step [OF t less.prems] inv_step [OF t less.prems]] obtain k s' where
      "(step ^^ k) t s'" "\<forall>s''. \<not> step s' s''" by blast
    with t show ?thesis by (meson relpowp_Suc_I2)
  qed (auto intro: exI [of _ 0])
qed

lemma ends:
  assumes "inv s" and "\<And>t. step\<^sup>*\<^sup>* s t \<Longrightarrow> P t \<or> (\<exists>t'. step t t')"
  shows "always_ends step P s"
  unfolding always_ends_def
proof (intro exI allI impI conjI)
  fix k t
  assume run: "(step ^^ k) s t"
  from bounded [OF run assms(1)] show "k \<le> rank s" by simp
  from assms(2) [OF relpowp_imp_rtranclp [OF run]] show "P t \<or> (\<exists>t'. step t t')" .
qed

end

section \<open>Buffers\<close>

text \<open>
  A pointer into a buffer is an offset.  \<open>read_at\<close> and \<open>write_at\<close> say what C++ says:
  inside the buffer they read or replace bytes, outside it the behaviour is undefined.
\<close>

definition read_at :: "bytes \<Rightarrow> nat \<Rightarrow> nat \<Rightarrow> bytes res" where
  "read_at b off n = (if off + n \<le> length b then Inr (take n (drop off b)) else Inl Undefined)"

definition overwrite :: "'a list \<Rightarrow> nat \<Rightarrow> 'a list \<Rightarrow> 'a list" where
  "overwrite b off d = take off b @ d @ drop (off + length d) b"

definition write_at :: "bytes \<Rightarrow> nat \<Rightarrow> bytes \<Rightarrow> bytes res" where
  "write_at b off d = (if off + length d \<le> length b then Inr (overwrite b off d) else Inl Undefined)"

lemma length_read_at: "read_at b off n = Inr d \<Longrightarrow> length d = n"
  by (auto simp: read_at_def split: if_splits)

lemma length_overwrite [buffer_simps, simp]:
  "off + length d \<le> length b \<Longrightarrow> length (overwrite b off d) = length b"
  by (simp add: overwrite_def)

lemma nth_overwrite:
  assumes "off + length d \<le> length b" and "x < length b"
  shows "overwrite b off d ! x =
    (if off \<le> x \<and> x < off + length d then d ! (x - off) else b ! x)"
  using assms by (auto simp: overwrite_def nth_append min_def)

lemma overwrite_append_left:
  "length a \<le> off \<Longrightarrow> overwrite (a @ b) off d = a @ overwrite b (off - length a) d"
  by (simp add: overwrite_def)

lemma overwrite_append_right:
  "off + length d \<le> length a \<Longrightarrow> overwrite (a @ b) off d = overwrite a off d @ b"
  by (simp add: overwrite_def)

lemma overwrite_all: "length d = length b \<Longrightarrow> overwrite b 0 d = d"
  by (simp add: overwrite_def)

section \<open>Buffers made of blocks of one width\<close>

definition blocks :: "(nat \<Rightarrow> 'a list) \<Rightarrow> nat \<Rightarrow> 'a list" where
  "blocks f n = concat (map f [0..<n])"

lemma blocks_0 [simp]: "blocks f 0 = []"
  by (simp add: blocks_def)

lemma blocks_Suc: "blocks f (Suc n) = blocks f n @ f n"
  by (simp add: blocks_def)

lemma blocks_Nil [simp]: "blocks (\<lambda>_. []) n = []"
  by (induction n) (simp_all add: blocks_Suc)

lemma length_blocks [buffer_simps]:
  "(\<And>p. p < n \<Longrightarrow> length (f p) = w) \<Longrightarrow> length (blocks f n) = w * n"
  by (induction n) (simp_all add: blocks_Suc)

lemma blocks_cong: "(\<And>p. p < n \<Longrightarrow> f p = g p) \<Longrightarrow> blocks f n = blocks g n"
  by (induction n) (simp_all add: blocks_Suc)

lemma block_end: "p < n \<Longrightarrow> w * p + w \<le> w * n" for w p n :: nat
  using mult_le_mono2 [of "Suc p" n w] by simp

text \<open>Reading inside block \<open>p\<close> reads the block, whatever the others hold.\<close>

lemma drop_blocks:
  assumes "p < n" and "\<And>q. q < n \<Longrightarrow> length (f q) = w"
  shows "drop (w * p) (blocks f n) = f p @ drop (w * Suc p) (blocks f n)"
  using assms
proof (induction n)
  case 0
  then show ?case by simp
next
  case (Suc n)
  then have len: "length (blocks f n) = w * n"
    by (simp add: length_blocks)
  show ?case
  proof (cases "p = n")
    case True
    with len Suc.prems show ?thesis by (simp add: blocks_Suc)
  next
    case False
    with Suc.prems(1) have p: "p < n" by simp
    with Suc have IH: "drop (w * p) (blocks f n) = f p @ drop (w * Suc p) (blocks f n)" by simp
    from block_end [OF p, of w] have e: "w * p + w \<le> w * n" .
    then have "w * p \<le> w * n" by linarith
    with e len IH show ?thesis by (simp add: blocks_Suc algebra_simps)
  qed
qed

lemma slice_blocks [buffer_simps]:
  assumes "p < n" and "\<And>q. q < n \<Longrightarrow> length (f q) = w" and "o' + k \<le> w"
  shows "take k (drop (w * p + o') (blocks f n)) = take k (drop o' (f p))"
proof -
  have "drop (w * p + o') (blocks f n) = drop o' (drop (w * p) (blocks f n))"
    by (simp add: add.commute)
  also have "\<dots> = drop o' (f p) @ drop (w * Suc p) (blocks f n)"
    using assms by (simp add: drop_blocks [OF assms(1,2)])
  finally show ?thesis using assms by simp
qed

lemma read_block:
  assumes "p < n" and "\<And>q. q < n \<Longrightarrow> length (f q) = w" and "o' + k \<le> w"
  shows "read_at (blocks f n) (w * p + o') k = Inr (take k (drop o' (f p)))"
proof -
  from assms(2) have "length (blocks f n) = w * n" by (simp add: length_blocks)
  with block_end [OF assms(1), of w] assms(3) show ?thesis
    by (simp add: read_at_def slice_blocks [OF assms])
qed

text \<open>Writing inside block \<open>p\<close> changes that block only.\<close>

lemma overwrite_blocks:
  assumes "p < n" and "\<And>q. q < n \<Longrightarrow> length (f q) = w" and "o' + length d \<le> w"
  shows "overwrite (blocks f n) (w * p + o') d = blocks (f(p := overwrite (f p) o' d)) n"
  using assms
proof (induction n)
  case 0
  then show ?case by simp
next
  case (Suc n)
  then have len: "length (blocks f n) = w * n"
    by (simp add: length_blocks)
  show ?case
  proof (cases "p = n")
    case True
    have "blocks (f(n := overwrite (f n) o' d)) n = blocks f n"
      by (rule blocks_cong) simp
    with True len show ?thesis
      by (simp add: blocks_Suc overwrite_append_left fun_upd_same fun_upd_other del: fun_upd_apply)
  next
    case False
    with Suc.prems(1) have p: "p < n" by simp
    with Suc have IH: "overwrite (blocks f n) (w * p + o') d = blocks (f(p := overwrite (f p) o' d)) n"
      by (simp del: fun_upd_apply)
    from block_end [OF p, of w] Suc.prems(3) len
    have "w * p + o' + length d \<le> length (blocks f n)" by linarith
    with IH False show ?thesis
      by (simp add: blocks_Suc overwrite_append_right fun_upd_same fun_upd_other del: fun_upd_apply)
  qed
qed

lemma write_block:
  assumes "p < n" and "\<And>q. q < n \<Longrightarrow> length (f q) = w" and "o' + length d \<le> w"
  shows "write_at (blocks f n) (w * p + o') d = Inr (blocks (f(p := overwrite (f p) o' d)) n)"
proof -
  from assms(2) have "length (blocks f n) = w * n" by (simp add: length_blocks)
  with block_end [OF assms(1), of w] assms(3) show ?thesis
    by (simp add: write_at_def overwrite_blocks [OF assms])
qed

lemma replicate_blocks: "replicate (w * n) x = blocks (\<lambda>_. replicate w x) n"
proof (induction n)
  case (Suc n)
  have "replicate (w * Suc n) x = replicate (w * n) x @ replicate w x"
    by (simp add: add.commute flip: replicate_add)
  with Suc show ?case by (simp add: blocks_Suc)
qed simp

section \<open>Splitting a range of indices into parts\<close>

text \<open>
  The computation at the head of \<open>createEntryParallel\<close>, \<open>getEntryParallel\<close>,
  \<open>putEntryParallel\<close> and \<open>decryptPortion\<close>: \<open>v\<close> indices over \<open>t\<close> threads.
\<close>

definition part_size :: "nat \<Rightarrow> nat \<Rightarrow> nat" where
  "part_size v t = v div t + (if v mod t \<noteq> 0 then 1 else 0)"

definition part_start :: "nat \<Rightarrow> nat \<Rightarrow> nat \<Rightarrow> nat" where
  "part_start v t part = part * part_size v t"

definition part_limit :: "nat \<Rightarrow> nat \<Rightarrow> nat \<Rightarrow> nat" where
  "part_limit v t part = min ((part + 1) * part_size v t) v"

lemma part_size_covers: "0 < t \<Longrightarrow> v \<le> t * part_size v t"
proof -
  assume "0 < t"
  have "v = t * (v div t) + v mod t" by simp
  moreover have "v mod t \<le> t * (if v mod t \<noteq> 0 then 1 else 0)"
    using \<open>0 < t\<close> by (simp add: less_imp_le)
  ultimately show ?thesis
    unfolding part_size_def distrib_left by linarith
qed

lemma part_limit_le: "part_limit v t part \<le> v"
  by (simp add: part_limit_def)

text \<open>Every index lies in exactly one part.\<close>

lemma in_part_iff:
  "part_start v t part \<le> i \<and> i < part_limit v t part \<longleftrightarrow> i < v \<and> i div part_size v t = part"
  if "0 < part_size v t"
  using that
  by (auto simp: part_start_def part_limit_def div_nat_eqI less_eq_div_iff_mult_less_eq
      mult.commute intro: dividend_less_times_div [THEN order.strict_trans2])

end
