(* ===== verification/LabelBits.thy ===== *)
theory LabelBits
  imports Prelude
begin

text \<open>
  The inline helpers at the head of \<open>ortoa-lbl/clientHelper.cpp\<close>: padding a value to the fixed
  length, and reading and writing a bit or a pair of bits of a byte.  The results of
  \<open>getBits\<close> are 0 .. 3, so the C \<open>int\<close> they are is kept as a byte.
\<close>

section \<open>padToLen\<close>

text \<open>
  \<open>std::string(len - value.length(), ' ')\<close> computes its count in 64-bit \<open>size_t\<close>: a value
  longer than \<open>len\<close> wraps the count around, which is more than \<open>max_size()\<close>, and the
  constructor throws.
\<close>


definition string_max_size :: nat where
  "string_max_size = 2 ^ 63 - 1"

definition padToLen :: "bytes \<Rightarrow> nat \<Rightarrow> bytes res" where
  "padToLen value len =
    (let count = (of_nat len - of_nat (length value) :: size_t) in
     if string_max_size < unat count then Inl LengthError
     else Inr (value @ replicate (unat count) 32))"

text \<open>Lengths of real strings are far below \<open>2 ^ 62\<close>.\<close>

lemma unat_count:
  assumes "k < 2 ^ 62" and "n < 2 ^ 62"
  shows "unat (of_nat n - of_nat k :: size_t) = (if k \<le> n then n - k else 2 ^ 64 - (k - n))"
proof -
  have "unat (of_nat k :: size_t) = k" "unat (of_nat n :: size_t) = n"
    using assms by (simp_all add: unat_of_nat)
  then show ?thesis using assms by (simp add: unat_sub_if') arith
qed

lemma padToLen_fits:
  "length value \<le> len \<Longrightarrow> len < 2 ^ 62 \<Longrightarrow>
    padToLen value len = Inr (value @ replicate (len - length value) 32)"
  by (simp add: padToLen_def Let_def unat_count string_max_size_def)

lemma padToLen_too_long:
  "len < length value \<Longrightarrow> length value < 2 ^ 62 \<Longrightarrow> padToLen value len = Inl LengthError"
  by (simp add: padToLen_def Let_def unat_count string_max_size_def)

section \<open>Bits of a byte\<close>

definition getBit :: "byte \<Rightarrow> nat \<Rightarrow> byte" where
  "getBit c bitNum = drop_bit bitNum c AND 1"

definition getBits :: "byte \<Rightarrow> nat \<Rightarrow> byte" where
  "getBits c bitNumPair = drop_bit bitNumPair c AND 3"

definition modifyBit :: "byte \<Rightarrow> nat \<Rightarrow> byte \<Rightarrow> byte" where
  "modifyBit c bitNum b = (c AND NOT (push_bit bitNum 1)) OR push_bit bitNum b"

definition modifyBits :: "byte \<Rightarrow> nat \<Rightarrow> byte \<Rightarrow> byte" where
  "modifyBits c bitNum b =
    (let p = modifyBit c bitNum (b AND 1) in modifyBit p (bitNum + 1) (drop_bit 1 b AND 1))"

lemma and3_cases: "x AND 3 \<in> {0, 1, 2, 3}" for x :: byte
proof -
  have "x AND 3 = take_bit 2 x"
    by (simp add: take_bit_eq_mask mask_eq_exp_minus_1)
  then have "unat (x AND 3) < 4"
    by (simp add: unsigned_take_bit_eq take_bit_nat_def)
  then consider "unat (x AND 3) = 0" | "unat (x AND 3) = 1"
    | "unat (x AND 3) = 2" | "unat (x AND 3) = 3" by linarith
  then show ?thesis
    by cases (simp_all add: word_unat_eq_iff)
qed

lemma getBits_cases: "getBits c n \<in> {0, 1, 2, 3}"
  unfolding getBits_def by (rule and3_cases)

lemma bit_3_byte: "bit (3 :: byte) i \<longleftrightarrow> i < 2"
proof -
  have "(3 :: byte) = mask 2" by (simp add: mask_eq_exp_minus_1)
  then show ?thesis by (simp only: bit_mask_iff) auto
qed

lemma and_3_small: "b \<in> {0, 1, 2, 3} \<Longrightarrow> b AND 3 = b" for b :: byte
  by auto

lemma bit_getBits: "bit (getBits c n) i \<longleftrightarrow> i < 2 \<and> bit c (n + i)"
  using bit_imp_le_length [of c "n + i"]
  by (auto simp: getBits_def bit_and_iff bit_drop_bit_eq bit_3_byte simp del: bit_numeral_word_iff)

lemma bit_1_byte: "bit (1 :: byte) i \<longleftrightarrow> i = 0"
  by (simp add: bit_1_iff)

lemma bit_modifyBit:
  "n < 8 \<Longrightarrow> bit (modifyBit c n (b AND 1)) i \<longleftrightarrow> (if i = n then bit b 0 else bit c i)"
  by (cases "i < 8")
     (auto simp: modifyBit_def bit_simps bit_1_byte dest: bit_imp_le_length)

lemma bit_modifyBits:
  "n < 7 \<Longrightarrow> bit (modifyBits c n b) i \<longleftrightarrow>
    (if i = n then bit b 0 else if i = n + 1 then bit b 1 else bit c i)"
  by (simp add: modifyBits_def Let_def bit_modifyBit bit_drop_bit_eq)

section \<open>Rebuilding a byte from its four pairs\<close>

text \<open>
  Four calls of \<open>modifyBits\<close> at 0, 2, 4 and 6 overwrite all eight bits, so the byte they start
  from (an uninitialised variable in \<open>readValueFromLabels\<close>) cannot be seen in the result.
\<close>

definition byte_of :: "(nat \<Rightarrow> byte) \<Rightarrow> byte \<Rightarrow> byte" where
  "byte_of b c = modifyBits (modifyBits (modifyBits (modifyBits c 0 (b 0)) 2 (b 1)) 4 (b 2)) 6 (b 3)"

lemma bit_byte_of: "i < 8 \<Longrightarrow> bit (byte_of b c) i \<longleftrightarrow> bit (b (i div 2)) (i mod 2)"
proof -
  assume "i < 8"
  then have "i \<in> {0, 1, 2, 3, 4, 5, 6, 7}" by auto
  then show ?thesis by (auto simp: byte_of_def bit_modifyBits)
qed

lemma byte_of_initial: "byte_of b c = byte_of b c'"
  by (rule bit_word_eqI) (simp add: bit_byte_of)

lemma byte_of_cong: "(\<And>j. j < 4 \<Longrightarrow> b j = b' j) \<Longrightarrow> byte_of b c = byte_of b' c"
  by (simp add: byte_of_def)

lemma byte_of_getBits: "byte_of (\<lambda>j. getBits v (2 * j)) c = v"
proof (rule bit_word_eqI)
  fix i assume "i < LENGTH(8)"
  then have "i < 8" by simp
  moreover have "2 * (i div 2) + i mod 2 = i" by simp
  ultimately show "bit (byte_of (\<lambda>j. getBits v (2 * j)) c) i = bit v i"
    by (simp add: bit_byte_of bit_getBits)
qed

lemma getBits_byte_of:
  assumes "\<And>j. j < 4 \<Longrightarrow> b j \<in> {0, 1, 2, 3}" and "j < 4"
  shows "getBits (byte_of b c) (2 * j) = b j"
proof (rule bit_word_eqI)
  fix i assume "i < LENGTH(8)"
  have high: "\<not> bit (b j) i" if "2 \<le> i"
  proof -
    have "bit (b j AND 3) i \<longleftrightarrow> bit (b j) i \<and> i < 2"
      by (simp add: bit_and_iff bit_3_byte del: bit_numeral_word_iff)
    with that show ?thesis
      by (simp add: and_3_small [OF assms(1) [OF assms(2)]])
  qed
  show "bit (getBits (byte_of b c) (2 * j)) i = bit (b j) i"
  proof (cases "i < 2")
    case True
    then have "(2 * j + i) div 2 = j" "(2 * j + i) mod 2 = i" "2 * j + i < 8"
      using assms(2) by auto
    with True show ?thesis by (simp add: bit_getBits bit_byte_of)
  next
    case False
    with high show ?thesis by (simp add: bit_getBits)
  qed
qed

end
