(* ===== verification/Parallel.thy ===== *)
theory Parallel
  imports Prelude
begin

text \<open>
  The parallel phases of ORTOA-LBL.  \<open>constructCreateEntry\<close>, \<open>constructGetEntry\<close>,
  \<open>constructPutEntry\<close> and the server's \<open>access\<close> hand one task per part to the thread pool
  and wait for every future.  A task only writes into the output buffers and only reads data that no
  task of the phase writes, so it is modelled by the sequence of its stores; a phase is any
  interleaving of the sequences.  This theory shows when the schedule cannot be observed.
\<close>

section \<open>Stores into the four label buffers\<close>

text \<open>The lanes are the \<open>encryptedLabelsA\<close> .. \<open>encryptedLabelsD\<close> of an entry.\<close>

datatype lane = LA | LB | LC | LD

instantiation lane :: enum
begin

definition "enum_lane = [LA, LB, LC, LD]"
definition "enum_all_lane P \<longleftrightarrow> P LA \<and> P LB \<and> P LC \<and> P LD" for P :: "lane \<Rightarrow> bool"
definition "enum_ex_lane P \<longleftrightarrow> P LA \<or> P LB \<or> P LC \<or> P LD" for P :: "lane \<Rightarrow> bool"

instance
proof
  show univ: "(UNIV :: lane set) = set enum_class.enum"
    by (auto simp: enum_lane_def) (metis lane.exhaust)
  show "distinct (enum_class.enum :: lane list)"
    by (simp add: enum_lane_def)
  show "enum_class.enum_all P = Ball UNIV P" for P :: "lane \<Rightarrow> bool"
    by (simp add: univ enum_lane_def enum_all_lane_def)
  show "enum_class.enum_ex P = Bex UNIV P" for P :: "lane \<Rightarrow> bool"
    by (simp add: univ enum_lane_def enum_ex_lane_def)
qed

end

type_synonym mem = "lane \<Rightarrow> bytes"
type_synonym store = "lane \<times> nat \<times> bytes"

fun apply_store :: "mem \<Rightarrow> store \<Rightarrow> mem res" where
  "apply_store m (l, off, d) = bind_res (write_at (m l) off d) (\<lambda>b. Inr (m(l := b)))"

fun apply_stores :: "mem \<Rightarrow> store list \<Rightarrow> mem res" where
  "apply_stores m [] = Inr m"
| "apply_stores m (s # ss) = bind_res (apply_store m s) (\<lambda>m'. apply_stores m' ss)"

fun covers :: "store \<Rightarrow> lane \<Rightarrow> nat \<Rightarrow> bool" where
  "covers (l, off, d) l' x \<longleftrightarrow> l = l' \<and> off \<le> x \<and> x < off + length d"

fun stored_byte :: "store \<Rightarrow> nat \<Rightarrow> byte" where
  "stored_byte (l, off, d) x = d ! (x - off)"

fun in_bounds :: "mem \<Rightarrow> store \<Rightarrow> bool" where
  "in_bounds m (l, off, d) \<longleftrightarrow> off + length d \<le> length (m l)"

definition agree :: "store \<Rightarrow> store \<Rightarrow> bool" where
  "agree s s' \<longleftrightarrow> (\<forall>l x. covers s l x \<longrightarrow> covers s' l x \<longrightarrow> stored_byte s x = stored_byte s' x)"

lemma apply_stores_append:
  "apply_stores m (xs @ ys) = bind_res (apply_stores m xs) (\<lambda>m'. apply_stores m' ys)"
proof (induction xs arbitrary: m)
  case (Cons s xs)
  then show ?case by (cases "apply_store m s") simp_all
qed simp

lemma apply_store_bounds:
  "in_bounds m s \<Longrightarrow> \<exists>m'. apply_store m s = Inr m' \<and> (\<forall>l. length (m' l) = length (m l))"
  by (cases s) (simp add: write_at_def)

lemma in_bounds_cong: "(\<And>l. length (m' l) = length (m l)) \<Longrightarrow> in_bounds m' s = in_bounds m s"
  by (cases s) simp

lemma apply_stores_bounds:
  "\<forall>s \<in> set ss. in_bounds m s \<Longrightarrow>
    \<exists>m'. apply_stores m ss = Inr m' \<and> (\<forall>l. length (m' l) = length (m l))"
proof (induction ss arbitrary: m)
  case (Cons s ss)
  then have "in_bounds m s" by simp
  from apply_store_bounds [OF this] obtain m1 where
    1: "apply_store m s = Inr m1" "\<forall>l. length (m1 l) = length (m l)" by blast
  then have "in_bounds m1 s' = in_bounds m s'" for s'
    by (intro in_bounds_cong) simp
  with Cons.prems have "\<forall>s \<in> set ss. in_bounds m1 s" by simp
  from Cons.IH [OF this] obtain m' where
    "apply_stores m1 ss = Inr m'" "\<forall>l. length (m' l) = length (m1 l)" by blast
  with 1 show ?case by simp
qed simp

lemma apply_store_nth:
  "apply_store m s = Inr m' \<Longrightarrow> x < length (m l) \<Longrightarrow>
    m' l ! x = (if covers s l x then stored_byte s x else m l ! x)"
  by (cases s) (auto simp: bind_res_eq_Inr write_at_def nth_overwrite split: if_splits)

text \<open>
  The content of a buffer after stores that agree wherever they overlap: the stored byte where some
  store covers the index, the old byte elsewhere.  It depends on the set of stores only.
\<close>

lemma apply_stores_nth:
  assumes "apply_stores m ss = Inr m'" and "\<forall>s \<in> set ss. in_bounds m s"
    and "\<forall>s \<in> set ss. \<forall>s' \<in> set ss. agree s s'" and "x < length (m l)"
  shows "(\<forall>s \<in> set ss. covers s l x \<longrightarrow> m' l ! x = stored_byte s x) \<and>
    ((\<forall>s \<in> set ss. \<not> covers s l x) \<longrightarrow> m' l ! x = m l ! x)"
  using assms
proof (induction ss arbitrary: m)
  case (Cons s ss)
  from Cons.prems(2) have "in_bounds m s" by simp
  from apply_store_bounds [OF this] obtain m1 where
    1: "apply_store m s = Inr m1" "\<forall>l. length (m1 l) = length (m l)" by blast
  then have "in_bounds m1 s' = in_bounds m s'" for s'
    by (intro in_bounds_cong) simp
  with Cons.prems 1 have IH: "(\<forall>s \<in> set ss. covers s l x \<longrightarrow> m' l ! x = stored_byte s x) \<and>
    ((\<forall>s \<in> set ss. \<not> covers s l x) \<longrightarrow> m' l ! x = m1 l ! x)"
    by (intro Cons.IH) simp_all
  have m1: "m1 l ! x = (if covers s l x then stored_byte s x else m l ! x)"
    using apply_store_nth [OF 1(1) Cons.prems(4)] .
  show ?case
  proof (cases "\<exists>s' \<in> set ss. covers s' l x")
    case True
    then obtain s' where s': "s' \<in> set ss" "covers s' l x" by blast
    with IH have m': "m' l ! x = stored_byte s' x" by blast
    have "m' l ! x = stored_byte r x" if "r \<in> set (s # ss)" "covers r l x" for r
    proof -
      from that(1) s'(1) Cons.prems(3) have "agree r s'" by (meson list.set_intros(2))
      with that(2) s'(2) have "stored_byte r x = stored_byte s' x" unfolding agree_def by blast
      with m' show ?thesis by (rule trans [OF _ sym])
    qed
    moreover from s' have "\<not> (\<forall>r \<in> set (s # ss). \<not> covers r l x)" by auto
    ultimately show ?thesis by blast
  next
    case False
    with IH have "m' l ! x = m1 l ! x" by blast
    with m1 False show ?thesis by simp
  qed
qed simp

lemma apply_stores_set_eq:
  assumes "set ss = set ts" and "\<forall>s \<in> set ss. in_bounds m s"
    and "\<forall>s \<in> set ss. \<forall>s' \<in> set ss. agree s s'"
  shows "apply_stores m ss = apply_stores m ts"
proof -
  obtain m1 where 1: "apply_stores m ss = Inr m1" "\<forall>l. length (m1 l) = length (m l)"
    using apply_stores_bounds assms(2) by blast
  obtain m2 where 2: "apply_stores m ts = Inr m2" "\<forall>l. length (m2 l) = length (m l)"
    using apply_stores_bounds assms(1,2) by metis
  have "m1 l = m2 l" for l
  proof (rule nth_equalityI)
    fix x assume "x < length (m1 l)"
    with 1(2) have x: "x < length (m l)" by simp
    from assms(1-3) have "\<forall>s \<in> set ts. in_bounds m s" "\<forall>s \<in> set ts. \<forall>s' \<in> set ts. agree s s'"
      by simp_all
    from apply_stores_nth [OF 2(1) this x] apply_stores_nth [OF 1(1) assms(2,3) x] assms(1)
    show "m1 l ! x = m2 l ! x" by metis
  qed (simp add: 1 2)
  then have "m1 = m2" by blast
  with 1 2 show ?thesis by simp
qed

section \<open>Interleavings of tasks\<close>

inductive interleaving :: "'a list list \<Rightarrow> 'a list \<Rightarrow> bool" where
  finished: "\<forall>t \<in> set tss. t = [] \<Longrightarrow> interleaving tss []"
| advance: "i < length tss \<Longrightarrow> tss ! i = x # xs \<Longrightarrow> interleaving (tss[i := xs]) ys \<Longrightarrow>
    interleaving tss (x # ys)"

inductive_cases interleaving_NilE: "interleaving tss []"
inductive_cases interleaving_ConsE: "interleaving tss (x # ys)"

lemma interleaving_set: "interleaving tss ys \<Longrightarrow> set ys = (\<Union>t \<in> set tss. set t)"
proof (induction rule: interleaving.induct)
  case (advance i tss x xs ys)
  from advance.hyps(1) have split: "tss = take i tss @ tss ! i # drop (Suc i) tss"
    by (rule id_take_nth_drop)
  have "set ys = (\<Union>t \<in> set (take i tss @ xs # drop (Suc i) tss). set t)"
    using advance.IH advance.hyps(1) by (simp add: upd_conv_take_nth_drop)
  moreover have "(\<Union>t \<in> set tss. set t) = (\<Union>t \<in> set (take i tss @ (x # xs) # drop (Suc i) tss). set t)"
    using split advance.hyps(2) by simp
  ultimately show ?case by auto
qed simp

text \<open>Running the tasks one after the other is one of the interleavings.\<close>

lemma interleaving_Nil_Cons: "interleaving tss ys \<Longrightarrow> interleaving ([] # tss) ys"
proof (induction rule: interleaving.induct)
  case (advance i tss x xs ys)
  then show ?case
    using interleaving.advance [of "Suc i" "[] # tss" x xs ys] by simp
qed (simp add: interleaving.finished)

lemma interleaving_concat: "interleaving tss (concat tss)"
proof (induction tss)
  case Nil
  show ?case by (simp add: interleaving.finished)
next
  case (Cons t tss)
  show ?case
  proof (induction t)
    case Nil
    with Cons show ?case by (simp add: interleaving_Nil_Cons)
  next
    case (Cons x t)
    then show ?case
      using interleaving.advance [of 0 "(x # t) # tss" x t "concat (t # tss)"] by simp
  qed
qed

text \<open>
  The contract of a parallel phase.  A configuration \<open>c\<close> is what the tasks read (keys, values,
  the old label buffers); under \<open>pre c\<close> every store is inside the output buffers and stores that
  overlap write the same bytes.
\<close>

locale parallel_phase =
  fixes pre :: "'c \<Rightarrow> bool"
    and tasks :: "'c \<Rightarrow> store list list"
    and init :: "'c \<Rightarrow> mem"
  assumes phase_bounds: "pre c \<Longrightarrow> t \<in> set (tasks c) \<Longrightarrow> s \<in> set t \<Longrightarrow> in_bounds (init c) s"
    and phase_agree: "pre c \<Longrightarrow> t \<in> set (tasks c) \<Longrightarrow> s \<in> set t \<Longrightarrow>
      t' \<in> set (tasks c) \<Longrightarrow> s' \<in> set t' \<Longrightarrow> agree s s'"
begin

text \<open>Only the set of the stores counts.\<close>

lemma same_stores:
  assumes "pre c" and "set ys = (\<Union>t \<in> set (tasks c). set t)"
  shows "apply_stores (init c) ys = apply_stores (init c) (concat (tasks c))"
proof (rule apply_stores_set_eq)
  show "set ys = set (concat (tasks c))" using assms(2) by simp
  show "\<forall>s \<in> set ys. in_bounds (init c) s"
    using assms(2) phase_bounds [OF assms(1)] by auto
  show "\<forall>s \<in> set ys. \<forall>s' \<in> set ys. agree s s'"
    using assms(2) phase_agree [OF assms(1)] by blast
qed

lemma schedule_independent:
  assumes "pre c" and "interleaving (tasks c) ys"
  shows "apply_stores (init c) ys = apply_stores (init c) (concat (tasks c))"
  by (rule same_stores [OF assms(1) interleaving_set [OF assms(2)]])

lemma never_out_of_bounds:
  assumes "pre c" and "interleaving (tasks c) ys"
  shows "\<exists>m. apply_stores (init c) ys = Inr m \<and> (\<forall>l. length (m l) = length (init c l))"
  using apply_stores_bounds [of ys "init c"] interleaving_set [OF assms(2)]
    phase_bounds [OF assms(1)] by auto

end

section \<open>Phases over block-structured buffers\<close>

text \<open>
  In every phase, lane \<open>l\<close> holds \<open>n\<close> blocks of \<open>w l\<close> bytes, and the stores of one loop
  iteration stay inside one block of each lane.
\<close>

definition block_mem :: "nat \<Rightarrow> (lane \<Rightarrow> nat \<Rightarrow> bytes) \<Rightarrow> mem" where
  "block_mem n f = (\<lambda>l. blocks (f l) n)"

fun block_store :: "(lane \<Rightarrow> nat) \<Rightarrow> nat \<Rightarrow> store \<Rightarrow> bool" where
  "block_store w p (l, off, d) \<longleftrightarrow> w l * p \<le> off \<and> off + length d \<le> w l * p + w l"

lemma block_store_bounds:
  "block_store w p s \<Longrightarrow> p < n \<Longrightarrow> (\<And>l. length (m l) = w l * n) \<Longrightarrow> in_bounds m s"
  using block_end [of p n "w (fst s)"] by (cases s) fastforce

lemma block_store_agree:
  assumes "block_store w p s" and "block_store w q s'" and "p \<noteq> q"
  shows "agree s s'"
proof -
  obtain l off d l' off' d' where s: "s = (l, off, d)" "s' = (l', off', d')"
    by (cases s, cases s')
  have "False" if "l = l'" "off \<le> x" "x < off + length d" "off' \<le> x" "x < off' + length d'" for x
  proof -
    from assms(1,2) s that have "w l * p \<le> x" "x < w l * Suc p" "w l * q \<le> x" "x < w l * Suc q"
      by simp_all
    then have "w l * p < w l * Suc q" "w l * q < w l * Suc p" by (simp_all only: le_less_trans)
    then have "p < Suc q" "q < Suc p" by (simp_all only: mult_less_cancel1)
    with assms(3) show False by simp
  qed
  with s show ?thesis unfolding agree_def by auto
qed

lemma apply_store_block:
  assumes "p < n" and "\<And>l q. q < n \<Longrightarrow> length (f l q) = w l" and "k + length d \<le> w l"
  shows "apply_store (block_mem n f) (l, w l * p + k, d) =
    Inr (block_mem n (f(l := (f l)(p := overwrite (f l p) k d))))"
proof -
  have "write_at (blocks (f l) n) (w l * p + k) d = Inr (blocks ((f l)(p := overwrite (f l p) k d)) n)"
    using assms by (intro write_block) simp_all
  then show ?thesis by (simp add: block_mem_def fun_eq_iff)
qed

text \<open>
  If iteration \<open>p\<close> turns block \<open>p\<close> of every lane into \<open>d l p\<close>, a sequence of iterations
  fills exactly the blocks it visits, in whatever order and however often it visits them.
\<close>

lemma apply_block_iterations:
  assumes iter: "\<And>p f. p \<in> set ps \<Longrightarrow> (\<And>l q. q < n \<Longrightarrow> length (f l q) = w l) \<Longrightarrow>
      apply_stores (block_mem n f) (g p) = Inr (block_mem n (\<lambda>l. (f l)(p := d l p)))"
    and len: "\<And>l p. p \<in> set ps \<Longrightarrow> length (d l p) = w l"
    and f: "\<And>l q. q < n \<Longrightarrow> length (f l q) = w l"
  shows "apply_stores (block_mem n f) (concat (map g ps)) =
    Inr (block_mem n (\<lambda>l q. if q \<in> set ps then d l q else f l q))"
  using assms
proof (induction ps arbitrary: f)
  case (Cons p ps)
  have 1: "apply_stores (block_mem n f) (g p) = Inr (block_mem n (\<lambda>l. (f l)(p := d l p)))"
    using Cons.prems(3) by (intro Cons.prems(1)) simp_all
  have "apply_stores (block_mem n (\<lambda>l. (f l)(p := d l p))) (concat (map g ps)) =
    Inr (block_mem n (\<lambda>l q. if q \<in> set ps then d l q else ((f l)(p := d l p)) q))"
    using Cons.prems by (intro Cons.IH) simp_all
  moreover have "(\<lambda>l q. if q \<in> set ps then d l q else ((f l)(p := d l p)) q) =
    (\<lambda>l q. if q \<in> set (p # ps) then d l q else f l q)"
    by (auto simp: fun_eq_iff)
  ultimately show ?case using 1 by (simp add: apply_stores_append)
qed simp

text \<open>
  The nested loops \<open>for i .. for j < 4\<close> of the tasks: the body runs at \<open>(i, j)\<close> with the
  running pointer, which then advances by the width of a block.
\<close>

fun label_loop :: "(nat \<Rightarrow> nat \<Rightarrow> nat \<Rightarrow> store list res) \<Rightarrow> nat \<Rightarrow> nat \<Rightarrow> (nat \<times> nat) list \<Rightarrow>
    store list res" where
  "label_loop body w ptr [] = Inr []"
| "label_loop body w ptr ((i, j) # ijs) =
     bind_res (body ptr i j) (\<lambda>ss.
     bind_res (label_loop body w (ptr + w) ijs) (\<lambda>rest. Inr (ss @ rest)))"

lemma label_loop_nth:
  "(\<And>k. k < length xs \<Longrightarrow> body (ptr + w * k) (fst (xs ! k)) (snd (xs ! k)) = Inr (g k)) \<Longrightarrow>
    label_loop body w ptr xs = Inr (concat (map g [0..<length xs]))"
proof (induction xs arbitrary: ptr g)
  case (Cons ij xs)
  have "body (ptr + w + w * k) (fst (xs ! k)) (snd (xs ! k)) = Inr (g (Suc k))"
    if "k < length xs" for k
    using Cons.prems [of "Suc k"] that by (simp add: add.assoc)
  from Cons.IH [OF this] have
    "label_loop body w (ptr + w) xs = Inr (concat (map (\<lambda>k. g (Suc k)) [0..<length xs]))" .
  moreover from Cons.prems [of 0] have "body ptr (fst ij) (snd ij) = Inr (g 0)" by simp
  ultimately have "label_loop body w ptr (ij # xs) =
      Inr (g 0 @ concat (map (\<lambda>k. g (Suc k)) [0..<length xs]))"
    by (cases ij) simp
  also have "g 0 @ concat (map (\<lambda>k. g (Suc k)) [0..<length xs]) =
      concat (map g (0 # map Suc [0..<length xs]))"
    by (simp add: o_def)
  also have "0 # map Suc [0..<length xs] = [0..<length (ij # xs)]"
    unfolding map_Suc_upt by (simp add: upt_conv_Cons del: upt_Suc)
  finally show ?case .
qed simp

lemma label_loop_range:
  assumes "\<And>i j. a \<le> i \<Longrightarrow> i < b \<Longrightarrow> j < 4 \<Longrightarrow> body (w * (4 * i + j)) i j = Inr (g (4 * i + j))"
  shows "label_loop body w (w * (4 * a)) (List.product [a..<b] [0..<4]) =
    Inr (concat (map g [4 * a..<4 * b]))"
proof -
  let ?xs = "List.product [a..<b] [0..<4]"
  have len: "length ?xs = 4 * b - 4 * a" by (simp add: length_product)
  have "body (w * (4 * a) + w * k) (fst (?xs ! k)) (snd (?xs ! k)) = Inr (g (4 * a + k))"
    if "k < length ?xs" for k
  proof -
    from that have k: "k < 4 * (b - a)" by (simp add: length_product)
    then have "?xs ! k = (a + k div 4, k mod 4)" by (simp add: product_nth less_mult_imp_div_less)
    moreover have "a + k div 4 < b" using k by linarith
    then have "body (w * (4 * (a + k div 4) + k mod 4)) (a + k div 4) (k mod 4) =
        Inr (g (4 * (a + k div 4) + k mod 4))"
      by (intro assms(1)) simp_all
    moreover have "4 * (a + k div 4) + k mod 4 = 4 * a + k" by presburger
    moreover have "w * (4 * a) + w * k = w * (4 * a + k)" by (simp only: distrib_left)
    ultimately show ?thesis by (simp only: fst_conv snd_conv)
  qed
  then have "label_loop body w (w * (4 * a)) ?xs =
    Inr (concat (map (\<lambda>k. g (4 * a + k)) [0..<length ?xs]))"
    by (rule label_loop_nth [where g = "\<lambda>k. g (4 * a + k)"])
  also have "map (\<lambda>k. g (4 * a + k)) [0..<length ?xs] = map g [4 * a..<4 * b]"
    by (intro nth_equalityI) (simp_all add: len)
  finally show ?thesis .
qed

text \<open>A phase made of iterations that each stay inside their block meets the contract.\<close>

lemma parallel_phase_blocksI:
  assumes iterations: "\<And>c t s. pre c \<Longrightarrow> t \<in> set (tasks c) \<Longrightarrow> s \<in> set t \<Longrightarrow> \<exists>p<n. s \<in> set (g c p)"
    and inside: "\<And>c p s. pre c \<Longrightarrow> s \<in> set (g c p) \<Longrightarrow> block_store w p s"
    and within: "\<And>c p s s'. pre c \<Longrightarrow> s \<in> set (g c p) \<Longrightarrow> s' \<in> set (g c p) \<Longrightarrow> agree s s'"
    and init: "\<And>c l. pre c \<Longrightarrow> length (init c l) = w l * n"
  shows "parallel_phase pre tasks init"
proof
  fix c t s
  assume c: "pre c" and s: "t \<in> set (tasks c)" "s \<in> set t"
  from iterations [OF c s] obtain p where p: "p < n" "s \<in> set (g c p)" by blast
  from block_store_bounds [OF inside [OF c p(2)] p(1) init [OF c]]
  show "in_bounds (init c) s" .
  fix t' s'
  assume s': "t' \<in> set (tasks c)" "s' \<in> set t'"
  from iterations [OF c s'] obtain q where q: "s' \<in> set (g c q)" by blast
  show "agree s s'"
  proof (cases "p = q")
    case True
    with within [OF c p(2)] q show ?thesis by simp
  next
    case False
    with block_store_agree [OF inside [OF c p(2)] inside [OF c q]] show ?thesis .
  qed
qed

end
