(* ===== verification/ClientHelper.thy ===== *)
theory ClientHelper
  imports LabelBits Parallel
begin

text \<open>
  \<open>ortoa-lbl/clientHelper.cpp\<close> and the constants of \<open>constants.h\<close>: the proxy-side state,
  the construction of CREATE, GET and PUT entries and the decoding of the labels the server returns.
  libsodium is a parameter, the record \<open>sodium\<close>; what the code relies on is \<open>sodium_ok\<close>.
  The randomness of one operation (a fresh master key and the nonces) is the record \<open>fresh\<close>.
\<close>

section \<open>Constants\<close>

definition VALUE_SIZE :: nat where [layout]: "VALUE_SIZE = 160"
definition PROXY_NUM_THREADS :: nat where [layout]: "PROXY_NUM_THREADS = 8"
definition SERVER_NUM_THREADS :: nat where [layout]: "SERVER_NUM_THREADS = 64"
definition KEY_MAX :: nat where "KEY_MAX = 100000"

text \<open>libsodium's \<open>crypto_secretbox_KEYBYTES\<close>, \<open>NONCEBYTES\<close>, \<open>MACBYTES\<close>.\<close>

definition KEYBYTES :: nat where [layout]: "KEYBYTES = 32"
definition NONCEBYTES :: nat where [layout]: "NONCEBYTES = 24"
definition MACBYTES :: nat where [layout]: "MACBYTES = 16"
definition CIPHERTEXT_LEN :: nat where [layout]: "CIPHERTEXT_LEN = MACBYTES + KEYBYTES + 1"

definition CONTEXT :: string where "CONTEXT = ''OpScureK''"

section \<open>libsodium\<close>

text \<open>
  \<open>kdf_derive n id ctx key\<close> is the \<open>n\<close>-byte subkey \<open>crypto_kdf_derive_from_key\<close>
  writes; \<open>secretbox_easy m n k\<close> and \<open>secretbox_open_easy c n k\<close> are the authenticated
  encryption and decryption, the latter failing (a return value other than 0) with \<open>None\<close>.
\<close>

record sodium =
  kdf_derive :: "nat \<Rightarrow> nat \<Rightarrow> string \<Rightarrow> bytes \<Rightarrow> bytes"
  secretbox_easy :: "bytes \<Rightarrow> bytes \<Rightarrow> bytes \<Rightarrow> bytes"
  secretbox_open_easy :: "bytes \<Rightarrow> bytes \<Rightarrow> bytes \<Rightarrow> bytes option"

definition sodium_ok :: "sodium \<Rightarrow> bool" where
  "sodium_ok S \<longleftrightarrow>
    (\<forall>n i c k. length (kdf_derive S n i c k) = n) \<and>
    (\<forall>m n k. length (secretbox_easy S m n k) = MACBYTES + length m) \<and>
    (\<forall>m n k. length n = NONCEBYTES \<longrightarrow> length k = KEYBYTES \<longrightarrow>
       secretbox_open_easy S (secretbox_easy S m n k) n k = Some m) \<and>
    (\<forall>c n k m. secretbox_open_easy S c n k = Some m \<longrightarrow> length c = MACBYTES + length m)"

text \<open>The key derivation reads a 32-byte master key through a pointer.\<close>

definition derive :: "sodium \<Rightarrow> bytes \<Rightarrow> nat \<Rightarrow> bytes res" where
  "derive S masterKey sid =
    bind_res (read_at masterKey 0 KEYBYTES) (\<lambda>k. Inr (kdf_derive S KEYBYTES sid CONTEXT k))"

record fresh =
  keygen :: bytes
  nonces :: "nat \<Rightarrow> nat \<Rightarrow> lane \<Rightarrow> bytes"

definition fresh_ok :: "fresh \<Rightarrow> bool" where
  "fresh_ok F \<longleftrightarrow> length (keygen F) = KEYBYTES \<and> (\<forall>i j l. length (nonces F i j l) = NONCEBYTES)"

section \<open>State and messages\<close>

record helper =
  keySet :: "string set"
  valueSizes :: "string \<rightharpoonup> int"
  masterKeys :: "string \<rightharpoonup> bytes"
  locks :: "string \<rightharpoonup> bool"

record entry =
  keyName :: string
  encryptedLabelsA :: bytes
  encryptedLabelsB :: bytes
  encryptedLabelsC :: bytes
  encryptedLabelsD :: bytes

definition entry_of :: "string \<Rightarrow> mem \<Rightarrow> entry" where
  "entry_of key m = \<lparr>keyName = key, encryptedLabelsA = m LA, encryptedLabelsB = m LB,
     encryptedLabelsC = m LC, encryptedLabelsD = m LD\<rparr>"

fun lane_of :: "entry \<Rightarrow> lane \<Rightarrow> bytes" where
  "lane_of e LA = encryptedLabelsA e"
| "lane_of e LB = encryptedLabelsB e"
| "lane_of e LC = encryptedLabelsC e"
| "lane_of e LD = encryptedLabelsD e"

lemma lane_of_entry_of [simp]: "lane_of (entry_of key m) l = m l"
  by (cases l) (simp_all add: entry_of_def)

lemma keyName_entry_of [simp]: "keyName (entry_of key m) = key"
  by (simp add: entry_of_def)

text \<open>\<open>m[k]\<close> of an \<open>unordered_map\<close>: a missing key reads as the default value.\<close>

definition at_default :: "('k \<rightharpoonup> 'v) \<Rightarrow> 'v \<Rightarrow> 'k \<Rightarrow> 'v" where
  "at_default m d k = (case m k of None \<Rightarrow> d | Some v \<Rightarrow> v)"

lemma at_default_Some [simp]: "m k = Some v \<Longrightarrow> at_default m d k = v"
  by (simp add: at_default_def)

section \<open>CREATE\<close>

definition create_body :: "sodium \<Rightarrow> bytes \<Rightarrow> bytes \<Rightarrow> nat \<Rightarrow> nat \<Rightarrow> nat \<Rightarrow> store list res" where
  "create_body S paddedVal masterKey label i j =
    bind_res (read_at paddedVal i 1) (\<lambda>c.
    bind_res (derive S masterKey (5 * (4 * i + j))) (\<lambda>tmpAux.
    bind_res (derive S masterKey (5 * (4 * i + j) + 1 + unat (getBits (hd c) (2 * j)))) (\<lambda>subkey.
      Inr [(LA, label, [(hd tmpAux AND 3) XOR getBits (hd c) (2 * j)]), (LA, label + 1, subkey)])))"

definition createEntryParallel :: "sodium \<Rightarrow> nat \<Rightarrow> bytes \<Rightarrow> bytes \<Rightarrow> store list res" where
  "createEntryParallel S part paddedVal masterKey =
    (let partSize = part_size VALUE_SIZE PROXY_NUM_THREADS;
         start = part_start VALUE_SIZE PROXY_NUM_THREADS part;
         limit = part_limit VALUE_SIZE PROXY_NUM_THREADS part
     in label_loop (create_body S paddedVal masterKey) (1 + KEYBYTES)
          (part * partSize * 4 * (1 + KEYBYTES)) (List.product [start..<limit] [0..<4]))"

definition create_init :: mem where
  "create_init = (\<lambda>l. if l = LA then replicate (VALUE_SIZE * 4 * (1 + KEYBYTES)) 0 else [])"

definition constructCreateEntry ::
  "sodium \<Rightarrow> fresh \<Rightarrow> string \<Rightarrow> bytes \<Rightarrow> helper \<Rightarrow> entry res \<times> helper" where
  "constructCreateEntry S F key val st =
    (case padToLen val VALUE_SIZE of
       Inl e \<Rightarrow> (Inl e, st)
     | Inr paddedVal \<Rightarrow>
         let masterKey = keygen F;
             st' = st\<lparr>masterKeys := (masterKeys st)(key \<mapsto> masterKey)\<rparr>
         in (bind_res (map_res (\<lambda>part. createEntryParallel S part paddedVal masterKey)
               [0..<PROXY_NUM_THREADS]) (\<lambda>tasks.
             bind_res (apply_stores create_init (concat tasks)) (\<lambda>m. Inr (entry_of key m))), st'))"

section \<open>GET and PUT\<close>

text \<open>
  The first bytes of the four new labels: four assignments to the array, at the indices permuted by
  the old permutation bits.
\<close>

definition newLabel_headers :: "byte \<Rightarrow> byte \<Rightarrow> byte list" where
  "newLabel_headers tmpAux oldBits =
    (let h = replicate 4 0;
         h = h[unat (0 XOR oldBits) := ((tmpAux AND 3) XOR 0) XOR oldBits];
         h = h[unat (1 XOR oldBits) := ((tmpAux AND 3) XOR 1) XOR oldBits];
         h = h[unat (2 XOR oldBits) := ((tmpAux AND 3) XOR 2) XOR oldBits]
     in h[unat (3 XOR oldBits) := ((tmpAux AND 3) XOR 3) XOR oldBits])"

definition lanes :: "(lane \<times> byte) list" where
  "lanes = [(LA, 0), (LB, 1), (LC, 2), (LD, 3)]"

text \<open>
  One iteration of the loops of \<open>getEntryParallel\<close> and \<open>putEntryParallel\<close>: the common part
  derives the permutation bits and the eight labels, draws the four nonces and hands the labels on.
\<close>

definition rekey_body :: "(byte \<Rightarrow> byte list \<Rightarrow> bytes list \<Rightarrow> byte \<Rightarrow> bytes) \<Rightarrow> sodium \<Rightarrow> bytes \<Rightarrow> fresh \<Rightarrow>
    nat \<Rightarrow> nat \<Rightarrow> nat \<Rightarrow> store list res" where
  "rekey_body pick S oldMasterKey F label i j =
    (let sid = 5 * (4 * i + j); newMasterKey = keygen F; nonce = nonces F i j in
     bind_res (derive S oldMasterKey sid) (\<lambda>oldAux.
     let oldBits = hd oldAux AND 3 in
     bind_res (derive S newMasterKey sid) (\<lambda>newAux.
     let headers = newLabel_headers (hd newAux) oldBits in
     bind_res (map_res (\<lambda>k. derive S newMasterKey (sid + k)) [1, 2, 3, 4]) (\<lambda>newSubkeys.
     bind_res (map_res (\<lambda>k. derive S oldMasterKey (sid + k)) [1, 2, 3, 4]) (\<lambda>oldLabels.
       Inr (map (\<lambda>(l, k). (l, label, nonce l)) lanes @
            map (\<lambda>(l, k). (l, label + NONCEBYTES,
                  secretbox_easy S (pick oldBits headers newSubkeys k) (nonce l)
                    (oldLabels ! unat (k XOR oldBits)))) lanes))))))"

text \<open>GET encrypts \<open>newLabels[k ^ oldBits]\<close> in lane \<open>k\<close>.\<close>

definition get_body :: "sodium \<Rightarrow> bytes \<Rightarrow> fresh \<Rightarrow> nat \<Rightarrow> nat \<Rightarrow> nat \<Rightarrow> store list res" where
  "get_body = rekey_body (\<lambda>oldBits headers newSubkeys k.
     headers ! unat (k XOR oldBits) # newSubkeys ! unat (k XOR oldBits))"

text \<open>PUT encrypts the one label \<open>newLabels[newBits]\<close> of the new value in every lane.\<close>

definition put_body :: "sodium \<Rightarrow> bytes \<Rightarrow> bytes \<Rightarrow> fresh \<Rightarrow> nat \<Rightarrow> nat \<Rightarrow> nat \<Rightarrow> store list res" where
  "put_body S paddedVal oldMasterKey F label i j =
    (if length paddedVal \<le> i then Inl OutOfRange else
     let newBits = getBits (paddedVal ! i) (2 * j) in
     rekey_body (\<lambda>oldBits headers newSubkeys k. headers ! unat newBits # newSubkeys ! unat newBits)
       S oldMasterKey F label i j)"

definition BLOCK_LEN :: nat where [layout]: "BLOCK_LEN = NONCEBYTES + CIPHERTEXT_LEN"

definition getEntryParallel :: "sodium \<Rightarrow> nat \<Rightarrow> bytes \<Rightarrow> fresh \<Rightarrow> store list res" where
  "getEntryParallel S part oldMasterKey F =
    (let start = part_start VALUE_SIZE PROXY_NUM_THREADS part;
         limit = part_limit VALUE_SIZE PROXY_NUM_THREADS part
     in label_loop (get_body S oldMasterKey F) BLOCK_LEN
          (start * 4 * (CIPHERTEXT_LEN + NONCEBYTES)) (List.product [start..<limit] [0..<4]))"

definition putEntryParallel :: "sodium \<Rightarrow> nat \<Rightarrow> bytes \<Rightarrow> bytes \<Rightarrow> fresh \<Rightarrow> store list res" where
  "putEntryParallel S part paddedVal oldMasterKey F =
    (let start = part_start VALUE_SIZE PROXY_NUM_THREADS part;
         limit = part_limit VALUE_SIZE PROXY_NUM_THREADS part
     in label_loop (put_body S paddedVal oldMasterKey F) BLOCK_LEN
          (start * 4 * (CIPHERTEXT_LEN + NONCEBYTES)) (List.product [start..<limit] [0..<4]))"

definition rekey_init :: mem where
  "rekey_init = (\<lambda>l. replicate (VALUE_SIZE * 4 * (NONCEBYTES + CIPHERTEXT_LEN)) 0)"

definition constructGetEntry :: "sodium \<Rightarrow> fresh \<Rightarrow> string \<Rightarrow> helper \<Rightarrow> entry res \<times> helper" where
  "constructGetEntry S F key st =
    (case bind_res (map_res (\<lambda>part. getEntryParallel S part (at_default (masterKeys st) [] key) F)
            [0..<PROXY_NUM_THREADS]) (\<lambda>tasks. apply_stores rekey_init (concat tasks)) of
       Inl e \<Rightarrow> (Inl e, st)
     | Inr m \<Rightarrow> (Inr (entry_of key m), st\<lparr>masterKeys := (masterKeys st)(key \<mapsto> keygen F)\<rparr>))"

definition constructPutEntry ::
  "sodium \<Rightarrow> fresh \<Rightarrow> string \<Rightarrow> bytes \<Rightarrow> helper \<Rightarrow> entry res \<times> helper" where
  "constructPutEntry S F key val st =
    (case padToLen val VALUE_SIZE of
       Inl e \<Rightarrow> (Inl e, st)
     | Inr paddedVal \<Rightarrow>
        (case bind_res (map_res (\<lambda>part.
                putEntryParallel S part paddedVal (at_default (masterKeys st) [] key) F)
              [0..<PROXY_NUM_THREADS]) (\<lambda>tasks. apply_stores rekey_init (concat tasks)) of
           Inl e \<Rightarrow> (Inl e, st)
         | Inr m \<Rightarrow> (Inr (entry_of key m), st\<lparr>masterKeys := (masterKeys st)(key \<mapsto> keygen F)\<rparr>)))"

section \<open>Decoding\<close>

text \<open>
  \<open>c\<close> is one variable for the whole function, not initialised by the code: it is an argument and
  the byte of the previous index carries over to the next.
\<close>

definition read_pair :: "sodium \<Rightarrow> bytes \<Rightarrow> bytes \<Rightarrow> nat \<Rightarrow> nat \<Rightarrow> nat \<Rightarrow> byte \<Rightarrow> byte res" where
  "read_pair S masterKey labels currLabel i j c =
    (let sid = 5 * (4 * i + j) in
     bind_res (derive S masterKey (sid + 1)) (\<lambda>label00.
     bind_res (derive S masterKey (sid + 2)) (\<lambda>label01.
     bind_res (derive S masterKey (sid + 3)) (\<lambda>label10.
     bind_res (derive S masterKey (sid + 4)) (\<lambda>label11.
     bind_res (read_at labels currLabel KEYBYTES) (\<lambda>curr.
       Inr (modifyBits c (2 * j)
         (if curr = label00 then 0 else if curr = label01 then 1
          else if curr = label10 then 2 else 3))))))))"

fun read_byte :: "sodium \<Rightarrow> bytes \<Rightarrow> bytes \<Rightarrow> nat \<Rightarrow> nat \<Rightarrow> nat list \<Rightarrow> byte \<Rightarrow> (byte \<times> nat) res" where
  "read_byte S masterKey labels currLabel i [] c = Inr (c, currLabel)"
| "read_byte S masterKey labels currLabel i (j # js) c =
     bind_res (read_pair S masterKey labels currLabel i j c) (\<lambda>c'.
       read_byte S masterKey labels (currLabel + KEYBYTES + 1) i js c')"

fun read_bytes :: "sodium \<Rightarrow> bytes \<Rightarrow> bytes \<Rightarrow> nat \<Rightarrow> nat list \<Rightarrow> byte \<Rightarrow> bytes res" where
  "read_bytes S masterKey labels currLabel [] c = Inr []"
| "read_bytes S masterKey labels currLabel (i # is) c =
     bind_res (read_byte S masterKey labels currLabel i [0..<4] c) (\<lambda>(c', currLabel').
     bind_res (read_bytes S masterKey labels currLabel' is c') (\<lambda>rest. Inr (c' # rest)))"

text \<open>\<open>substr(0, n)\<close> takes its count as a \<open>size_t\<close>: a negative \<open>int\<close> is huge.\<close>

definition substr0 :: "bytes \<Rightarrow> int \<Rightarrow> bytes" where
  "substr0 s n = take (unat (of_int n :: size_t)) s"

definition readValueFromLabels ::
  "sodium \<Rightarrow> byte \<Rightarrow> string \<Rightarrow> bytes \<Rightarrow> helper \<Rightarrow> bytes res \<times> helper" where
  "readValueFromLabels S c key labels st =
    (bind_res (read_bytes S (at_default (masterKeys st) [] key) labels 1 [0..<VALUE_SIZE] c)
       (\<lambda>result. Inr (substr0 result (at_default (valueSizes st) 0 key))),
     st\<lparr>valueSizes := (valueSizes st)(key \<mapsto> at_default (valueSizes st) 0 key)\<rparr>)"

end
