(* ===== verification/LabelTables.thy ===== *)
theory LabelTables
  imports ClientHelper
begin

text \<open>
  What the tasks of \<open>clientHelper.cpp\<close> write.  A value of \<open>VALUE_SIZE\<close> bytes is 640 pairs of
  bits; position \<open>p = 4 * i + j\<close> is pair \<open>j\<close> of byte \<open>i\<close>.  The server keeps one label per
  position; a GET or PUT entry holds, per position, a table of four ciphertexts, one in each lane.
  The lemmas give the whole entry of each operation, independent of the threads' schedule.
\<close>

section \<open>Labels\<close>

definition POSITIONS :: nat where [layout]: "POSITIONS = VALUE_SIZE * 4"

definition sub :: "sodium \<Rightarrow> bytes \<Rightarrow> nat \<Rightarrow> bytes" where
  "sub S mk n = kdf_derive S KEYBYTES n CONTEXT mk"

definition aux :: "sodium \<Rightarrow> bytes \<Rightarrow> nat \<Rightarrow> byte" where
  "aux S mk p = hd (sub S mk (5 * p)) AND 3"

text \<open>The label of position \<open>p\<close> for the pair of bits \<open>b\<close> under master key \<open>mk\<close>.\<close>

definition label :: "sodium \<Rightarrow> bytes \<Rightarrow> nat \<Rightarrow> byte \<Rightarrow> bytes" where
  "label S mk p b = (aux S mk p XOR b) # sub S mk (5 * p + 1 + unat b)"

definition pair :: "bytes \<Rightarrow> nat \<Rightarrow> byte" where
  "pair v p = getBits (v ! (p div 4)) (2 * (p mod 4))"

lemma pair_cases: "pair v p \<in> {0, 1, 2, 3}"
  unfolding pair_def by (rule getBits_cases)

lemma aux_cases: "aux S mk p \<in> {0, 1, 2, 3}"
  unfolding aux_def by (rule and3_cases)

lemma xor_cases: "a \<in> {0, 1, 2, 3} \<Longrightarrow> b \<in> {0, 1, 2, 3} \<Longrightarrow> a XOR b \<in> {0, 1, 2, 3}" for a b :: byte
  by auto

lemma sodium_okD:
  assumes "sodium_ok S"
  shows length_sub [simp]: "length (sub S mk n) = KEYBYTES"
    and length_easy [simp]: "length (secretbox_easy S m n' k) = MACBYTES + length m"
    and open_easy: "length n' = NONCEBYTES \<Longrightarrow> length k = KEYBYTES \<Longrightarrow>
      secretbox_open_easy S (secretbox_easy S m n' k) n' k = Some m"
    and length_open: "secretbox_open_easy S c n' k = Some m \<Longrightarrow> length c = MACBYTES + length m"
  using assms unfolding sodium_ok_def sub_def by blast+

lemma length_label: "sodium_ok S \<Longrightarrow> length (label S mk p b) = 1 + KEYBYTES"
  by (simp add: label_def)

lemma derive_eq: "length mk = KEYBYTES \<Longrightarrow> derive S mk n = Inr (sub S mk n)"
  by (simp add: derive_def read_at_def sub_def)

lemma fresh_okD:
  assumes "fresh_ok F"
  shows length_keygen: "length (keygen F) = KEYBYTES"
    and length_nonce: "length (nonces F i j l) = NONCEBYTES"
  using assms by (simp_all add: fresh_ok_def)

section \<open>The parts of the threads\<close>

lemma concat_map_concat: "concat (map (\<lambda>xs. concat (map f xs)) xss) = concat (map f (concat xss))"
  by (induction xss) simp_all

lemma concat_positions:
  assumes "0 < t"
  shows "concat (map (\<lambda>k. [4 * part_start v t k..<4 * part_limit v t k]) [0..<t]) = [0..<4 * v]"
proof -
  have "concat (map (\<lambda>k. [4 * part_start v t k..<4 * part_limit v t k]) [0..<n]) =
      [0..<4 * min (n * part_size v t) v]" for n
  proof (induction n)
    case (Suc n)
    let ?s = "part_size v t"
    have "[0..<4 * min (n * ?s) v] @ [4 * (n * ?s)..<4 * min (?s + n * ?s) v] =
        [0..<4 * min (?s + n * ?s) v]"
    proof (cases "n * ?s \<le> v")
      case True
      then show ?thesis
        using upt_add_eq_append [of 0 "4 * (n * ?s)" "4 * min (?s + n * ?s) v - 4 * (n * ?s)"]
        by simp
    qed simp
    with Suc show ?case by (simp add: part_start_def part_limit_def)
  qed simp
  from this [of t] part_size_covers [OF assms, of v] show ?thesis
    by (simp add: min_def)
qed

section \<open>One iteration of the rekeying loops\<close>

lemma newLabel_headers_nth:
  assumes "oldBits \<in> {0, 1, 2, 3}" and "k \<in> {0, 1, 2, 3}"
  shows "newLabel_headers t oldBits ! unat k = (t AND 3) XOR k"
proof -
  have "replicate 4 0 = [0, 0, 0, 0 :: byte]" by (simp add: numeral_eq_Suc)
  with assms show ?thesis by (auto simp: newLabel_headers_def Let_def xor.assoc)
qed

fun lane_code :: "lane \<Rightarrow> byte" where
  "lane_code LA = 0" | "lane_code LB = 1" | "lane_code LC = 2" | "lane_code LD = 3"

lemma lane_code_cases: "lane_code l \<in> {0, 1, 2, 3}"
  by (cases l) simp_all

lemma map_lanes: "map (\<lambda>(l, k). g l k) lanes = map (\<lambda>l. g l (lane_code l)) [LA, LB, LC, LD]"
  by (simp add: lanes_def)

definition rekey_stores :: "nat \<Rightarrow> (lane \<Rightarrow> bytes) \<Rightarrow> (lane \<Rightarrow> bytes) \<Rightarrow> store list" where
  "rekey_stores p nonce cipher =
    map (\<lambda>l. (l, BLOCK_LEN * p, nonce l)) [LA, LB, LC, LD] @
    map (\<lambda>l. (l, BLOCK_LEN * p + NONCEBYTES, cipher l)) [LA, LB, LC, LD]"

lemma subkeys_nth:
  fixes b :: byte
  assumes "b \<in> {0, 1, 2, 3}"
  shows "map (\<lambda>k. sub S mk (n + k)) [1, 2, 3, 4] ! unat b = sub S mk (n + 1 + unat b)"
  using assms by auto (simp_all add: numeral_eq_Suc)

lemma rekey_body_eq:
  assumes "length old = KEYBYTES" and "fresh_ok F" and "j < 4"
  shows "rekey_body pick S old F (BLOCK_LEN * (4 * i + j)) i j =
    Inr (rekey_stores (4 * i + j) (nonces F i j) (\<lambda>l. secretbox_easy S
      (pick (aux S old (4 * i + j))
        (newLabel_headers (hd (sub S (keygen F) (5 * (4 * i + j)))) (aux S old (4 * i + j)))
        (map (\<lambda>k. sub S (keygen F) (5 * (4 * i + j) + k)) [1, 2, 3, 4]) (lane_code l))
      (nonces F i j l)
      (sub S old (5 * (4 * i + j) + 1 + unat (lane_code l XOR aux S old (4 * i + j))))))"
proof -
  have d: "map_res (\<lambda>k. Inr (sub S mk (n + k)) :: bytes res) [1, 2, 3, 4] =
      Inr (map (\<lambda>k. sub S mk (n + k)) [1, 2, 3, 4])" for mk n
    by (rule map_res_Inr) simp
  show ?thesis
    unfolding rekey_body_def Let_def derive_eq [OF assms(1)]
      derive_eq [OF length_keygen [OF assms(2)]] bind_res_simps d map_lanes rekey_stores_def
      aux_def [symmetric] subkeys_nth [OF xor_cases [OF lane_code_cases aux_cases]] ..
qed

section \<open>The effect of an iteration on the lanes\<close>

lemma apply_stores_lanes:
  assumes "p < n" and "\<And>l q. q < n \<Longrightarrow> length (f l q) = w"
    and "\<And>l. k + length (d l) \<le> w" and "distinct ls"
  shows "apply_stores (block_mem n f) (map (\<lambda>l. (l, w * p + k, d l)) ls) =
    Inr (block_mem n (\<lambda>l. if l \<in> set ls then (f l)(p := overwrite (f l p) k (d l)) else f l))"
  using assms(2,4)
proof (induction ls arbitrary: f)
  case (Cons l ls)
  let ?f = "f(l := (f l)(p := overwrite (f l p) k (d l)))"
  have "apply_store (block_mem n f) (l, w * p + k, d l) = Inr (block_mem n ?f)"
    using Cons.prems(1) assms(1,3) by (intro apply_store_block) simp_all
  moreover have "apply_stores (block_mem n ?f) (map (\<lambda>l. (l, w * p + k, d l)) ls) =
    Inr (block_mem n (\<lambda>m. if m \<in> set ls then (?f m)(p := overwrite (?f m p) k (d m)) else ?f m))"
    using Cons.prems assms(1,3) by (intro Cons.IH) simp_all
  moreover have "(\<lambda>m. if m \<in> set ls then (?f m)(p := overwrite (?f m p) k (d m)) else ?f m) =
    (\<lambda>m. if m \<in> set (l # ls) then (f m)(p := overwrite (f m p) k (d m)) else f m)"
    using Cons.prems(2) by (auto simp: fun_eq_iff)
  ultimately show ?case by simp
qed simp

lemma apply_rekey_stores:
  assumes p: "p < n" and f: "\<And>l q. q < n \<Longrightarrow> length (f l q) = BLOCK_LEN"
    and nonce: "\<And>l. length (nonce l) = NONCEBYTES"
    and cipher: "\<And>l. length (cipher l) = CIPHERTEXT_LEN"
  shows "apply_stores (block_mem n f) (rekey_stores p nonce cipher) =
    Inr (block_mem n (\<lambda>l. (f l)(p := nonce l @ cipher l)))"
proof -
  have all: "l \<in> set [LA, LB, LC, LD]" for l by (cases l) simp_all
  let ?f = "\<lambda>l. (f l)(p := overwrite (f l p) 0 (nonce l))"
  have 1: "apply_stores (block_mem n f)
      (map (\<lambda>l. (l, BLOCK_LEN * p + 0, nonce l)) [LA, LB, LC, LD]) = Inr (block_mem n ?f)"
    by (subst apply_stores_lanes [OF p f]) (use all in \<open>simp_all add: nonce BLOCK_LEN_def\<close>)
  have "length (?f l q) = BLOCK_LEN" if "q < n" for l q
    using f p nonce that by (simp add: BLOCK_LEN_def)
  then have 2: "apply_stores (block_mem n ?f)
      (map (\<lambda>l. (l, BLOCK_LEN * p + NONCEBYTES, cipher l)) [LA, LB, LC, LD]) =
      Inr (block_mem n (\<lambda>l. (?f l)(p := overwrite (?f l p) NONCEBYTES (cipher l))))"
    by (subst apply_stores_lanes [OF p]) (use all in \<open>simp_all add: cipher BLOCK_LEN_def\<close>)
  have 3: "overwrite (overwrite (f l p) 0 (nonce l)) NONCEBYTES (cipher l) = nonce l @ cipher l" for l
    using f [OF p, of l] by (simp add: overwrite_def nonce cipher BLOCK_LEN_def)
  show ?thesis
    unfolding rekey_stores_def apply_stores_append 1 [unfolded add_0_right] bind_res_simps 2
      fun_upd_same fun_upd_upd 3 ..
qed

lemma apply_create_stores:
  assumes p: "p < n"
    and f: "\<And>l q. q < n \<Longrightarrow> length (f l q) = (if l = LA then 1 + KEYBYTES else 0)"
    and d: "length d = KEYBYTES"
  shows "apply_stores (block_mem n f)
      [(LA, (1 + KEYBYTES) * p, [h]), (LA, (1 + KEYBYTES) * p + 1, d)] =
    Inr (block_mem n (\<lambda>l. (f l)(p := (if l = LA then h # d else []))))"
proof -
  let ?w = "\<lambda>l. if l = LA then 1 + KEYBYTES else 0"
  let ?f = "f(LA := (f LA)(p := overwrite (f LA p) 0 [h]))"
  have "apply_store (block_mem n f) (LA, ?w LA * p + 0, [h]) = Inr (block_mem n ?f)"
    by (intro apply_store_block [OF p]) (simp_all add: f)
  moreover have "apply_store (block_mem n ?f) (LA, ?w LA * p + 1, d) =
      Inr (block_mem n (?f(LA := (?f LA)(p := overwrite (?f LA p) 1 d))))"
    by (intro apply_store_block [OF p]) (simp_all add: f p d)
  moreover have "overwrite (overwrite (f LA p) 0 [h]) 1 d = h # d"
    using f [OF p, of LA] d by (simp add: overwrite_def)
  moreover have "f l = (f l)(p := [])" if "l \<noteq> LA" for l
    using f [OF p, of l] that by (simp add: fun_eq_iff)
  then have "f(LA := (f LA)(p := h # d)) = (\<lambda>l. (f l)(p := (if l = LA then h # d else [])))"
    by (simp add: fun_eq_iff)
  ultimately show ?thesis by simp
qed

section \<open>The phases\<close>

text \<open>
  A phase whose task \<open>k\<close> runs the iterations of part \<open>k\<close> runs, one task after the other,
  the iterations of all positions.
\<close>

lemma concat_tasks:
  assumes "0 < t"
  shows "concat (map (\<lambda>k. concat (map g [4 * part_start v t k..<4 * part_limit v t k])) [0..<t]) =
    concat (map g [0..<4 * v])"
proof -
  have "map (\<lambda>k. concat (map g [4 * part_start v t k..<4 * part_limit v t k])) [0..<t] =
    map (\<lambda>xs. concat (map g xs))
      (map (\<lambda>k. [4 * part_start v t k..<4 * part_limit v t k]) [0..<t])"
    by simp
  then show ?thesis
    by (simp only: concat_map_concat concat_positions [OF assms])
qed

definition pad :: "bytes \<Rightarrow> bytes" where
  "pad v = v @ replicate (VALUE_SIZE - length v) 32"

lemma padToLen_pad: "length v \<le> VALUE_SIZE \<Longrightarrow> padToLen v VALUE_SIZE = Inr (pad v)"
  unfolding pad_def by (rule padToLen_fits) (simp_all add: VALUE_SIZE_def)

lemma length_pad: "length v \<le> VALUE_SIZE \<Longrightarrow> length (pad v) = VALUE_SIZE"
  by (simp add: pad_def)

lemma padToLen_Inr_length: "padToLen v VALUE_SIZE = Inr pv \<Longrightarrow> length v < 2 ^ 62 \<Longrightarrow>
    length v \<le> VALUE_SIZE \<and> pv = pad v"
  using padToLen_too_long [of VALUE_SIZE v] padToLen_pad [of v]
  by (cases "length v \<le> VALUE_SIZE") simp_all

definition create_stores :: "sodium \<Rightarrow> bytes \<Rightarrow> bytes \<Rightarrow> nat \<Rightarrow> store list" where
  "create_stores S pv mk p =
    [(LA, (1 + KEYBYTES) * p, [aux S mk p XOR pair pv p]),
     (LA, (1 + KEYBYTES) * p + 1, sub S mk (5 * p + 1 + unat (pair pv p)))]"

lemma pair_pos: "j < 4 \<Longrightarrow> pair v (4 * i + j) = getBits (v ! i) (2 * j)"
  by (simp add: pair_def)

lemma createEntryParallel_eq:
  assumes "length pv = VALUE_SIZE" and "length mk = KEYBYTES"
  shows "createEntryParallel S part pv mk = Inr (concat (map (create_stores S pv mk)
    [4 * part_start VALUE_SIZE PROXY_NUM_THREADS part..<4 * part_limit VALUE_SIZE PROXY_NUM_THREADS part]))"
proof -
  let ?start = "part_start VALUE_SIZE PROXY_NUM_THREADS part"
  have "part * part_size VALUE_SIZE PROXY_NUM_THREADS * 4 * (1 + KEYBYTES) =
      (1 + KEYBYTES) * (4 * ?start)"
    by (simp add: part_start_def)
  moreover have "label_loop (create_body S pv mk) (1 + KEYBYTES) ((1 + KEYBYTES) * (4 * ?start))
      (List.product [?start..<part_limit VALUE_SIZE PROXY_NUM_THREADS part] [0..<4]) =
      Inr (concat (map (create_stores S pv mk)
        [4 * ?start..<4 * part_limit VALUE_SIZE PROXY_NUM_THREADS part]))"
  proof (rule label_loop_range)
    fix i j :: nat
    assume "i < part_limit VALUE_SIZE PROXY_NUM_THREADS part" and j: "j < 4"
    then have "i < VALUE_SIZE" using part_limit_le less_le_trans by blast
    then have "read_at pv i 1 = Inr [pv ! i]"
      using assms(1) by (simp add: read_at_def take_Suc_conv_app_nth Cons_nth_drop_Suc [symmetric])
    with j show "create_body S pv mk ((1 + KEYBYTES) * (4 * i + j)) i j =
        Inr (create_stores S pv mk (4 * i + j))"
      by (simp add: create_body_def create_stores_def derive_eq [OF assms(2)] pair_pos aux_def)
  qed
  ultimately show ?thesis by (simp add: createEntryParallel_def)
qed

text \<open>The buffers of the CREATE entry: lane A holds the label of every position.\<close>

definition create_lanes :: "sodium \<Rightarrow> bytes \<Rightarrow> bytes \<Rightarrow> lane \<Rightarrow> nat \<Rightarrow> bytes" where
  "create_lanes S pv mk l p = (if l = LA then label S mk p (pair pv p) else [])"

lemma create_init_blocks:
  "create_init = block_mem POSITIONS (\<lambda>l p. if l = LA then replicate (1 + KEYBYTES) 0 else [])"
proof
  fix l
  have "VALUE_SIZE * 4 * (1 + KEYBYTES) = (1 + KEYBYTES) * POSITIONS"
    by (simp add: POSITIONS_def)
  then show "create_init l =
      block_mem POSITIONS (\<lambda>l p. if l = LA then replicate (1 + KEYBYTES) 0 else []) l"
    by (simp only: create_init_def block_mem_def replicate_blocks) simp
qed

lemma create_phase_result:
  assumes "sodium_ok S"
  shows "apply_stores create_init (concat (map (create_stores S pv mk) [0..<POSITIONS])) =
    Inr (block_mem POSITIONS (create_lanes S pv mk))"
proof -
  let ?f = "\<lambda>l p. if l = LA then replicate (1 + KEYBYTES) 0 else []"
  have "apply_stores (block_mem POSITIONS ?f) (concat (map (create_stores S pv mk) [0..<POSITIONS])) =
    Inr (block_mem POSITIONS (\<lambda>l q. if q \<in> set [0..<POSITIONS] then create_lanes S pv mk l q else ?f l q))"
  proof (rule apply_block_iterations [where w = "\<lambda>l. if l = LA then 1 + KEYBYTES else 0"])
    fix p f
    assume p: "p \<in> set [0..<POSITIONS]"
      and f: "\<And>l q. q < POSITIONS \<Longrightarrow> length (f l q :: bytes) = (if l = LA then 1 + KEYBYTES else 0)"
    from p have "p < POSITIONS" by simp
    then show "apply_stores (block_mem POSITIONS f) (create_stores S pv mk p) =
        Inr (block_mem POSITIONS (\<lambda>l. (f l)(p := create_lanes S pv mk l p)))"
      unfolding create_stores_def create_lanes_def label_def
      by (rule apply_create_stores) (simp_all add: f assms)
  qed (simp_all add: create_lanes_def length_label assms)
  also have "block_mem POSITIONS (\<lambda>l q. if q \<in> set [0..<POSITIONS] then create_lanes S pv mk l q else ?f l q) =
      block_mem POSITIONS (create_lanes S pv mk)"
    unfolding block_mem_def by (rule ext) (rule blocks_cong, simp)
  finally show ?thesis unfolding create_init_blocks .
qed

theorem constructCreateEntry_ok:
  assumes "sodium_ok S" and "fresh_ok F" and "length v \<le> VALUE_SIZE"
  shows "constructCreateEntry S F key v st =
    (Inr (entry_of key (block_mem POSITIONS (create_lanes S (pad v) (keygen F)))),
     st\<lparr>masterKeys := (masterKeys st)(key \<mapsto> keygen F)\<rparr>)"
proof -
  have "map_res (\<lambda>part. createEntryParallel S part (pad v) (keygen F)) [0..<PROXY_NUM_THREADS] =
      Inr (map (\<lambda>k. concat (map (create_stores S (pad v) (keygen F))
        [4 * part_start VALUE_SIZE PROXY_NUM_THREADS k..<4 * part_limit VALUE_SIZE PROXY_NUM_THREADS k]))
        [0..<PROXY_NUM_THREADS])"
    by (rule map_res_Inr) (rule createEntryParallel_eq [OF length_pad [OF assms(3)] length_keygen [OF assms(2)]])
  moreover have "0 < PROXY_NUM_THREADS" by (simp add: PROXY_NUM_THREADS_def)
  ultimately show ?thesis
    using create_phase_result [OF assms(1), of "pad v" "keygen F"]
    by (simp add: constructCreateEntry_def padToLen_pad [OF assms(3)] Let_def concat_tasks
        POSITIONS_def mult.commute)
qed

section \<open>GET and PUT entries\<close>

text \<open>
  The plaintext of lane \<open>l\<close> at position \<open>p\<close>: for GET the new label of the pair of bits that
  lane stands for, for PUT the new label of the new value's pair.
\<close>

definition lane_bits :: "sodium \<Rightarrow> bytes \<Rightarrow> lane \<Rightarrow> nat \<Rightarrow> byte" where
  "lane_bits S old l p = lane_code l XOR aux S old p"

definition get_plain :: "sodium \<Rightarrow> bytes \<Rightarrow> bytes \<Rightarrow> lane \<Rightarrow> nat \<Rightarrow> bytes" where
  "get_plain S old new l p = label S new p (lane_bits S old l p)"

definition put_plain :: "sodium \<Rightarrow> bytes \<Rightarrow> bytes \<Rightarrow> lane \<Rightarrow> nat \<Rightarrow> bytes" where
  "put_plain S pv new l p = label S new p (pair pv p)"

definition rekey_cipher :: "(lane \<Rightarrow> nat \<Rightarrow> bytes) \<Rightarrow> sodium \<Rightarrow> fresh \<Rightarrow> bytes \<Rightarrow> lane \<Rightarrow> nat \<Rightarrow> bytes" where
  "rekey_cipher plain S F old l p = secretbox_easy S (plain l p) (nonces F (p div 4) (p mod 4) l)
     (sub S old (5 * p + 1 + unat (lane_bits S old l p)))"

definition rekey_lanes :: "(lane \<Rightarrow> nat \<Rightarrow> bytes) \<Rightarrow> sodium \<Rightarrow> fresh \<Rightarrow> bytes \<Rightarrow> lane \<Rightarrow> nat \<Rightarrow> bytes" where
  "rekey_lanes plain S F old l p =
     nonces F (p div 4) (p mod 4) l @ rekey_cipher plain S F old l p"

definition position_stores :: "(lane \<Rightarrow> nat \<Rightarrow> bytes) \<Rightarrow> sodium \<Rightarrow> fresh \<Rightarrow> bytes \<Rightarrow> nat \<Rightarrow> store list" where
  "position_stores plain S F old p = rekey_stores p (nonces F (p div 4) (p mod 4))
     (\<lambda>l. rekey_cipher plain S F old l p)"

lemma lane_bits_cases: "lane_bits S old l p \<in> {0, 1, 2, 3}"
  unfolding lane_bits_def by (rule xor_cases [OF lane_code_cases aux_cases])

lemma length_get_plain: "sodium_ok S \<Longrightarrow> length (get_plain S old new l p) = 1 + KEYBYTES"
  by (simp add: get_plain_def length_label)

lemma length_put_plain: "sodium_ok S \<Longrightarrow> length (put_plain S pv new l p) = 1 + KEYBYTES"
  by (simp add: put_plain_def length_label)

lemma new_label_eq:
  assumes "b \<in> {0, 1, 2, 3}" and "old \<in> {0, 1, 2, 3}"
  shows "newLabel_headers (hd (sub S new (5 * p))) old ! unat b #
      map (\<lambda>k. sub S new (5 * p + k)) [1, 2, 3, 4] ! unat b = label S new p b"
  unfolding newLabel_headers_nth [OF assms(2,1)] subkeys_nth [OF assms(1)] label_def aux_def ..

lemma get_body_eq:
  assumes "length old = KEYBYTES" and "fresh_ok F" and "j < 4"
  shows "get_body S old F (BLOCK_LEN * (4 * i + j)) i j =
    Inr (position_stores (get_plain S old (keygen F)) S F old (4 * i + j))"
  unfolding get_body_def rekey_body_eq [OF assms] position_stores_def rekey_cipher_def get_plain_def
    new_label_eq [OF xor_cases [OF lane_code_cases aux_cases] aux_cases] lane_bits_def
  using assms(3) by simp

lemma put_body_eq:
  assumes "length old = KEYBYTES" and "fresh_ok F" and "j < 4" and "i < length pv"
  shows "put_body S pv old F (BLOCK_LEN * (4 * i + j)) i j =
    Inr (position_stores (put_plain S pv (keygen F)) S F old (4 * i + j))"
  unfolding put_body_def Let_def rekey_body_eq [OF assms(1-3)] position_stores_def rekey_cipher_def
    put_plain_def new_label_eq [OF getBits_cases aux_cases] lane_bits_def
  using assms(3,4) by (simp add: pair_pos)

lemma rekey_pointer: "part_start v t k * 4 * (CIPHERTEXT_LEN + NONCEBYTES) = BLOCK_LEN * (4 * part_start v t k)"
  by (simp add: BLOCK_LEN_def)

lemma getEntryParallel_eq:
  assumes "length old = KEYBYTES" and "fresh_ok F"
  shows "getEntryParallel S part old F = Inr (concat (map (position_stores (get_plain S old (keygen F)) S F old)
    [4 * part_start VALUE_SIZE PROXY_NUM_THREADS part..<4 * part_limit VALUE_SIZE PROXY_NUM_THREADS part]))"
  unfolding getEntryParallel_def Let_def rekey_pointer
  by (rule label_loop_range) (rule get_body_eq [OF assms])

lemma putEntryParallel_eq:
  assumes "length old = KEYBYTES" and "fresh_ok F" and "length pv = VALUE_SIZE"
  shows "putEntryParallel S part pv old F = Inr (concat (map (position_stores (put_plain S pv (keygen F)) S F old)
    [4 * part_start VALUE_SIZE PROXY_NUM_THREADS part..<4 * part_limit VALUE_SIZE PROXY_NUM_THREADS part]))"
  unfolding putEntryParallel_def Let_def rekey_pointer
proof (rule label_loop_range)
  fix i j :: nat
  assume "i < part_limit VALUE_SIZE PROXY_NUM_THREADS part" and "j < 4"
  moreover from this(1) have "i < length pv"
    unfolding assms(3) by (rule less_le_trans [OF _ part_limit_le])
  ultimately show "put_body S pv old F (BLOCK_LEN * (4 * i + j)) i j =
      Inr (position_stores (put_plain S pv (keygen F)) S F old (4 * i + j))"
    by (intro put_body_eq [OF assms(1,2)])
qed

lemma rekey_init_blocks: "rekey_init = block_mem POSITIONS (\<lambda>l _. replicate BLOCK_LEN 0)"
proof
  fix l
  have "VALUE_SIZE * 4 * (NONCEBYTES + CIPHERTEXT_LEN) = BLOCK_LEN * POSITIONS"
    by (simp add: POSITIONS_def BLOCK_LEN_def)
  then show "rekey_init l = block_mem POSITIONS (\<lambda>l _. replicate BLOCK_LEN 0) l"
    by (simp only: rekey_init_def block_mem_def replicate_blocks)
qed

lemma length_rekey_cipher:
  "sodium_ok S \<Longrightarrow> length (plain l p) = 1 + KEYBYTES \<Longrightarrow>
    length (rekey_cipher plain S F old l p) = CIPHERTEXT_LEN"
  by (simp add: rekey_cipher_def CIPHERTEXT_LEN_def)

lemma length_rekey_lanes:
  "sodium_ok S \<Longrightarrow> fresh_ok F \<Longrightarrow> length (plain l p) = 1 + KEYBYTES \<Longrightarrow>
    length (rekey_lanes plain S F old l p) = BLOCK_LEN"
  by (simp add: rekey_lanes_def length_rekey_cipher length_nonce BLOCK_LEN_def)

lemma rekey_phase_result:
  assumes S: "sodium_ok S" and F: "fresh_ok F" and plain: "\<And>l p. length (plain l p) = 1 + KEYBYTES"
  shows "apply_stores rekey_init (concat (map (position_stores plain S F old) [0..<POSITIONS])) =
    Inr (block_mem POSITIONS (rekey_lanes plain S F old))"
proof -
  let ?f = "\<lambda>l _. replicate BLOCK_LEN 0"
  have "apply_stores (block_mem POSITIONS ?f) (concat (map (position_stores plain S F old) [0..<POSITIONS])) =
    Inr (block_mem POSITIONS (\<lambda>l q. if q \<in> set [0..<POSITIONS] then rekey_lanes plain S F old l q else ?f l q))"
  proof (rule apply_block_iterations [where w = "\<lambda>l. BLOCK_LEN"])
    fix p and f :: "lane \<Rightarrow> nat \<Rightarrow> bytes"
    assume p: "p \<in> set [0..<POSITIONS]"
      and f: "\<And>l q. q < POSITIONS \<Longrightarrow> length (f l q) = BLOCK_LEN"
    from p have "p < POSITIONS" by simp
    then show "apply_stores (block_mem POSITIONS f) (position_stores plain S F old p) =
        Inr (block_mem POSITIONS (\<lambda>l. (f l)(p := rekey_lanes plain S F old l p)))"
      unfolding position_stores_def rekey_lanes_def
      by (rule apply_rekey_stores) (simp_all add: f length_nonce [OF F] length_rekey_cipher [OF S] plain)
  qed (simp_all add: length_rekey_lanes [OF S F] plain)
  also have "block_mem POSITIONS (\<lambda>l q. if q \<in> set [0..<POSITIONS] then rekey_lanes plain S F old l q else ?f l q) =
      block_mem POSITIONS (rekey_lanes plain S F old)"
    unfolding block_mem_def by (rule ext) (rule blocks_cong, simp)
  finally show ?thesis unfolding rekey_init_blocks .
qed

theorem constructGetEntry_ok:
  assumes "sodium_ok S" and "fresh_ok F"
    and key: "masterKeys st key = Some old" and "length old = KEYBYTES"
  shows "constructGetEntry S F key st =
    (Inr (entry_of key (block_mem POSITIONS (rekey_lanes (get_plain S old (keygen F)) S F old))),
     st\<lparr>masterKeys := (masterKeys st)(key \<mapsto> keygen F)\<rparr>)"
proof -
  have "map_res (\<lambda>part. getEntryParallel S part old F) [0..<PROXY_NUM_THREADS] =
      Inr (map (\<lambda>k. concat (map (position_stores (get_plain S old (keygen F)) S F old)
        [4 * part_start VALUE_SIZE PROXY_NUM_THREADS k..<4 * part_limit VALUE_SIZE PROXY_NUM_THREADS k]))
        [0..<PROXY_NUM_THREADS])"
    by (rule map_res_Inr) (rule getEntryParallel_eq [OF assms(4,2)])
  moreover have "0 < PROXY_NUM_THREADS" by (simp add: PROXY_NUM_THREADS_def)
  ultimately show ?thesis
    using rekey_phase_result [OF assms(1,2), of "get_plain S old (keygen F)" old]
    by (simp add: constructGetEntry_def concat_tasks POSITIONS_def mult.commute key
        length_get_plain [OF assms(1)])
qed

theorem constructPutEntry_ok:
  assumes "sodium_ok S" and "fresh_ok F" and len: "length v \<le> VALUE_SIZE"
    and key: "masterKeys st key = Some old" and "length old = KEYBYTES"
  shows "constructPutEntry S F key v st =
    (Inr (entry_of key (block_mem POSITIONS (rekey_lanes (put_plain S (pad v) (keygen F)) S F old))),
     st\<lparr>masterKeys := (masterKeys st)(key \<mapsto> keygen F)\<rparr>)"
proof -
  have "map_res (\<lambda>part. putEntryParallel S part (pad v) old F) [0..<PROXY_NUM_THREADS] =
      Inr (map (\<lambda>k. concat (map (position_stores (put_plain S (pad v) (keygen F)) S F old)
        [4 * part_start VALUE_SIZE PROXY_NUM_THREADS k..<4 * part_limit VALUE_SIZE PROXY_NUM_THREADS k]))
        [0..<PROXY_NUM_THREADS])"
    by (rule map_res_Inr) (rule putEntryParallel_eq [OF assms(5,2) length_pad [OF len]])
  moreover have "0 < PROXY_NUM_THREADS" by (simp add: PROXY_NUM_THREADS_def)
  ultimately show ?thesis
    using rekey_phase_result [OF assms(1,2), of "put_plain S (pad v) (keygen F)" old]
    by (simp add: constructPutEntry_def concat_tasks POSITIONS_def mult.commute key
        length_put_plain [OF assms(1)] padToLen_pad [OF len])
qed

section \<open>The schedule of the threads does not matter\<close>

definition tasks_of :: "store list list res \<Rightarrow> store list list" where
  "tasks_of r = (case r of Inl _ \<Rightarrow> [] | Inr ts \<Rightarrow> ts)"

definition create_tasks :: "sodium \<times> bytes \<times> bytes \<Rightarrow> store list list" where
  "create_tasks = (\<lambda>(S, pv, mk). tasks_of
     (map_res (\<lambda>part. createEntryParallel S part pv mk) [0..<PROXY_NUM_THREADS]))"

definition create_pre :: "sodium \<times> bytes \<times> bytes \<Rightarrow> bool" where
  "create_pre = (\<lambda>(S, pv, mk). sodium_ok S \<and> length pv = VALUE_SIZE \<and> length mk = KEYBYTES)"

definition get_tasks :: "sodium \<times> fresh \<times> bytes \<Rightarrow> store list list" where
  "get_tasks = (\<lambda>(S, F, old). tasks_of
     (map_res (\<lambda>part. getEntryParallel S part old F) [0..<PROXY_NUM_THREADS]))"

definition get_pre :: "sodium \<times> fresh \<times> bytes \<Rightarrow> bool" where
  "get_pre = (\<lambda>(S, F, old). sodium_ok S \<and> fresh_ok F \<and> length old = KEYBYTES)"

definition put_tasks :: "sodium \<times> fresh \<times> bytes \<times> bytes \<Rightarrow> store list list" where
  "put_tasks = (\<lambda>(S, F, pv, old). tasks_of
     (map_res (\<lambda>part. putEntryParallel S part pv old F) [0..<PROXY_NUM_THREADS]))"

definition put_pre :: "sodium \<times> fresh \<times> bytes \<times> bytes \<Rightarrow> bool" where
  "put_pre = (\<lambda>(S, F, pv, old).
     sodium_ok S \<and> fresh_ok F \<and> length pv = VALUE_SIZE \<and> length old = KEYBYTES)"

lemma in_tasks_of_positions:
  assumes "\<And>part. task part = Inr (concat (map g [4 * part_start VALUE_SIZE t part..<4 * part_limit VALUE_SIZE t part]))"
    and "ts \<in> set (tasks_of (map_res task parts))" and "s \<in> set ts"
  shows "\<exists>p<POSITIONS. s \<in> set (g p)"
proof -
  have "map_res task parts = Inr (map (\<lambda>part. concat (map g
      [4 * part_start VALUE_SIZE t part..<4 * part_limit VALUE_SIZE t part])) parts)"
    by (rule map_res_Inr) (rule assms(1))
  with assms(2,3) obtain part p where "p < 4 * part_limit VALUE_SIZE t part" "s \<in> set (g p)"
    by (auto simp: tasks_of_def)
  moreover have "4 * part_limit VALUE_SIZE t part \<le> POSITIONS"
    using part_limit_le [of VALUE_SIZE t part] by (simp add: POSITIONS_def)
  ultimately show ?thesis using less_le_trans by blast
qed

lemma rekey_stores_inside:
  assumes "\<And>l. length (nonce l) = NONCEBYTES" and "\<And>l. length (cipher l) = CIPHERTEXT_LEN"
    and "s \<in> set (rekey_stores p nonce cipher)"
  shows "block_store (\<lambda>_. BLOCK_LEN) p s"
  using assms(3) by (auto simp: rekey_stores_def assms(1,2) BLOCK_LEN_def)

lemma rekey_stores_agree:
  assumes "\<And>l. length (nonce l) = NONCEBYTES"
    and "s \<in> set (rekey_stores p nonce cipher)" and "s' \<in> set (rekey_stores p nonce cipher)"
  shows "agree s s'"
  using assms(2,3) by (auto simp: rekey_stores_def agree_def assms(1))

lemma position_stores_inside:
  "s \<in> set (position_stores plain S F old p) \<Longrightarrow> sodium_ok S \<Longrightarrow> fresh_ok F \<Longrightarrow>
    (\<And>l p. length (plain l p) = 1 + KEYBYTES) \<Longrightarrow> block_store (\<lambda>_. BLOCK_LEN) p s"
  unfolding position_stores_def
  by (erule rekey_stores_inside [rotated 2]) (simp_all add: length_nonce length_rekey_cipher)

lemma position_stores_agree:
  "s \<in> set (position_stores plain S F old p) \<Longrightarrow> s' \<in> set (position_stores plain S F old p) \<Longrightarrow>
    fresh_ok F \<Longrightarrow> agree s s'"
  unfolding position_stores_def by (erule rekey_stores_agree [rotated]) (simp_all add: length_nonce)

interpretation create_phase: parallel_phase create_pre create_tasks "\<lambda>_. create_init"
proof (rule parallel_phase_blocksI [where n = POSITIONS and w = "\<lambda>l. if l = LA then 1 + KEYBYTES else 0"
      and g = "\<lambda>(S, pv, mk). create_stores S pv mk"])
  fix c :: "sodium \<times> bytes \<times> bytes" and t s
  obtain S pv mk where c: "c = (S, pv, mk)" by (cases c)
  assume "create_pre c" and "t \<in> set (create_tasks c)" and "s \<in> set t"
  with in_tasks_of_positions [of "\<lambda>part. createEntryParallel S part pv mk" "create_stores S pv mk"
      PROXY_NUM_THREADS t "[0..<PROXY_NUM_THREADS]" s]
  show "\<exists>p<POSITIONS. s \<in> set ((case c of (S, pv, mk) \<Rightarrow> create_stores S pv mk) p)"
    by (simp add: c create_pre_def create_tasks_def createEntryParallel_eq)
next
  fix c :: "sodium \<times> bytes \<times> bytes" and p s
  assume "create_pre c" and "s \<in> set ((case c of (S, pv, mk) \<Rightarrow> create_stores S pv mk) p)"
  then show "block_store (\<lambda>l. if l = LA then 1 + KEYBYTES else 0) p s"
    by (auto simp: create_pre_def create_stores_def)
next
  fix c :: "sodium \<times> bytes \<times> bytes" and p s s'
  assume "create_pre c" and "s \<in> set ((case c of (S, pv, mk) \<Rightarrow> create_stores S pv mk) p)"
    and "s' \<in> set ((case c of (S, pv, mk) \<Rightarrow> create_stores S pv mk) p)"
  then show "agree s s'"
    by (auto simp: create_pre_def create_stores_def agree_def)
qed (simp add: create_init_def POSITIONS_def)

interpretation get_phase: parallel_phase get_pre get_tasks "\<lambda>_. rekey_init"
proof (rule parallel_phase_blocksI [where n = POSITIONS and w = "\<lambda>_. BLOCK_LEN"
      and g = "\<lambda>(S, F, old). position_stores (get_plain S old (keygen F)) S F old"])
  fix c :: "sodium \<times> fresh \<times> bytes" and t s
  obtain S F old where c: "c = (S, F, old)" by (cases c)
  assume "get_pre c" and "t \<in> set (get_tasks c)" and "s \<in> set t"
  with in_tasks_of_positions [of "\<lambda>part. getEntryParallel S part old F"
      "position_stores (get_plain S old (keygen F)) S F old" PROXY_NUM_THREADS t "[0..<PROXY_NUM_THREADS]" s]
  show "\<exists>p<POSITIONS. s \<in> set ((case c of (S, F, old) \<Rightarrow>
      position_stores (get_plain S old (keygen F)) S F old) p)"
    by (simp add: c get_pre_def get_tasks_def getEntryParallel_eq)
next
  fix c :: "sodium \<times> fresh \<times> bytes" and p s
  assume "get_pre c" and "s \<in> set ((case c of (S, F, old) \<Rightarrow>
      position_stores (get_plain S old (keygen F)) S F old) p)"
  then show "block_store (\<lambda>_. BLOCK_LEN) p s"
    by (auto simp: get_pre_def length_get_plain elim!: position_stores_inside)
next
  fix c :: "sodium \<times> fresh \<times> bytes" and p s s'
  assume "get_pre c" and "s \<in> set ((case c of (S, F, old) \<Rightarrow>
      position_stores (get_plain S old (keygen F)) S F old) p)"
    and "s' \<in> set ((case c of (S, F, old) \<Rightarrow>
      position_stores (get_plain S old (keygen F)) S F old) p)"
  then show "agree s s'"
    by (auto simp: get_pre_def elim!: position_stores_agree)
qed (simp add: rekey_init_def POSITIONS_def BLOCK_LEN_def)

interpretation put_phase: parallel_phase put_pre put_tasks "\<lambda>_. rekey_init"
proof (rule parallel_phase_blocksI [where n = POSITIONS and w = "\<lambda>_. BLOCK_LEN"
      and g = "\<lambda>(S, F, pv, old). position_stores (put_plain S pv (keygen F)) S F old"])
  fix c :: "sodium \<times> fresh \<times> bytes \<times> bytes" and t s
  obtain S F pv old where c: "c = (S, F, pv, old)" by (cases c)
  assume "put_pre c" and "t \<in> set (put_tasks c)" and "s \<in> set t"
  with in_tasks_of_positions [of "\<lambda>part. putEntryParallel S part pv old F"
      "position_stores (put_plain S pv (keygen F)) S F old" PROXY_NUM_THREADS t "[0..<PROXY_NUM_THREADS]" s]
  show "\<exists>p<POSITIONS. s \<in> set ((case c of (S, F, pv, old) \<Rightarrow>
      position_stores (put_plain S pv (keygen F)) S F old) p)"
    by (simp add: c put_pre_def put_tasks_def putEntryParallel_eq)
next
  fix c :: "sodium \<times> fresh \<times> bytes \<times> bytes" and p s
  assume "put_pre c" and "s \<in> set ((case c of (S, F, pv, old) \<Rightarrow>
      position_stores (put_plain S pv (keygen F)) S F old) p)"
  then show "block_store (\<lambda>_. BLOCK_LEN) p s"
    by (auto simp: put_pre_def length_put_plain elim!: position_stores_inside)
next
  fix c :: "sodium \<times> fresh \<times> bytes \<times> bytes" and p s s'
  assume "put_pre c" and "s \<in> set ((case c of (S, F, pv, old) \<Rightarrow>
      position_stores (put_plain S pv (keygen F)) S F old) p)"
    and "s' \<in> set ((case c of (S, F, pv, old) \<Rightarrow>
      position_stores (put_plain S pv (keygen F)) S F old) p)"
  then show "agree s s'"
    by (auto simp: put_pre_def elim!: position_stores_agree)
qed (simp add: rekey_init_def POSITIONS_def BLOCK_LEN_def)

end
