(* ===== verification/LabelServer.thy ===== *)
theory LabelServer
  imports LabelTables
begin

text \<open>
  \<open>ortoa-lbl/server.cpp\<close>: the handler of the \<open>KV_RPC\<close> service.  RocksDB is a parameter, the
  record \<open>kvs\<close>; what the handler relies on is \<open>kvs_ok\<close>.  \<open>decryptPortion\<close> is the body of
  the parallel phase of \<open>access\<close>; a failed decryption ends the server process.
\<close>

section \<open>The handler\<close>

record 'd kvs =
  kv_get :: "'d \<Rightarrow> string \<Rightarrow> bytes option"
  kv_put :: "'d \<Rightarrow> string \<Rightarrow> bytes \<Rightarrow> 'd"

definition kvs_ok :: "'d kvs \<Rightarrow> bool" where
  "kvs_ok K \<longleftrightarrow> (\<forall>d k v k'. kv_get K (kv_put K d k v) k' = (if k' = k then Some v else kv_get K d k'))"

record 'd server =
  db :: 'd
  running :: bool
  access_count :: "64 word"

definition BLOCK_SIZE :: nat where [layout]: "BLOCK_SIZE = VALUE_SIZE * 4 * (1 + KEYBYTES)"

definition kv_create :: "'d kvs \<Rightarrow> entry \<Rightarrow> 'd server \<Rightarrow> 'd server" where
  "kv_create K e sv =
    (if running sv then sv\<lparr>db := kv_put K (db sv) (keyName e) (encryptedLabelsA e)\<rparr> else sv)"

definition lane_at :: "byte \<Rightarrow> lane" where
  "lane_at auxBits = (if auxBits = 0 then LA else if auxBits = 1 then LB
     else if auxBits = 2 then LC else LD)"

text \<open>
  The nested loops of \<open>decryptPortion\<close> use their counters only to count: \<open>n\<close> is the number of
  iterations left.  The three groups of pointers advance by one label and one ciphertext block.
\<close>

fun decrypt_steps :: "sodium \<Rightarrow> (lane \<Rightarrow> bytes) \<Rightarrow> bytes \<Rightarrow> nat \<Rightarrow> nat \<Rightarrow> nat \<Rightarrow> nat \<Rightarrow> store list res" where
  "decrypt_steps S labelList oldKeys newKey oldKey lanePtr 0 = Inr []"
| "decrypt_steps S labelList oldKeys newKey oldKey lanePtr (Suc n) =
     bind_res (read_at oldKeys oldKey 1) (\<lambda>h.
     let l = lane_at (hd h AND 3) in
     bind_res (read_at (labelList l) lanePtr NONCEBYTES) (\<lambda>nonce.
     bind_res (read_at (labelList l) (lanePtr + NONCEBYTES) CIPHERTEXT_LEN) (\<lambda>ciphertext.
     bind_res (read_at oldKeys (oldKey + 1) KEYBYTES) (\<lambda>k.
     case secretbox_open_easy S ciphertext nonce k of
       None \<Rightarrow> Inl ProcessExit
     | Some m \<Rightarrow>
         bind_res (decrypt_steps S labelList oldKeys (newKey + (KEYBYTES + 1)) (oldKey + (KEYBYTES + 1))
             (lanePtr + (NONCEBYTES + CIPHERTEXT_LEN)) n) (\<lambda>rest.
           Inr ((LA, newKey, m) # rest))))))"

definition decryptPortion :: "sodium \<Rightarrow> nat \<Rightarrow> bytes \<Rightarrow> (lane \<Rightarrow> bytes) \<Rightarrow> store list res" where
  "decryptPortion S part oldKeys labelList =
    (let start = part_start VALUE_SIZE SERVER_NUM_THREADS part;
         limit = part_limit VALUE_SIZE SERVER_NUM_THREADS part
     in decrypt_steps S labelList oldKeys
          (start * (1 + KEYBYTES)) (start * (1 + KEYBYTES)) (start * (NONCEBYTES + CIPHERTEXT_LEN))
          ((limit - start) * 4))"

definition access_init :: mem where
  "access_init = (\<lambda>l. if l = LA then replicate BLOCK_SIZE 0 else [])"

definition kv_access :: "sodium \<Rightarrow> 'd kvs \<Rightarrow> entry \<Rightarrow> 'd server \<Rightarrow> bytes res \<times> 'd server" where
  "kv_access S K e sv =
    (if \<not> running sv then (Inl TransportError, sv) else
     let oldKeys = (case kv_get K (db sv) (keyName e) of None \<Rightarrow> [] | Some v \<Rightarrow> v) in
     case bind_res (map_res (\<lambda>part. decryptPortion S part oldKeys (lane_of e)) [0..<SERVER_NUM_THREADS])
            (\<lambda>tasks. apply_stores access_init (concat tasks)) of
       Inl er \<Rightarrow> if er = ProcessExit then (Inl TransportError, sv\<lparr>running := False\<rparr>) else (Inl er, sv)
     | Inr m \<Rightarrow> (Inr (m LA), sv\<lparr>access_count := access_count sv + 1,
                               db := kv_put K (db sv) (keyName e) (m LA)\<rparr>))"

section \<open>One decryption\<close>

definition decrypt_at :: "sodium \<Rightarrow> (lane \<Rightarrow> bytes) \<Rightarrow> bytes \<Rightarrow> nat \<Rightarrow> bytes res" where
  "decrypt_at S labelList oldKeys p =
     bind_res (read_at oldKeys ((1 + KEYBYTES) * p) 1) (\<lambda>h.
     let l = lane_at (hd h AND 3) in
     bind_res (read_at (labelList l) (BLOCK_LEN * p) NONCEBYTES) (\<lambda>nonce.
     bind_res (read_at (labelList l) (BLOCK_LEN * p + NONCEBYTES) CIPHERTEXT_LEN) (\<lambda>ciphertext.
     bind_res (read_at oldKeys ((1 + KEYBYTES) * p + 1) KEYBYTES) (\<lambda>k.
     case secretbox_open_easy S ciphertext nonce k of None \<Rightarrow> Inl ProcessExit | Some m \<Rightarrow> Inr m))))"

definition decrypt_store :: "sodium \<Rightarrow> (lane \<Rightarrow> bytes) \<Rightarrow> bytes \<Rightarrow> nat \<Rightarrow> store res" where
  "decrypt_store S labelList oldKeys p =
     bind_res (decrypt_at S labelList oldKeys p) (\<lambda>m. Inr (LA, (1 + KEYBYTES) * p, m))"

lemma bind_res_assoc: "bind_res (bind_res m f) g = bind_res m (\<lambda>x. bind_res (f x) g)"
  by (cases m) simp_all

lemma bind_res_cong: "(\<And>x. m = Inr x \<Longrightarrow> f x = g x) \<Longrightarrow> bind_res m f = bind_res m g"
  by (cases m) simp_all

lemma decrypt_steps_Suc:
  "decrypt_steps S labelList oldKeys ((1 + KEYBYTES) * s) ((1 + KEYBYTES) * s) (BLOCK_LEN * s) (Suc n) =
    bind_res (decrypt_store S labelList oldKeys s) (\<lambda>st.
    bind_res (decrypt_steps S labelList oldKeys ((1 + KEYBYTES) * Suc s) ((1 + KEYBYTES) * Suc s)
      (BLOCK_LEN * Suc s) n) (\<lambda>rest. Inr (st # rest)))"
proof -
  have next_ptr: "(1 + KEYBYTES) * s + (KEYBYTES + 1) = (1 + KEYBYTES) * Suc s"
    "BLOCK_LEN * s + (NONCEBYTES + CIPHERTEXT_LEN) = BLOCK_LEN * Suc s"
    by (simp_all add: BLOCK_LEN_def)
  show ?thesis
    unfolding decrypt_steps.simps next_ptr decrypt_store_def decrypt_at_def bind_res_assoc Let_def
    by (intro bind_res_cong) (simp split: option.split)
qed

lemma decrypt_steps_eq:
  "decrypt_steps S labelList oldKeys ((1 + KEYBYTES) * s) ((1 + KEYBYTES) * s) (BLOCK_LEN * s) n =
    map_res (decrypt_store S labelList oldKeys) [s..<s + n]"
proof (induction n arbitrary: s)
  case (Suc n)
  have "[s..<s + Suc n] = s # [Suc s..<Suc s + n]"
    by (simp add: upt_conv_Cons del: upt_Suc)
  then show ?case by (simp only: decrypt_steps_Suc Suc.IH map_res.simps)
qed simp

definition served :: "nat \<Rightarrow> nat list" where
  "served part = (let start = part_start VALUE_SIZE SERVER_NUM_THREADS part
     in [start..<start + (part_limit VALUE_SIZE SERVER_NUM_THREADS part - start) * 4])"

lemma decryptPortion_eq:
  "decryptPortion S part oldKeys labelList = map_res (decrypt_store S labelList oldKeys) (served part)"
  unfolding decryptPortion_def Let_def served_def decrypt_steps_eq [symmetric] BLOCK_LEN_def
  by (simp only: mult.commute)

text \<open>
  The positions the 64 tasks decrypt.  Each task starts at the label \<open>start\<close>, not \<open>4 * start\<close>,
  so the tasks overlap and the last ones stop short of the end of the block.
\<close>

definition SERVED :: nat where [layout]: "SERVED = 168"

lemma part_numbers:
  "part_start VALUE_SIZE SERVER_NUM_THREADS k = 3 * k"
  "part_limit VALUE_SIZE SERVER_NUM_THREADS k = min (3 * k + 3) 160"
  by (simp_all add: part_start_def part_limit_def part_size_def layout)

lemma in_served: "p \<in> set (served k) \<longleftrightarrow> 3 * k \<le> p \<and> p < 3 * k + (min (3 * k + 3) 160 - 3 * k) * 4"
  by (simp add: served_def part_numbers Let_def)

lemma set_served: "set (concat (map served [0..<SERVER_NUM_THREADS])) = {..<SERVED}"
proof (rule set_eqI, rule iffI)
  fix p
  assume "p \<in> set (concat (map served [0..<SERVER_NUM_THREADS]))"
  then obtain k where "p \<in> set (served k)" by auto
  then have k: "3 * k \<le> p" "p < 3 * k + (min (3 * k + 3) 160 - 3 * k) * 4"
    by (simp_all add: in_served)
  show "p \<in> {..<SERVED}"
  proof (cases "k \<le> 52")
    case True
    with k(2) show ?thesis by (simp add: SERVED_def min_def)
  next
    case False
    with k show ?thesis by (simp add: SERVED_def min_def split: if_splits)
  qed
next
  fix p
  assume "p \<in> {..<SERVED}"
  then have "p < 168" by (simp add: SERVED_def)
  then have "p \<in> set (served (min (p div 3) 52))" by (simp add: in_served min_def) presburger
  moreover have "min (p div 3) 52 < SERVER_NUM_THREADS" by (simp add: SERVER_NUM_THREADS_def)
  ultimately show "p \<in> set (concat (map served [0..<SERVER_NUM_THREADS]))" by auto
qed

section \<open>An access to a stored encoding\<close>

text \<open>
  The server's record of a key encodes the pairs \<open>bits\<close> under the master key \<open>mk\<close> when it has
  the length of a block and its first \<open>SERVED\<close> labels are the labels of those pairs.
\<close>

definition slot :: "bytes \<Rightarrow> nat \<Rightarrow> bytes" where
  "slot lab p = take (1 + KEYBYTES) (drop ((1 + KEYBYTES) * p) lab)"

definition encodes :: "sodium \<Rightarrow> bytes \<Rightarrow> (nat \<Rightarrow> byte) \<Rightarrow> bytes \<Rightarrow> bool" where
  "encodes S mk bits lab \<longleftrightarrow> length lab = BLOCK_SIZE \<and> (\<forall>p<SERVED. slot lab p = label S mk p (bits p))"

lemma BLOCK_SIZE_positions: "BLOCK_SIZE = (1 + KEYBYTES) * POSITIONS"
  by (simp add: BLOCK_SIZE_def POSITIONS_def)

lemma blocks_slot: "length lab = (1 + KEYBYTES) * n \<Longrightarrow> lab = blocks (slot lab) n"
proof (induction n arbitrary: lab)
  case (Suc n)
  let ?l = "take ((1 + KEYBYTES) * n) lab"
  from Suc.prems have "length ?l = (1 + KEYBYTES) * n" by simp
  then have "?l = blocks (slot ?l) n" by (rule Suc.IH)
  also have "\<dots> = blocks (slot lab) n"
  proof (rule blocks_cong)
    fix p assume "p < n"
    from block_end [OF this, of "1 + KEYBYTES"] show "slot ?l p = slot lab p"
      by (simp add: slot_def drop_take min_def)
  qed
  moreover have "drop ((1 + KEYBYTES) * n) lab = slot lab n"
    using Suc.prems by (simp add: slot_def)
  ultimately show ?case
    by (metis append_take_drop_id blocks_Suc)
qed simp

lemma length_slot: "length lab = (1 + KEYBYTES) * n \<Longrightarrow> p < n \<Longrightarrow> length (slot lab p) = 1 + KEYBYTES"
  using block_end [of p n "1 + KEYBYTES"] by (simp add: slot_def)

lemma slot_blocks:
  "p < n \<Longrightarrow> (\<And>q. q < n \<Longrightarrow> length (f q) = 1 + KEYBYTES) \<Longrightarrow> slot (blocks f n) p = f p"
  using slice_blocks [of p n f "1 + KEYBYTES", where o' = 0 and k = "1 + KEYBYTES"] by (simp add: slot_def)

lemma read_slot:
  assumes "length lab = BLOCK_SIZE" and "p < POSITIONS" and "o' + k \<le> 1 + KEYBYTES"
  shows "read_at lab ((1 + KEYBYTES) * p + o') k = Inr (take k (drop o' (slot lab p)))"
proof -
  have lab: "lab = blocks (slot lab) POSITIONS" "\<And>q. q < POSITIONS \<Longrightarrow> length (slot lab q) = 1 + KEYBYTES"
    using assms(1) blocks_slot length_slot by (simp_all add: BLOCK_SIZE_positions)
  show ?thesis
    by (subst lab(1)) (rule read_block [where f = "slot lab", OF assms(2) lab(2) assms(3)])
qed

lemma SERVED_le: "SERVED \<le> POSITIONS"
  by (simp add: layout)

lemma lane_code_at: "b \<in> {0, 1, 2, 3} \<Longrightarrow> lane_code (lane_at b) = b"
  by (auto simp: lane_at_def)

lemma lane_bits_at:
  assumes "b \<in> {0, 1, 2, 3}"
  shows "lane_bits S old (lane_at (aux S old p XOR b)) p = b"
proof -
  have "(aux S old p XOR b) XOR aux S old p = b"
    by (simp add: xor.assoc xor.commute [of b])
  then show ?thesis
    by (simp add: lane_bits_def lane_code_at [OF xor_cases [OF aux_cases assms]])
qed

lemma decrypt_at_rekeyed:
  assumes S: "sodium_ok S" and F: "fresh_ok F" and plain: "\<And>l p. length (plain l p) = 1 + KEYBYTES"
    and p: "p < POSITIONS" and len: "length lab = BLOCK_SIZE"
    and slot: "slot lab p = label S old p b" and b: "b \<in> {0, 1, 2, 3}"
  shows "decrypt_at S (block_mem POSITIONS (rekey_lanes plain S F old)) lab p =
    Inr (plain (lane_at (aux S old p XOR b)) p)"
proof -
  let ?l = "lane_at (aux S old p XOR b)"
  have head: "read_at lab ((1 + KEYBYTES) * p) 1 = Inr [aux S old p XOR b]"
    using read_slot [OF len p, of 0 1] by (simp add: slot label_def)
  have key: "read_at lab ((1 + KEYBYTES) * p + 1) KEYBYTES = Inr (sub S old (5 * p + 1 + unat b))"
    using read_slot [OF len p, of 1 KEYBYTES] by (simp add: slot label_def S)
  have f: "\<And>q. q < POSITIONS \<Longrightarrow> length (rekey_lanes plain S F old ?l q) = BLOCK_LEN"
    by (rule length_rekey_lanes [OF S F plain])
  note read = read_block [where f = "rekey_lanes plain S F old ?l", OF p f]
  have nonce: "read_at (blocks (rekey_lanes plain S F old ?l) POSITIONS) (BLOCK_LEN * p) NONCEBYTES =
      Inr (nonces F (p div 4) (p mod 4) ?l)"
    using read [of 0 NONCEBYTES] by (simp add: rekey_lanes_def BLOCK_LEN_def length_nonce [OF F])
  have cipher: "read_at (blocks (rekey_lanes plain S F old ?l) POSITIONS)
      (BLOCK_LEN * p + NONCEBYTES) CIPHERTEXT_LEN = Inr (rekey_cipher plain S F old ?l p)"
    using read [of NONCEBYTES CIPHERTEXT_LEN]
    by (simp add: rekey_lanes_def BLOCK_LEN_def length_nonce [OF F] length_rekey_cipher [OF S] plain)
  have "secretbox_open_easy S (rekey_cipher plain S F old ?l p) (nonces F (p div 4) (p mod 4) ?l)
      (sub S old (5 * p + 1 + unat b)) = Some (plain ?l p)"
    unfolding rekey_cipher_def lane_bits_at [OF b]
    by (rule open_easy [OF S length_nonce [OF F] length_sub [OF S]])
  moreover have "hd [aux S old p XOR b] AND 3 = aux S old p XOR b"
    using and_3_small [OF xor_cases [OF aux_cases b]] by simp
  ultimately show ?thesis
    unfolding decrypt_at_def head bind_res_simps Let_def
    by (simp only: block_mem_def nonce cipher key bind_res_simps option.case)
qed

lemma access_init_blocks:
  "access_init = block_mem POSITIONS (\<lambda>l _. if l = LA then replicate (1 + KEYBYTES) 0 else [])"
proof -
  have "access_init = create_init"
    by (simp add: fun_eq_iff access_init_def create_init_def BLOCK_SIZE_def)
  then show ?thesis by (simp only: create_init_blocks)
qed

text \<open>The stores of the tasks, whatever the decryptions return: the served blocks are replaced.\<close>

lemma apply_decrypt_stores:
  assumes "\<And>p. p < SERVED \<Longrightarrow> length (d p) = 1 + KEYBYTES" and "set ps = {..<SERVED}"
  shows "apply_stores access_init (map (\<lambda>p. (LA, (1 + KEYBYTES) * p, d p)) ps) =
    Inr (block_mem POSITIONS (\<lambda>l p. if l = LA then (if p < SERVED then d p else replicate (1 + KEYBYTES) 0) else []))"
proof -
  let ?f = "\<lambda>l _. if l = LA then replicate (1 + KEYBYTES) 0 else []"
  let ?d = "\<lambda>l p. if l = LA then d p else []"
  have "apply_stores (block_mem POSITIONS ?f) (concat (map (\<lambda>p. [(LA, (1 + KEYBYTES) * p, d p)]) ps)) =
    Inr (block_mem POSITIONS (\<lambda>l q. if q \<in> set ps then ?d l q else ?f l q))"
  proof (rule apply_block_iterations [where w = "\<lambda>l. if l = LA then 1 + KEYBYTES else 0"])
    fix p and f :: "lane \<Rightarrow> nat \<Rightarrow> bytes"
    assume "p \<in> set ps" and f: "\<And>l q. q < POSITIONS \<Longrightarrow> length (f l q) = (if l = LA then 1 + KEYBYTES else 0)"
    with assms SERVED_le have p: "p < POSITIONS" "length (d p) = 1 + KEYBYTES" by auto
    have "apply_store (block_mem POSITIONS f) (LA, (if LA = LA then 1 + KEYBYTES else 0) * p + 0, d p) =
      Inr (block_mem POSITIONS (f(LA := (f LA)(p := overwrite (f LA p) 0 (d p)))))"
      using f p by (intro apply_store_block) simp_all
    moreover have "overwrite (f LA p) 0 (d p) = d p"
      using f [OF p(1), of LA] p(2) by (intro overwrite_all) simp
    moreover have "f l = (f l)(p := [])" if "l \<noteq> LA" for l
      using f [OF p(1), of l] that by (simp add: fun_eq_iff)
    then have "f(LA := (f LA)(p := d p)) = (\<lambda>l. (f l)(p := ?d l p))"
      by (simp add: fun_eq_iff)
    ultimately show "apply_stores (block_mem POSITIONS f) [(LA, (1 + KEYBYTES) * p, d p)] =
        Inr (block_mem POSITIONS (\<lambda>l. (f l)(p := ?d l p)))"
      by simp
  qed (use assms in auto)
  moreover have "concat (map (\<lambda>p. [(LA, (1 + KEYBYTES) * p, d p)]) ps) =
      map (\<lambda>p. (LA, (1 + KEYBYTES) * p, d p)) ps"
    by (induction ps) simp_all
  moreover have "(\<lambda>l q. if q \<in> set ps then ?d l q else ?f l q) =
    (\<lambda>l p. if l = LA then (if p < SERVED then d p else replicate (1 + KEYBYTES) 0) else [])"
    by (auto simp: fun_eq_iff assms(2))
  ultimately show ?thesis by (simp only: access_init_blocks)
qed

text \<open>The block the server returns and stores: new labels in the served slots, zeros elsewhere.\<close>

definition answer :: "(nat \<Rightarrow> bytes) \<Rightarrow> bytes" where
  "answer d = blocks (\<lambda>p. if p < SERVED then d p else replicate (1 + KEYBYTES) 0) POSITIONS"

lemma slot_answer:
  assumes "\<And>p. p < SERVED \<Longrightarrow> length (d p) = 1 + KEYBYTES" and "p < POSITIONS"
  shows "slot (answer d) p = (if p < SERVED then d p else replicate (1 + KEYBYTES) 0)"
  unfolding answer_def
  by (rule slot_blocks [OF assms(2), where f = "\<lambda>p. if p < SERVED then d p else replicate (1 + KEYBYTES) 0"])
     (simp add: assms(1))

lemma length_answer:
  "(\<And>p. p < SERVED \<Longrightarrow> length (d p) = 1 + KEYBYTES) \<Longrightarrow> length (answer d) = BLOCK_SIZE"
  unfolding answer_def BLOCK_SIZE_positions by (rule length_blocks) simp

lemma tasks_map_res:
  assumes "\<And>p. p \<in> set (concat (map served parts)) \<Longrightarrow> decrypt_at S m lab p = Inr (d p)"
  shows "map_res (\<lambda>part. decryptPortion S part lab m) parts =
    Inr (map (\<lambda>part. map (\<lambda>p. (LA, (1 + KEYBYTES) * p, d p)) (served part)) parts)"
proof (rule map_res_Inr)
  fix part assume "part \<in> set parts"
  with assms show "decryptPortion S part lab m = Inr (map (\<lambda>p. (LA, (1 + KEYBYTES) * p, d p)) (served part))"
    unfolding decryptPortion_eq by (intro map_res_Inr) (force simp: decrypt_store_def)
qed

theorem kv_access_ok:
  assumes run: "running sv" and S: "sodium_ok S" and F: "fresh_ok F"
    and plain: "\<And>l p. length (plain l p) = 1 + KEYBYTES"
    and stored: "kv_get K (db sv) key = Some lab" and enc: "encodes S old bits lab"
    and bits: "\<And>p. bits p \<in> {0, 1, 2, 3}"
  defines "out \<equiv> answer (\<lambda>p. plain (lane_at (aux S old p XOR bits p)) p)"
  shows "kv_access S K (entry_of key (block_mem POSITIONS (rekey_lanes plain S F old))) sv =
    (Inr out, sv\<lparr>access_count := access_count sv + 1, db := kv_put K (db sv) key out\<rparr>)"
proof -
  let ?d = "\<lambda>p. plain (lane_at (aux S old p XOR bits p)) p"
  let ?e = "entry_of key (block_mem POSITIONS (rekey_lanes plain S F old))"
  have lanes: "lane_of ?e = block_mem POSITIONS (rekey_lanes plain S F old)"
    by (rule ext) simp
  have "decrypt_at S (lane_of ?e) lab p = Inr (?d p)" if "p < SERVED" for p
    unfolding lanes using enc that SERVED_le
    by (intro decrypt_at_rekeyed [OF S F plain] bits) (simp_all add: encodes_def)
  then have tasks: "map_res (\<lambda>part. decryptPortion S part lab (lane_of ?e)) [0..<SERVER_NUM_THREADS] =
      Inr (map (\<lambda>part. map (\<lambda>p. (LA, (1 + KEYBYTES) * p, ?d p)) (served part)) [0..<SERVER_NUM_THREADS])"
    by (intro tasks_map_res) (simp add: set_served del: set_concat)
  have "concat (map (\<lambda>part. map (\<lambda>p. (LA, (1 + KEYBYTES) * p, ?d p)) (served part)) [0..<SERVER_NUM_THREADS]) =
      map (\<lambda>p. (LA, (1 + KEYBYTES) * p, ?d p)) (concat (map served [0..<SERVER_NUM_THREADS]))"
    by (simp add: map_concat o_def)
  with apply_decrypt_stores [of ?d "concat (map served [0..<SERVER_NUM_THREADS])", OF _ set_served] plain
  have "apply_stores access_init (concat
      (map (\<lambda>part. map (\<lambda>p. (LA, (1 + KEYBYTES) * p, ?d p)) (served part)) [0..<SERVER_NUM_THREADS])) =
    Inr (block_mem POSITIONS (\<lambda>l p. if l = LA then (if p < SERVED then ?d p else replicate (1 + KEYBYTES) 0) else []))"
    by simp
  with run tasks stored show ?thesis
    by (simp add: kv_access_def Let_def block_mem_def answer_def out_def)
qed

text \<open>A GET entry turns the encoding of the pairs into their encoding under the new master key.\<close>

theorem kv_access_get:
  assumes "running sv" and "sodium_ok S" and "fresh_ok F"
    and "kv_get K (db sv) key = Some lab" and "encodes S old bits lab" and bits: "\<And>p. bits p \<in> {0, 1, 2, 3}"
  shows "kv_access S K (entry_of key (block_mem POSITIONS (rekey_lanes (get_plain S old (keygen F)) S F old))) sv =
    (Inr (answer (\<lambda>p. label S (keygen F) p (bits p))),
     sv\<lparr>access_count := access_count sv + 1,
        db := kv_put K (db sv) key (answer (\<lambda>p. label S (keygen F) p (bits p)))\<rparr>)"
  using kv_access_ok [where plain = "get_plain S old (keygen F)",
      OF assms(1-3) length_get_plain [OF assms(2)] assms(4,5) bits]
  by (simp add: get_plain_def lane_bits_at [OF bits])

theorem kv_access_put:
  assumes "running sv" and "sodium_ok S" and "fresh_ok F"
    and "kv_get K (db sv) key = Some lab" and "encodes S old bits lab" and bits: "\<And>p. bits p \<in> {0, 1, 2, 3}"
  shows "kv_access S K (entry_of key (block_mem POSITIONS (rekey_lanes (put_plain S pv (keygen F)) S F old))) sv =
    (Inr (answer (\<lambda>p. label S (keygen F) p (pair pv p))),
     sv\<lparr>access_count := access_count sv + 1,
        db := kv_put K (db sv) key (answer (\<lambda>p. label S (keygen F) p (pair pv p)))\<rparr>)"
  using kv_access_ok [where plain = "put_plain S pv (keygen F)",
      OF assms(1-3) length_put_plain [OF assms(2)] assms(4,5) bits]
  by (simp add: put_plain_def)

lemma encodes_answer:
  "sodium_ok S \<Longrightarrow> encodes S mk bits (answer (\<lambda>p. label S mk p (bits p)))"
  using SERVED_le
  by (simp add: encodes_def length_answer slot_answer length_label)

lemma encodes_create:
  assumes "sodium_ok S"
  shows "encodes S mk (pair pv) (encryptedLabelsA (entry_of key (block_mem POSITIONS (create_lanes S pv mk))))"
proof -
  have "block_mem POSITIONS (create_lanes S pv mk) LA = blocks (\<lambda>p. label S mk p (pair pv p)) POSITIONS"
    by (simp add: block_mem_def) (rule blocks_cong, simp add: create_lanes_def)
  moreover have "length (blocks (\<lambda>p. label S mk p (pair pv p)) POSITIONS) = BLOCK_SIZE"
    unfolding BLOCK_SIZE_positions by (rule length_blocks) (simp add: length_label assms)
  moreover have "slot (blocks (\<lambda>p. label S mk p (pair pv p)) POSITIONS) p = label S mk p (pair pv p)"
    if "p < SERVED" for p
    using that SERVED_le
    by (intro slot_blocks [where f = "\<lambda>p. label S mk p (pair pv p)"]) (simp_all add: length_label assms)
  ultimately show ?thesis by (simp add: encodes_def entry_of_def)
qed

section \<open>When an access fails\<close>

lemma decrypt_at_empty: "decrypt_at S m [] p = Inl Undefined"
  by (simp add: decrypt_at_def read_at_def)

lemma map_res_first_error: "f x = Inl e \<Longrightarrow> map_res f (x # xs) = Inl e"
  by simp

text \<open>The status of \<open>db->Get\<close> is not looked at: an unknown key reads an empty string.\<close>

lemma kv_access_unknown:
  assumes "running sv" and "kv_get K (db sv) (keyName e) = None"
  shows "kv_access S K e sv = (Inl Undefined, sv)"
proof -
  have "served 0 = 0 # [1..<12]"
    by (simp add: served_def part_numbers Let_def upt_conv_Cons)
  then have first: "decryptPortion S 0 [] (lane_of e) = Inl Undefined"
    unfolding decryptPortion_eq
    by (simp only:) (rule map_res_first_error, simp add: decrypt_store_def decrypt_at_empty)
  have "[0..<SERVER_NUM_THREADS] = 0 # [1..<SERVER_NUM_THREADS]"
    by (simp add: SERVER_NUM_THREADS_def upt_conv_Cons)
  then have "map_res (\<lambda>part. decryptPortion S part [] (lane_of e)) [0..<SERVER_NUM_THREADS] = Inl Undefined"
    by (simp only:) (rule map_res_first_error, rule first)
  with assms show ?thesis by (simp add: kv_access_def)
qed

lemma map_res_only_error:
  "(\<And>x e'. x \<in> set xs \<Longrightarrow> f x = Inl e' \<Longrightarrow> e' = e) \<Longrightarrow> x \<in> set xs \<Longrightarrow> f x = Inl e \<Longrightarrow>
    map_res f xs = Inl e"
proof (induction xs)
  case (Cons y ys)
  show ?case
  proof (cases "f y")
    case (Inl e')
    then have "e' = e" using Cons.prems(1) [of y e'] by simp
    with Inl show ?thesis by simp
  next
    case (Inr z)
    with Cons.prems have "x \<in> set ys" by auto
    moreover have "e' = e" if "w \<in> set ys" "f w = Inl e'" for w e'
      using Cons.prems(1) [of w e'] that by simp
    ultimately have "map_res f ys = Inl e" using Cons.IH Cons.prems(3) by blast
    with Inr show ?thesis by simp
  qed
qed simp

lemma map_res_any_error: "map_res f xs = Inl e \<Longrightarrow> \<exists>x \<in> set xs. f x = Inl e"
proof (induction xs)
  case (Cons y ys)
  then show ?case by (cases "f y"; cases "map_res f ys") auto
qed simp

text \<open>In a record and an entry of the right sizes the only failure is a decryption that fails.\<close>

definition entry_sized :: "entry \<Rightarrow> bool" where
  "entry_sized e \<longleftrightarrow> (\<forall>l. length (lane_of e l) = BLOCK_LEN * POSITIONS)"

lemma decrypt_at_error:
  assumes "length lab = BLOCK_SIZE" and "entry_sized e" and "p < POSITIONS"
    and "decrypt_at S (lane_of e) lab p = Inl er"
  shows "er = ProcessExit"
proof -
  from block_end [OF assms(3), of "1 + KEYBYTES"] assms(1)
  have head: "\<exists>h. read_at lab ((1 + KEYBYTES) * p) 1 = Inr h"
    and key: "\<exists>k. read_at lab ((1 + KEYBYTES) * p + 1) KEYBYTES = Inr k"
    by (simp_all add: read_at_def BLOCK_SIZE_positions)
  from block_end [OF assms(3), of BLOCK_LEN] assms(2)
  have nonce: "\<exists>n. read_at (lane_of e l) (BLOCK_LEN * p) NONCEBYTES = Inr n"
    and cipher: "\<exists>c. read_at (lane_of e l) (BLOCK_LEN * p + NONCEBYTES) CIPHERTEXT_LEN = Inr c" for l
    by (simp_all add: read_at_def entry_sized_def BLOCK_LEN_def)
  obtain h k where hk: "read_at lab ((1 + KEYBYTES) * p) 1 = Inr h"
    "read_at lab ((1 + KEYBYTES) * p + 1) KEYBYTES = Inr k" using head key by blast
  obtain n c where "read_at (lane_of e (lane_at (hd h AND 3))) (BLOCK_LEN * p) NONCEBYTES = Inr n"
    "read_at (lane_of e (lane_at (hd h AND 3))) (BLOCK_LEN * p + NONCEBYTES) CIPHERTEXT_LEN = Inr c"
    using nonce cipher by blast
  with hk assms(4) show ?thesis
    by (simp add: decrypt_at_def Let_def split: option.splits)
qed

lemma kv_access_exit:
  assumes "running sv" and "kv_get K (db sv) (keyName e) = Some lab"
    and "length lab = BLOCK_SIZE" and "entry_sized e" and p: "p < SERVED"
    and fail: "decrypt_at S (lane_of e) lab p = Inl ProcessExit"
  shows "kv_access S K e sv = (Inl TransportError, sv\<lparr>running := False\<rparr>)"
proof -
  have only: "er = ProcessExit" if "p' \<in> set (served k)" "k < SERVER_NUM_THREADS"
    "decrypt_store S (lane_of e) lab p' = Inl er" for p' k er
  proof -
    from that(1,2) have "p' \<in> {..<SERVED}" unfolding set_served [symmetric] by auto
    then have "p' < POSITIONS" using SERVED_le by simp
    moreover from that(3) have "decrypt_at S (lane_of e) lab p' = Inl er"
      by (cases "decrypt_at S (lane_of e) lab p'") (simp_all add: decrypt_store_def)
    ultimately show ?thesis using decrypt_at_error [OF assms(3,4)] by blast
  qed
  from p have "p \<in> set (concat (map served [0..<SERVER_NUM_THREADS]))" unfolding set_served by simp
  then obtain k where k: "k < SERVER_NUM_THREADS" "p \<in> set (served k)" by auto
  have part: "decryptPortion S k lab (lane_of e) = Inl ProcessExit"
    unfolding decryptPortion_eq
    by (rule map_res_only_error [OF _ k(2)]) (use only k(1) in blast, simp add: decrypt_store_def fail)
  have "map_res (\<lambda>part. decryptPortion S part lab (lane_of e)) [0..<SERVER_NUM_THREADS] = Inl ProcessExit"
  proof (rule map_res_only_error [where x = k])
    fix k' er
    assume k': "k' \<in> set [0..<SERVER_NUM_THREADS]" and "decryptPortion S k' lab (lane_of e) = Inl er"
    then obtain p' where "p' \<in> set (served k')" "decrypt_store S (lane_of e) lab p' = Inl er"
      unfolding decryptPortion_eq using map_res_any_error by blast
    with k' only show "er = ProcessExit" by auto
  qed (use k(1) part in auto)
  with assms(1,2) show ?thesis by (simp add: kv_access_def)
qed

section \<open>The schedule of the server's tasks\<close>

definition access_tasks :: "sodium \<times> bytes \<times> (lane \<Rightarrow> bytes) \<Rightarrow> store list list" where
  "access_tasks = (\<lambda>(S, oldKeys, labelList). tasks_of
     (map_res (\<lambda>part. decryptPortion S part oldKeys labelList) [0..<SERVER_NUM_THREADS]))"

definition access_pre :: "sodium \<times> bytes \<times> (lane \<Rightarrow> bytes) \<Rightarrow> bool" where
  "access_pre = (\<lambda>(S, oldKeys, labelList). sodium_ok S)"

lemma decrypt_at_length:
  assumes "sodium_ok S" and "decrypt_at S m lab p = Inr d"
  shows "length d = 1 + KEYBYTES"
proof -
  obtain l ct n k where "read_at (m l) (BLOCK_LEN * p + NONCEBYTES) CIPHERTEXT_LEN = Inr ct"
    and d: "secretbox_open_easy S ct n k = Some d"
    using assms(2) by (auto simp: decrypt_at_def bind_res_eq_Inr Let_def split: option.splits)
  then have "length ct = CIPHERTEXT_LEN" by (simp add: length_read_at)
  with length_open [OF assms(1) d] show ?thesis by (simp add: layout)
qed

text \<open>
  The tasks overlap, but a slot two tasks share receives the same label from both: the decryption
  reads only the old record and the entry.
\<close>

lemma in_access_tasks:
  assumes "t \<in> set (access_tasks (S, lab, m))" and "s \<in> set t"
  shows "\<exists>p d. p < SERVED \<and> decrypt_at S m lab p = Inr d \<and> s = (LA, (1 + KEYBYTES) * p, d)"
proof -
  let ?r = "map_res (\<lambda>part. decryptPortion S part lab m) [0..<SERVER_NUM_THREADS]"
  from assms(1) obtain ts where r: "?r = Inr ts" and t: "t \<in> set ts"
    by (cases ?r) (auto simp: access_tasks_def tasks_of_def)
  from map_res_InrD [OF r t] obtain k where k: "k < SERVER_NUM_THREADS"
    and "decryptPortion S k lab m = Inr t" by auto
  then have "map_res (decrypt_store S m lab) (served k) = Inr t"
    by (simp only: decryptPortion_eq)
  from map_res_InrD [OF this assms(2)] obtain p where
    p: "p \<in> set (served k)" "decrypt_store S m lab p = Inr s" by blast
  from p(1) k have "p \<in> {..<SERVED}" unfolding set_served [symmetric] by auto
  with p(2) show ?thesis by (auto simp: decrypt_store_def bind_res_eq_Inr)
qed

definition served_store :: "sodium \<times> bytes \<times> (lane \<Rightarrow> bytes) \<Rightarrow> nat \<Rightarrow> store list" where
  "served_store = (\<lambda>(S, lab, m) p.
     (case decrypt_at S m lab p of Inl _ \<Rightarrow> [] | Inr d \<Rightarrow> [(LA, (1 + KEYBYTES) * p, d)]))"

interpretation access_phase: parallel_phase access_pre access_tasks "\<lambda>_. access_init"
proof (rule parallel_phase_blocksI [where n = POSITIONS and g = served_store
      and w = "\<lambda>l. if l = LA then 1 + KEYBYTES else 0"])
  fix c :: "sodium \<times> bytes \<times> (lane \<Rightarrow> bytes)" and t s
  obtain S lab m where c: "c = (S, lab, m)" by (cases c)
  assume "access_pre c" and "t \<in> set (access_tasks c)" and "s \<in> set t"
  with in_access_tasks [of t S lab m s] obtain p d where "p < SERVED"
    and "decrypt_at S m lab p = Inr d" and "s = (LA, (1 + KEYBYTES) * p, d)"
    unfolding c by blast
  then have "p < POSITIONS \<and> s \<in> set (served_store c p)"
    using SERVED_le by (simp add: served_store_def c)
  then show "\<exists>p<POSITIONS. s \<in> set (served_store c p)" by blast
next
  fix c p s
  assume "access_pre c" and "s \<in> set (served_store c p)"
  then show "block_store (\<lambda>l. if l = LA then 1 + KEYBYTES else 0) p s"
    by (auto simp: served_store_def access_pre_def decrypt_at_length split: sum.splits)
next
  fix c p s s'
  assume "access_pre c" and "s \<in> set (served_store c p)" and "s' \<in> set (served_store c p)"
  then have "s = s'"
    by (cases c, cases "decrypt_at (fst c) (snd (snd c)) (fst (snd c)) p")
      (simp_all add: served_store_def)
  then show "agree s s'" by (simp add: agree_def)
qed (simp add: access_init_def BLOCK_SIZE_positions)

end
