(* ===== verification/LabelDecode.thy ===== *)
theory LabelDecode
  imports LabelServer
begin

text \<open>
  What \<open>readValueFromLabels\<close> makes of a block of labels: the decoded pairs, the bytes they form
  and the value they give when the block encodes a value under the current master key.
\<close>

section \<open>The decoded pairs and bytes\<close>

definition decode_pair :: "sodium \<Rightarrow> bytes \<Rightarrow> bytes \<Rightarrow> nat \<Rightarrow> byte" where
  "decode_pair S mk lab p =
    (let curr = tl (slot lab p) in
     if curr = sub S mk (5 * p + 1) then 0 else if curr = sub S mk (5 * p + 2) then 1
     else if curr = sub S mk (5 * p + 3) then 2 else 3)"

lemma decode_pair_cases: "decode_pair S mk lab p \<in> {0, 1, 2, 3}"
  by (simp add: decode_pair_def Let_def)

definition decode_byte :: "sodium \<Rightarrow> bytes \<Rightarrow> bytes \<Rightarrow> nat \<Rightarrow> byte" where
  "decode_byte S mk lab i = byte_of (\<lambda>j. decode_pair S mk lab (4 * i + j)) 0"

lemma read_pair_eq:
  assumes "length mk = KEYBYTES" and "length lab = BLOCK_SIZE" and "4 * i + j < POSITIONS"
  shows "read_pair S mk lab ((1 + KEYBYTES) * (4 * i + j) + 1) i j c =
    Inr (modifyBits c (2 * j) (decode_pair S mk lab (4 * i + j)))"
proof -
  have "length (slot lab (4 * i + j)) = 1 + KEYBYTES"
    using assms(2,3) by (intro length_slot) (simp_all add: BLOCK_SIZE_positions)
  then have "take KEYBYTES (drop 1 (slot lab (4 * i + j))) = tl (slot lab (4 * i + j))"
    by (simp add: drop_Suc)
  then have "read_at lab ((1 + KEYBYTES) * (4 * i + j) + 1) KEYBYTES = Inr (tl (slot lab (4 * i + j)))"
    using read_slot [OF assms(2,3), of 1 KEYBYTES] by simp
  then show ?thesis
    unfolding read_pair_def Let_def derive_eq [OF assms(1)] bind_res_simps
    by (simp only: bind_res_simps decode_pair_def Let_def)
qed

lemma read_byte_eq:
  assumes "length mk = KEYBYTES" and "length lab = BLOCK_SIZE" and "i < VALUE_SIZE"
  shows "read_byte S mk lab ((1 + KEYBYTES) * (4 * i) + 1) i [0..<4] c =
    Inr (decode_byte S mk lab i, (1 + KEYBYTES) * (4 * Suc i) + 1)"
proof -
  define ptr where "ptr = (\<lambda>j. (1 + KEYBYTES) * (4 * i + j) + 1)"
  have step: "ptr 0 + KEYBYTES + 1 = ptr 1" "ptr 1 + KEYBYTES + 1 = ptr 2"
    "ptr 2 + KEYBYTES + 1 = ptr 3" "ptr 3 + KEYBYTES + 1 = ptr 4"
    by (simp_all add: ptr_def distrib_left)
  have pair: "read_pair S mk lab (ptr j) i j c = Inr (modifyBits c (2 * j) (decode_pair S mk lab (4 * i + j)))"
    if "j < 4" for j c
    unfolding ptr_def using assms(3) that by (intro read_pair_eq [OF assms(1,2)]) (simp add: POSITIONS_def)
  have "read_byte S mk lab (ptr 0) i [0, 1, 2, 3] c =
      Inr (byte_of (\<lambda>j. decode_pair S mk lab (4 * i + j)) c, ptr 4)"
    using pair [of 0] pair [of 1] pair [of 2] pair [of 3] step by (simp add: byte_of_def)
  moreover have "[0..<4] = [0, 1, 2, 3 :: nat]" by (simp add: upt_rec)
  moreover have "ptr 0 = (1 + KEYBYTES) * (4 * i) + 1" "ptr 4 = (1 + KEYBYTES) * (4 * Suc i) + 1"
    by (simp_all add: ptr_def)
  ultimately show ?thesis
    by (simp only: decode_byte_def byte_of_initial [of _ c 0])
qed

lemma read_bytes_eq:
  assumes "length mk = KEYBYTES" and "length lab = BLOCK_SIZE"
  shows "i \<le> VALUE_SIZE \<Longrightarrow> read_bytes S mk lab ((1 + KEYBYTES) * (4 * i) + 1) [i..<VALUE_SIZE] c =
    Inr (map (decode_byte S mk lab) [i..<VALUE_SIZE])"
proof (induction arbitrary: c rule: inc_induct)
  case (step i)
  have "[i..<VALUE_SIZE] = i # [Suc i..<VALUE_SIZE]"
    using step.hyps(2) by (rule upt_conv_Cons)
  then show ?case
    using step.IH by (simp only: read_bytes.simps read_byte_eq [OF assms step.hyps(2)] bind_res_simps
        prod.case list.map)
qed simp

lemma readValueFromLabels_eq:
  assumes "masterKeys st key = Some mk" and "length mk = KEYBYTES" and "length lab = BLOCK_SIZE"
  shows "readValueFromLabels S c key lab st =
    (Inr (substr0 (map (decode_byte S mk lab) [0..<VALUE_SIZE]) (at_default (valueSizes st) 0 key)),
     st\<lparr>valueSizes := (valueSizes st)(key \<mapsto> at_default (valueSizes st) 0 key)\<rparr>)"
  using read_bytes_eq [OF assms(2,3), of 0 S c] by (simp add: readValueFromLabels_def assms(1))

lemma substr0_nat: "n < 2 ^ 62 \<Longrightarrow> substr0 s (int n) = take n s"
  by (simp add: substr0_def unat_of_nat)

section \<open>Decoding an answer of the server\<close>

text \<open>
  The subkeys the protocol derives from one master key differ, and none is the zero string the
  server leaves in an unserved slot.
\<close>

definition subkeys_distinct :: "sodium \<Rightarrow> bytes \<Rightarrow> bool" where
  "subkeys_distinct S mk \<longleftrightarrow>
    (\<forall>i < 5 * POSITIONS. \<forall>j < 5 * POSITIONS. sub S mk i = sub S mk j \<longrightarrow> i = j)"

definition subkeys_nonzero :: "sodium \<Rightarrow> bytes \<Rightarrow> bool" where
  "subkeys_nonzero S mk \<longleftrightarrow> (\<forall>i < 5 * POSITIONS. sub S mk i \<noteq> replicate KEYBYTES 0)"

lemma decode_pair_label:
  assumes "subkeys_distinct S mk" and "p < POSITIONS" and "slot lab p = label S mk p b"
    and b: "b \<in> {0, 1, 2, 3}"
  shows "decode_pair S mk lab p = b"
proof -
  have inj: "sub S mk (5 * p + i) = sub S mk (5 * p + j) \<longleftrightarrow> i = j" if "i < 5" "j < 5" for i j
  proof -
    have "5 * p + i < 5 * POSITIONS" "5 * p + j < 5 * POSITIONS"
      using assms(2) that by linarith+
    with assms(1) have "sub S mk (5 * p + i) = sub S mk (5 * p + j) \<longrightarrow> 5 * p + i = 5 * p + j"
      unfolding subkeys_distinct_def by blast
    then show ?thesis by auto
  qed
  have "tl (slot lab p) = sub S mk (5 * p + (1 + unat b))"
    by (simp add: assms(3) label_def)
  moreover from b have "b = 0 \<and> 1 + unat b = 1 \<or> b = 1 \<and> 1 + unat b = 2 \<or>
      b = 2 \<and> 1 + unat b = 3 \<or> b = 3 \<and> 1 + unat b = 4" by auto
  ultimately show ?thesis
    unfolding decode_pair_def Let_def by (elim disjE conjE) (simp_all only: inj, simp_all)
qed

lemma decode_pair_zero:
  assumes "subkeys_nonzero S mk" and "p < POSITIONS" and "slot lab p = replicate (1 + KEYBYTES) 0"
  shows "decode_pair S mk lab p = 3"
proof -
  have "sub S mk (5 * p + i) \<noteq> replicate KEYBYTES 0" if "i < 5" for i
  proof -
    have "5 * p + i < 5 * POSITIONS" using assms(2) that by linarith
    with assms(1) show ?thesis unfolding subkeys_nonzero_def by blast
  qed
  from this [of 1] this [of 2] this [of 3] show ?thesis
    by (auto simp: decode_pair_def assms(3) dest: sym)
qed

text \<open>The number of whole bytes the served slots hold.\<close>

definition SERVED_BYTES :: nat where [layout]: "SERVED_BYTES = 42"

lemma SERVED_bytes: "SERVED = 4 * SERVED_BYTES" "SERVED_BYTES \<le> VALUE_SIZE"
  by (simp_all add: layout)

lemma decode_byte_label:
  assumes "subkeys_distinct S mk" and "i < VALUE_SIZE"
    and "\<And>j. j < 4 \<Longrightarrow> slot lab (4 * i + j) = label S mk (4 * i + j) (pair pv (4 * i + j))"
  shows "decode_byte S mk lab i = pv ! i"
proof -
  have "decode_byte S mk lab i = byte_of (\<lambda>j. getBits (pv ! i) (2 * j)) 0"
    unfolding decode_byte_def
  proof (rule byte_of_cong)
    fix j :: nat assume j: "j < 4"
    then have "4 * i + j < POSITIONS" using assms(2) by (simp add: POSITIONS_def)
    with j show "decode_pair S mk lab (4 * i + j) = getBits (pv ! i) (2 * j)"
      using decode_pair_label [OF assms(1) _ assms(3) pair_cases] pair_pos [OF j] by simp
  qed
  then show ?thesis by (simp only: byte_of_getBits)
qed

lemma decode_byte_served:
  assumes "subkeys_distinct S mk" and "i < SERVED_BYTES"
    and "\<And>p. p < SERVED \<Longrightarrow> slot lab p = label S mk p (pair pv p)"
  shows "decode_byte S mk lab i = pv ! i"
proof (rule decode_byte_label [OF assms(1)])
  show "i < VALUE_SIZE" using assms(2) SERVED_bytes(2) by simp
qed (rule assms(3), use assms(2) in \<open>simp add: SERVED_bytes\<close>)

text \<open>A block in which every slot holds the label of its pair reads back as the whole value.\<close>

lemma decode_blocks:
  assumes "sodium_ok S" and "subkeys_distinct S mk" and "length pv = VALUE_SIZE"
  shows "map (decode_byte S mk (blocks (\<lambda>p. label S mk p (pair pv p)) POSITIONS)) [0..<VALUE_SIZE] = pv"
proof (rule nth_equalityI)
  fix i
  assume "i < length (map (decode_byte S mk (blocks (\<lambda>p. label S mk p (pair pv p)) POSITIONS)) [0..<VALUE_SIZE])"
  then have i: "i < VALUE_SIZE" by simp
  have "decode_byte S mk (blocks (\<lambda>p. label S mk p (pair pv p)) POSITIONS) i = pv ! i"
  proof (rule decode_byte_label [OF assms(2) i])
    fix j :: nat assume "j < 4"
    with i have "4 * i + j < POSITIONS" by (simp add: POSITIONS_def)
    then show "slot (blocks (\<lambda>p. label S mk p (pair pv p)) POSITIONS) (4 * i + j) =
        label S mk (4 * i + j) (pair pv (4 * i + j))"
      by (intro slot_blocks [where f = "\<lambda>p. label S mk p (pair pv p)"]) (simp_all add: length_label assms(1))
  qed
  with i show "map (decode_byte S mk (blocks (\<lambda>p. label S mk p (pair pv p)) POSITIONS)) [0..<VALUE_SIZE] ! i = pv ! i"
    by simp
qed (simp add: assms(3))

lemma decode_byte_unserved:
  assumes "subkeys_nonzero S mk" and "SERVED_BYTES \<le> i" and "i < VALUE_SIZE"
    and "\<And>p. SERVED \<le> p \<Longrightarrow> p < POSITIONS \<Longrightarrow> slot lab p = replicate (1 + KEYBYTES) 0"
  shows "decode_byte S mk lab i = 255"
proof -
  have "decode_byte S mk lab i = byte_of (\<lambda>j. getBits 255 (2 * j)) 0"
    unfolding decode_byte_def
  proof (rule byte_of_cong)
    fix j :: nat assume j: "j < 4"
    then have p: "SERVED \<le> 4 * i + j" "4 * i + j < POSITIONS"
      using assms(2,3) by (simp_all add: SERVED_bytes POSITIONS_def)
    from decode_pair_zero [OF assms(1) p(2) assms(4) [OF p]]
    have "decode_pair S mk lab (4 * i + j) = 3" .
    moreover have "j \<in> {0, 1, 2, 3}" using j by auto
    then have "getBits 255 (2 * j) = 3" by (auto simp: getBits_def)
    ultimately show "decode_pair S mk lab (4 * i + j) = getBits 255 (2 * j)" by simp
  qed
  then show ?thesis by (simp only: byte_of_getBits)
qed

lemma decode_answer:
  assumes "sodium_ok S" and "subkeys_distinct S mk" and "subkeys_nonzero S mk"
    and "length pv = VALUE_SIZE"
  shows "map (decode_byte S mk (answer (\<lambda>p. label S mk p (pair pv p)))) [0..<VALUE_SIZE] =
    take SERVED_BYTES pv @ replicate (VALUE_SIZE - SERVED_BYTES) 255"
proof (rule nth_equalityI)
  show "length (map (decode_byte S mk (answer (\<lambda>p. label S mk p (pair pv p)))) [0..<VALUE_SIZE]) =
    length (take SERVED_BYTES pv @ replicate (VALUE_SIZE - SERVED_BYTES) (255 :: byte))"
    using assms(4) SERVED_bytes(2) by simp
next
  let ?lab = "answer (\<lambda>p. label S mk p (pair pv p))"
  fix i assume "i < length (map (decode_byte S mk ?lab) [0..<VALUE_SIZE])"
  then have i: "i < VALUE_SIZE" by simp
  have slot: "slot ?lab p = (if p < SERVED then label S mk p (pair pv p) else replicate (1 + KEYBYTES) 0)"
    if "p < POSITIONS" for p
    using that by (intro slot_answer) (simp_all add: length_label assms(1))
  have "decode_byte S mk ?lab i = (if i < SERVED_BYTES then pv ! i else 255)"
  proof (cases "i < SERVED_BYTES")
    case True
    with slot SERVED_le show ?thesis
      by (simp add: decode_byte_served [OF assms(2) True, of ?lab pv])
  next
    case False
    with slot i show ?thesis
      by (simp add: decode_byte_unserved [OF assms(3) _ i, of ?lab])
  qed
  with i assms(4) SERVED_bytes(2) show "map (decode_byte S mk ?lab) [0..<VALUE_SIZE] ! i =
      (take SERVED_BYTES pv @ replicate (VALUE_SIZE - SERVED_BYTES) 255) ! i"
    by (simp add: nth_append)
qed

text \<open>Only the served prefix matters for a short value.\<close>

lemma decode_answer_short:
  assumes "sodium_ok S" and "subkeys_distinct S mk" and "length v \<le> SERVED_BYTES"
  shows "take (length v) (map (decode_byte S mk (answer (\<lambda>p. label S mk p (pair (pad v) p)))) [0..<VALUE_SIZE]) = v"
proof (rule nth_equalityI)
  have len: "length v \<le> VALUE_SIZE" using assms(3) SERVED_bytes(2) by simp
  then show "length (take (length v) (map (decode_byte S mk
      (answer (\<lambda>p. label S mk p (pair (pad v) p)))) [0..<VALUE_SIZE])) = length v" by simp
  let ?lab = "answer (\<lambda>p. label S mk p (pair (pad v) p))"
  fix i assume "i < length (take (length v) (map (decode_byte S mk ?lab) [0..<VALUE_SIZE]))"
  then have i: "i < length v" by simp
  with assms(3) have "i < SERVED_BYTES" by simp
  moreover have "slot ?lab p = label S mk p (pair (pad v) p)" if "p < SERVED" for p
    using that SERVED_le by (subst slot_answer) (simp_all add: length_label assms(1))
  ultimately have "decode_byte S mk ?lab i = pad v ! i"
    by (intro decode_byte_served [OF assms(2)])
  with i len show "take (length v) (map (decode_byte S mk ?lab) [0..<VALUE_SIZE]) ! i = v ! i"
    by (simp add: pad_def nth_append)
qed

end
