(* ===== verification/Strings.thy ===== *)
theory Strings
  imports Prelude
begin

text \<open>
  The parts of the C++ string library the program uses: \<open>std::to_string\<close> of a non-negative
  number, conversions between strings and bytes, the conversion of a \<open>size_t\<close> to \<open>int\<close>, strings made
  of character arrays and reading words from a stream.
\<close>

definition digit_char :: "nat \<Rightarrow> char" where
  "digit_char d = char_of (48 + d)"

fun to_string :: "nat \<Rightarrow> string" where
  "to_string n = (if n < 10 then [digit_char n] else to_string (n div 10) @ [digit_char (n mod 10)])"

declare to_string.simps [simp del]

definition to_bytes :: "string \<Rightarrow> bytes" where
  "to_bytes s = map of_char s"

definition int_of_size :: "nat \<Rightarrow> int" where
  "int_of_size n = sint (of_nat n :: 32 word)"

lemma int_of_size_small: "n < 2 ^ 31 \<Longrightarrow> int_of_size n = int n"
proof -
  assume "n < 2 ^ 31"
  then have "signed_take_bit 31 (int n) = int n"
    by (simp add: signed_take_bit_int_eq_self_iff)
  then show ?thesis by (simp add: int_of_size_def signed_of_nat)
qed

lemma digit_char_inj: "d < 10 \<Longrightarrow> e < 10 \<Longrightarrow> digit_char d = digit_char e \<Longrightarrow> d = e"
proof -
  assume "d < 10" "e < 10" "digit_char d = digit_char e"
  moreover from this(3) have "(of_char (digit_char d) :: nat) = of_char (digit_char e)" by simp
  ultimately show "d = e" by (simp add: digit_char_def)
qed

lemma to_string_nonempty: "to_string n \<noteq> []"
  by (subst to_string.simps) simp

lemma to_string_small: "n < 10 \<Longrightarrow> to_string n = [digit_char n]"
  by (subst to_string.simps) simp

lemma to_string_big: "\<not> n < 10 \<Longrightarrow> to_string n = to_string (n div 10) @ [digit_char (n mod 10)]"
  by (subst to_string.simps) simp

text \<open>Different numbers have different decimal representations.\<close>

lemma to_string_inj: "to_string m = to_string n \<Longrightarrow> m = n"
proof (induction m arbitrary: n rule: less_induct)
  case (less m)
  show ?case
  proof (cases "m < 10")
    case True
    with less.prems have "n < 10"
      using to_string_nonempty [of "n div 10"]
      by (cases "n < 10") (simp_all add: to_string_small to_string_big Cons_eq_append_conv)
    with True less.prems show ?thesis by (auto simp: to_string_small intro: digit_char_inj)
  next
    case False
    with less.prems have n: "\<not> n < 10"
      using to_string_nonempty [of "m div 10"]
      by (cases "n < 10") (simp_all add: to_string_small to_string_big append_eq_Cons_conv)
    from less.prems False n have "to_string (m div 10) = to_string (n div 10)"
      and "digit_char (m mod 10) = digit_char (n mod 10)"
      by (simp_all add: to_string_big)
    with less.IH [of "m div 10" "n div 10"] False digit_char_inj [of "m mod 10" "n mod 10"]
    have "m div 10 = n div 10" "m mod 10 = n mod 10" by simp_all
    then show ?thesis by (metis div_mult_mod_eq)
  qed
qed

lemma inj_to_string: "inj to_string"
  by (rule injI) (rule to_string_inj)

lemma length_to_string: "n < 10 ^ k \<Longrightarrow> 0 < k \<Longrightarrow> length (to_string n) \<le> k"
proof (induction n arbitrary: k rule: less_induct)
  case (less n)
  show ?case
  proof (cases "n < 10")
    case True
    then show ?thesis using less.prems by (simp add: to_string_small)
  next
    case False
    obtain j where k: "k = Suc j" using less.prems(2) by (cases k) simp_all
    with False less.prems(1) have "0 < j" by (cases j) simp_all
    moreover have "n div 10 < 10 ^ j" using less.prems(1) by (simp add: k less_mult_imp_div_less mult.commute)
    moreover have "n div 10 < n" using False by simp
    ultimately have "length (to_string (n div 10)) \<le> j" using less.IH by blast
    with False k show ?thesis by (simp add: to_string_big)
  qed
qed

lemma set_to_string: "set (to_string n) \<subseteq> digit_char ` {..<10}"
proof (induction n rule: less_induct)
  case (less n)
  show ?case
  proof (cases "n < 10")
    case False
    then have "n div 10 < n" by simp
    from less.IH [OF this] False show ?thesis by (simp add: to_string_big)
  qed (simp add: to_string_small)
qed

lemma to_bytes_to_string: "0 \<notin> set (to_bytes (to_string n))"
proof
  assume "0 \<in> set (to_bytes (to_string n))"
  then obtain c where "c \<in> set (to_string n)" and c: "(of_char c :: byte) = 0"
    by (auto simp: to_bytes_def)
  with set_to_string [of n] obtain d where d: "d < 10" "c = digit_char d" by auto
  have "(of_char (digit_char d) :: byte) = of_nat (48 + d)"
  proof -
    have "(of_char (digit_char d) :: byte) = of_nat (of_char (digit_char d))"
      by (metis of_char_of of_nat_of_char)
    also have "(of_char (digit_char d) :: nat) = 48 + d" using d(1) by (simp add: digit_char_def)
    finally show ?thesis .
  qed
  with c d have "(of_nat (48 + d) :: byte) = 0" by simp
  then have "unat (of_nat (48 + d) :: byte) = 0" by (simp only: unat_0)
  with d(1) show False by (simp only: unat_of_nat) simp
qed

section \<open>Arrays and streams\<close>

text \<open>\<open>std::string(rand_val)\<close> of an array that is not terminated: it ends at the first NUL.\<close>

definition string_of_array :: "bytes \<Rightarrow> bytes res" where
  "string_of_array a = (if 0 \<in> set a then Inr (takeWhile (\<lambda>b. b \<noteq> 0) a) else Inl Undefined)"

text \<open>\<open>operator>>\<close> of a stream and a string: the next word, or nothing at the end.\<close>

definition is_space :: "char \<Rightarrow> bool" where
  "is_space c \<longleftrightarrow> c \<in> {CHR '' '', CHR 0x09, CHR 0x0A, CHR 0x0B, CHR 0x0C, CHR 0x0D}"

definition next_word :: "string \<Rightarrow> string \<times> string" where
  "next_word s = (let t = dropWhile is_space s in
    (takeWhile (\<lambda>c. \<not> is_space c) t, dropWhile (\<lambda>c. \<not> is_space c) t))"

text \<open>A word followed by a space is read back.\<close>

definition a_word :: "string \<Rightarrow> bool" where
  "a_word w \<longleftrightarrow> w \<noteq> [] \<and> (\<forall>c \<in> set w. \<not> is_space c)"

lemma next_word_space: "is_space c \<Longrightarrow> next_word (c # s) = next_word s"
  by (simp add: next_word_def)

lemma next_word_nil [simp]: "next_word [] = ([], [])"
  by (simp add: next_word_def)

lemma next_word_word:
  assumes "a_word w" and "s = [] \<or> is_space (hd s)"
  shows "next_word (w @ s) = (w, s)"
proof -
  obtain c cs where w: "w = c # cs" using assms(1) by (cases w) (auto simp: a_word_def)
  then have "dropWhile is_space (w @ s) = w @ s" using assms(1) by (simp add: a_word_def)
  moreover have "takeWhile (\<lambda>c. \<not> is_space c) (w @ s) = w" "dropWhile (\<lambda>c. \<not> is_space c) (w @ s) = s"
    using assms by (cases s; auto simp: a_word_def takeWhile_append dropWhile_append)+
  ultimately show ?thesis by (simp add: next_word_def Let_def)
qed

lemma space_is_space [simp]: "is_space (CHR '' '')" "is_space (CHR 0x0A)"
  by (simp_all add: is_space_def)

end
