(* ===== verification/LabelProxy.thy ===== *)
theory LabelProxy
  imports LabelDecode Strings
begin

text \<open>
  \<open>ortoa-lbl/proxy.cpp\<close>: the handler of the \<open>Send_Op\<close> service, with the start-up and the
  shutdown of \<open>clientHelper.cpp\<close>.  The proxy sees the key-value service through the locale
  \<open>kv_service\<close>; its handler refines the abstract store \<open>spec_op\<close>.
\<close>

section \<open>State and handler\<close>

record operation =
  op_op :: string
  op_key :: string
  op_value :: bytes

record proxy =
  hlp :: helper
  accesses :: "32 word"
  aborted :: "32 word"

text \<open>
  \<open>locks[key].exchange(b)\<close>: the first use of a key adds a lock that is not available.
\<close>

definition exchange :: "string \<Rightarrow> bool \<Rightarrow> helper \<Rightarrow> bool \<times> helper" where
  "exchange key b st = (at_default (locks st) False key, st\<lparr>locks := (locks st)(key \<mapsto> b)\<rparr>)"

definition count_abort :: "proxy \<Rightarrow> proxy" where
  "count_abort px = px\<lparr>aborted := aborted px + 1\<rparr>"

definition finish :: "string \<Rightarrow> proxy \<Rightarrow> proxy" where
  "finish key px = px\<lparr>accesses := accesses px + 1, hlp := snd (exchange key True (hlp px))\<rparr>"

definition set_value_size :: "string \<Rightarrow> bytes \<Rightarrow> helper \<Rightarrow> helper" where
  "set_value_size key value st = st\<lparr>valueSizes := (valueSizes st)(key \<mapsto> int_of_size (length value))\<rparr>"

definition insert_key :: "string \<Rightarrow> helper \<Rightarrow> helper" where
  "insert_key key st = st\<lparr>keySet := insert key (keySet st)\<rparr>"

text \<open>
  \<open>create\<close> is the call of the generated client, which is oneway: it returns when the entry is sent.
  What it does to the state \<open>'s\<close> of the service is a parameter: \<open>kv_create\<close> stores the entry
  at once, \<open>mail_create\<close> puts it on its way to the server, where it arrives later.

  The three branches that hold the lock.  An exception (a value longer than \<open>VALUE_SIZE\<close>, a failed
  call of the server) leaves them with the state as it is then: the lock is not given back.
\<close>

definition run_create :: "sodium \<Rightarrow> (entry \<Rightarrow> 's \<Rightarrow> 's) \<Rightarrow> fresh \<Rightarrow> operation \<Rightarrow>
    proxy \<times> 's \<Rightarrow> bytes res \<times> proxy \<times> 's" where
  "run_create S create F ope = (\<lambda>(px, sv).
    (case constructCreateEntry S F (op_key ope) (op_value ope) (hlp px) of
       (Inl er, st) \<Rightarrow> (Inl er, px\<lparr>hlp := st\<rparr>, sv)
     | (Inr createEntry, st) \<Rightarrow>
         let st = insert_key (op_key ope) (set_value_size (op_key ope) (op_value ope) st)
         in (Inr [], finish (op_key ope) (px\<lparr>hlp := st\<rparr>), create createEntry sv)))"

definition run_get :: "sodium \<Rightarrow> (entry \<Rightarrow> 's \<Rightarrow> bytes res \<times> 's) \<Rightarrow> fresh \<Rightarrow> byte \<Rightarrow> operation \<Rightarrow>
    proxy \<times> 's \<Rightarrow> bytes res \<times> proxy \<times> 's" where
  "run_get S access F c ope = (\<lambda>(px, sv).
    (case constructGetEntry S F (op_key ope) (hlp px) of
       (Inl er, st) \<Rightarrow> (Inl er, px\<lparr>hlp := st\<rparr>, sv)
     | (Inr getEntry, st) \<Rightarrow>
        (case access getEntry sv of
           (Inl er, sv) \<Rightarrow> (Inl er, px\<lparr>hlp := st\<rparr>, sv)
         | (Inr labels, sv) \<Rightarrow>
            (case readValueFromLabels S c (op_key ope) labels st of
               (Inl er, st) \<Rightarrow> (Inl er, px\<lparr>hlp := st\<rparr>, sv)
             | (Inr value, st) \<Rightarrow> (Inr value, finish (op_key ope) (px\<lparr>hlp := st\<rparr>), sv)))))"

definition run_put :: "sodium \<Rightarrow> (entry \<Rightarrow> 's \<Rightarrow> bytes res \<times> 's) \<Rightarrow> fresh \<Rightarrow> operation \<Rightarrow>
    proxy \<times> 's \<Rightarrow> bytes res \<times> proxy \<times> 's" where
  "run_put S access F ope = (\<lambda>(px, sv).
    (case constructPutEntry S F (op_key ope) (op_value ope) (hlp px) of
       (Inl er, st) \<Rightarrow> (Inl er, px\<lparr>hlp := st\<rparr>, sv)
     | (Inr putEntry, st) \<Rightarrow>
        let st = set_value_size (op_key ope) (op_value ope) st in
        (case access putEntry sv of
           (Inl er, sv) \<Rightarrow> (Inl er, px\<lparr>hlp := st\<rparr>, sv)
         | (Inr labels, sv) \<Rightarrow> (Inr [], finish (op_key ope) (px\<lparr>hlp := st\<rparr>), sv))))"

definition handleOp :: "sodium \<Rightarrow> (entry \<Rightarrow> 's \<Rightarrow> 's) \<Rightarrow> (entry \<Rightarrow> 's \<Rightarrow> bytes res \<times> 's) \<Rightarrow>
    fresh \<Rightarrow> byte \<Rightarrow> operation \<Rightarrow> proxy \<times> 's \<Rightarrow> bytes res \<times> proxy \<times> 's" where
  "handleOp S create access F c ope = (\<lambda>(px, sv).
    if op_key ope \<notin> keySet (hlp px) then
      if op_op ope = ''GET'' then (Inr [], count_abort px, sv)
      else
        let (got, st) = exchange (op_key ope) False (hlp px) in
        if got then run_create S create F ope (px\<lparr>hlp := st\<rparr>, sv)
        else (Inr [], count_abort (px\<lparr>hlp := st\<rparr>), sv)
    else
      let (got, st) = exchange (op_key ope) False (hlp px) in
      if got then
        if op_op ope = ''GET'' then run_get S access F c ope (px\<lparr>hlp := st\<rparr>, sv)
        else run_put S access F ope (px\<lparr>hlp := st\<rparr>, sv)
      else (Inr [], count_abort (px\<lparr>hlp := st\<rparr>), sv))"

text \<open>\<open>Send_OpHandler::access\<close> opens a connection first, which throws when the server is down.\<close>

definition proxy_access :: "('s \<Rightarrow> bool) \<Rightarrow> sodium \<Rightarrow> (entry \<Rightarrow> 's \<Rightarrow> 's) \<Rightarrow>
    (entry \<Rightarrow> 's \<Rightarrow> bytes res \<times> 's) \<Rightarrow> fresh \<Rightarrow> byte \<Rightarrow> operation \<Rightarrow> proxy \<times> 's \<Rightarrow>
    bytes res \<times> proxy \<times> 's" where
  "proxy_access up S create access F c ope = (\<lambda>(px, sv).
     if up sv then handleOp S create access F c ope (px, sv) else (Inl TransportError, px, sv))"

fun proxy_run :: "('s \<Rightarrow> bool) \<Rightarrow> sodium \<Rightarrow> (entry \<Rightarrow> 's \<Rightarrow> 's) \<Rightarrow>
    (entry \<Rightarrow> 's \<Rightarrow> bytes res \<times> 's) \<Rightarrow> (fresh \<times> byte \<times> operation) list \<Rightarrow> proxy \<times> 's \<Rightarrow>
    bytes res list \<times> proxy \<times> 's" where
  "proxy_run up S create access [] w = ([], w)"
| "proxy_run up S create access ((F, c, ope) # rest) w =
     (let (r, w') = proxy_access up S create access F c ope w;
          (rs, w'') = proxy_run up S create access rest w'
      in (r # rs, w''))"

section \<open>Start-up and shutdown\<close>

definition setup_locks :: "nat \<Rightarrow> (string \<rightharpoonup> bool) \<Rightarrow> string \<rightharpoonup> bool" where
  "setup_locks n l = foldl (\<lambda>m i. m(to_string i \<mapsto> True)) l [0..<n]"

text \<open>
  Boost's text archive is a parameter: \<open>load\<close> reads back the three containers of a file.
\<close>

type_synonym saved = "string set \<times> (string \<rightharpoonup> int) \<times> (string \<rightharpoonup> bytes)"

definition OpScureSetup :: "('f \<Rightarrow> saved) \<Rightarrow> 'f option \<Rightarrow> helper \<Rightarrow> helper" where
  "OpScureSetup load file st =
    (let st = st\<lparr>locks := setup_locks KEY_MAX (locks st)\<rparr> in
     case file of None \<Rightarrow> st
     | Some f \<Rightarrow> (case load f of (ks, vs, mks) \<Rightarrow>
         st\<lparr>keySet := ks, valueSizes := vs, masterKeys := mks\<rparr>))"

definition OpScureCleanup :: "(saved \<Rightarrow> 'f) \<Rightarrow> helper \<Rightarrow> 'f" where
  "OpScureCleanup save st = save (keySet st, valueSizes st, masterKeys st)"

text \<open>The globals of the process before \<open>main\<close>: every container is empty.\<close>

definition helper0 :: helper where
  "helper0 = \<lparr>keySet = {}, valueSizes = Map.empty, masterKeys = Map.empty, locks = Map.empty\<rparr>"

definition proxy_start :: "('f \<Rightarrow> saved) \<Rightarrow> 'f option \<Rightarrow> proxy" where
  "proxy_start load file = \<lparr>hlp = OpScureSetup load file helper0, accesses = 0, aborted = 0\<rparr>"

definition key_names :: "string set" where
  "key_names = to_string ` {..<KEY_MAX}"

lemma setup_locks_apply:
  "setup_locks n l k = (if k \<in> to_string ` {..<n} then Some True else l k)"
proof (induction n)
  case (Suc n)
  have "setup_locks (Suc n) l = (setup_locks n l)(to_string n \<mapsto> True)"
    by (simp add: setup_locks_def)
  with Suc show ?case by (auto simp: lessThan_Suc)
qed (simp add: setup_locks_def)

lemma setup_locks_key_names: "setup_locks KEY_MAX l k = (if k \<in> key_names then Some True else l k)"
  unfolding key_names_def by (rule setup_locks_apply)

end
