(* ===== verification/LabelRefinement.thy ===== *)
theory LabelRefinement
  imports LabelProxy
begin

text \<open>
  The proxy over the server refines an abstract store: a map of values, the set of keys whose lock
  is free, and the two counters.  The locale \<open>kv_service\<close> is what the proxy needs of the service;
  a key is \<open>settled\<close> when no create for it is on its way.  The locale is interpreted on the handler of
  \<open>server.cpp\<close>, first with creates that are stored at once, where every key is settled, and in
  \<open>LabelMail\<close> with creates that arrive later.
\<close>

section \<open>The abstract store\<close>

record kv_spec =
  vals :: "string \<rightharpoonup> bytes"
  avail :: "string set"
  n_done :: "32 word"
  n_aborted :: "32 word"

text \<open>
  What a GET returns of a stored value: the bytes the server served, and \<open>0xFF\<close> for the rest.
\<close>

definition garble :: "bytes \<Rightarrow> bytes" where
  "garble v = take (length v) (take SERVED_BYTES (pad v) @ replicate (VALUE_SIZE - SERVED_BYTES) 255)"

definition spec_op :: "operation \<Rightarrow> kv_spec \<Rightarrow> bytes res \<times> kv_spec" where
  "spec_op ope A =
    (let key = op_key ope; is_get = (op_op ope = ''GET'') in
     if key \<notin> avail A \<or> (is_get \<and> vals A key = None) then (Inr [], A\<lparr>n_aborted := n_aborted A + 1\<rparr>)
     else if is_get then (Inr (garble (the (vals A key))), A\<lparr>n_done := n_done A + 1\<rparr>)
     else if VALUE_SIZE < length (op_value ope) then (Inl LengthError, A\<lparr>avail := avail A - {key}\<rparr>)
     else (Inr [], A\<lparr>vals := (vals A)(key \<mapsto> op_value ope), n_done := n_done A + 1\<rparr>))"

fun spec_run :: "operation list \<Rightarrow> kv_spec \<Rightarrow> bytes res list \<times> kv_spec" where
  "spec_run [] A = ([], A)"
| "spec_run (ope # rest) A =
     (let (r, A') = spec_op ope A; (rs, A'') = spec_run rest A' in (r # rs, A''))"

definition ops_of :: "(fresh \<times> byte \<times> operation) list \<Rightarrow> operation list" where
  "ops_of xs = map (snd \<circ> snd) xs"

definition spec0 :: kv_spec where
  "spec0 = \<lparr>vals = Map.empty, avail = key_names, n_done = 0, n_aborted = 0\<rparr>"

lemma garble_short: "length v \<le> SERVED_BYTES \<Longrightarrow> garble v = v"
  using SERVED_bytes(2) by (simp add: garble_def pad_def)

lemma length_garble: "length v \<le> VALUE_SIZE \<Longrightarrow> length (garble v) = length v"
  using SERVED_bytes(2) by (simp add: garble_def length_pad)

lemma garble_nth:
  "i < length v \<Longrightarrow> length v \<le> VALUE_SIZE \<Longrightarrow> garble v ! i = (if i < SERVED_BYTES then v ! i else 255)"
  using SERVED_bytes(2) by (auto simp: garble_def nth_append pad_def min_def)

section \<open>The interface of the service\<close>

locale kv_service =
  fixes S :: sodium
    and create :: "entry \<Rightarrow> 's \<Rightarrow> 's"
    and access :: "entry \<Rightarrow> 's \<Rightarrow> bytes res \<times> 's"
    and stored :: "'s \<Rightarrow> string \<Rightarrow> bytes option"
    and up :: "'s \<Rightarrow> bool"
    and settled :: "'s \<Rightarrow> string \<Rightarrow> bool"
    and ok :: bool
  assumes ok_sodium: "ok \<Longrightarrow> sodium_ok S"
    and create_up: "ok \<Longrightarrow> up sv \<Longrightarrow> up (create e sv)"
    and create_stored: "ok \<Longrightarrow> up sv \<Longrightarrow>
      stored (create e sv) = (stored sv)(keyName e \<mapsto> encryptedLabelsA e)"
    and access_rekey: "ok \<Longrightarrow> up sv \<Longrightarrow> settled sv key \<Longrightarrow> fresh_ok F \<Longrightarrow> (\<And>l p. length (plain l p) = 1 + KEYBYTES) \<Longrightarrow>
      stored sv key = Some lab \<Longrightarrow> encodes S old bits lab \<Longrightarrow> (\<And>p. bits p \<in> {0, 1, 2, 3}) \<Longrightarrow>
      out = answer (\<lambda>p. plain (lane_at (aux S old p XOR bits p)) p) \<Longrightarrow>
      \<exists>sv'. access (entry_of key (block_mem POSITIONS (rekey_lanes plain S F old))) sv = (Inr out, sv') \<and>
        up sv' \<and> stored sv' = (stored sv)(key \<mapsto> out)"

interpretation kv: kv_service S "kv_create K" "kv_access S K" "\<lambda>sv. kv_get K (db sv)" running
    "\<lambda>_ _. True" "sodium_ok S \<and> kvs_ok K"
  for S :: sodium and K :: "'d kvs"
proof (unfold_locales, goal_cases)
  case (4 sv key F plain lab old bits out)
  then show ?case
    using kv_access_ok [of sv S F plain K key lab old bits]
    by (auto simp: kvs_ok_def fun_eq_iff)
qed (auto simp: kv_create_def kvs_ok_def fun_eq_iff)

section \<open>The representation of the abstract store\<close>

definition key_rep :: "sodium \<Rightarrow> (string \<rightharpoonup> bytes) \<Rightarrow> helper \<Rightarrow> string \<Rightarrow> bytes \<Rightarrow> bool" where
  "key_rep S stored st key v \<longleftrightarrow> length v \<le> VALUE_SIZE \<and> valueSizes st key = Some (int (length v)) \<and>
    (\<exists>mk lab. masterKeys st key = Some mk \<and> length mk = KEYBYTES \<and> stored key = Some lab \<and>
       encodes S mk (pair (pad v)) lab)"

definition rep :: "sodium \<Rightarrow> (string \<rightharpoonup> bytes) \<Rightarrow> kv_spec \<Rightarrow> proxy \<Rightarrow> bool" where
  "rep S stored A px \<longleftrightarrow>
    keySet (hlp px) = dom (vals A) \<and>
    (\<forall>key. at_default (locks (hlp px)) False key \<longleftrightarrow> key \<in> avail A) \<and>
    accesses px = n_done A \<and> aborted px = n_aborted A \<and>
    (\<forall>key v. vals A key = Some v \<longrightarrow> key_rep S stored (hlp px) key v)"

text \<open>The randomness of one operation is good for a subkey derivation without collisions.\<close>

definition fresh_good :: "sodium \<Rightarrow> fresh \<Rightarrow> bool" where
  "fresh_good S F \<longleftrightarrow> fresh_ok F \<and> subkeys_distinct S (keygen F) \<and> subkeys_nonzero S (keygen F)"

lemma key_rep_cong:
  "valueSizes st' key = valueSizes st key \<Longrightarrow> masterKeys st' key = masterKeys st key \<Longrightarrow>
    stored' key = stored key \<Longrightarrow> key_rep S stored' st' key v \<longleftrightarrow> key_rep S stored st key v"
  by (simp add: key_rep_def)

lemma at_default_upd: "at_default (m(k \<mapsto> v)) d k' = (if k' = k then v else at_default m d k')"
  by (simp add: at_default_def)

lemma int_of_value_size: "length v \<le> VALUE_SIZE \<Longrightarrow> int_of_size (length v) = int (length v)"
  by (rule int_of_size_small) (simp add: layout)

text \<open>What an operation that ends well does to one key, and to the lock it held.\<close>

lemma rep_finish:
  assumes rep: "rep S stored A px"
    and key: "key \<in> avail A" and v: "key_rep S stored' st' key v"
    and other: "\<And>k. k \<noteq> key \<Longrightarrow> valueSizes st' k = valueSizes (hlp px) k \<and>
      masterKeys st' k = masterKeys (hlp px) k \<and> stored' k = stored k"
    and ks: "keySet st' = insert key (keySet (hlp px))"
    and lk: "locks st' = (locks (hlp px))(key \<mapsto> False)"
  shows "rep S stored' (A\<lparr>vals := (vals A)(key \<mapsto> v), n_done := n_done A + 1\<rparr>)
    (finish key (px\<lparr>hlp := st'\<rparr>))"
proof -
  have "key_rep S stored' (st'\<lparr>locks := l\<rparr>) k w" if "((vals A)(key \<mapsto> v)) k = Some w" for k w l
  proof (cases "k = key")
    case True
    with that v show ?thesis by (simp add: key_rep_def)
  next
    case False
    with that have "vals A k = Some w" by simp
    with rep have "key_rep S stored (hlp px) k w" by (simp add: rep_def)
    with other [OF False] show ?thesis by (simp add: key_rep_def)
  qed
  with rep key ks lk show ?thesis
    by (simp add: rep_def finish_def exchange_def at_default_upd del: fun_upd_apply)
qed

lemma rep_abort:
  assumes "rep S stored A px" and "key \<notin> avail A"
  shows "rep S stored (A\<lparr>n_aborted := n_aborted A + 1\<rparr>)
    (count_abort (px\<lparr>hlp := snd (exchange key False (hlp px))\<rparr>))"
  using assms by (auto simp: rep_def count_abort_def exchange_def at_default_upd key_rep_def)

lemma rep_count_abort:
  "rep S stored A px \<Longrightarrow> rep S stored (A\<lparr>n_aborted := n_aborted A + 1\<rparr>) (count_abort px)"
  by (simp add: rep_def count_abort_def)

text \<open>What an operation that throws before it changed the key's state does: the lock stays taken.\<close>

lemma rep_leak:
  assumes "rep S stored A px"
  shows "rep S stored (A\<lparr>avail := avail A - {key}\<rparr>) (px\<lparr>hlp := snd (exchange key False (hlp px))\<rparr>)"
  using assms by (auto simp: rep_def exchange_def at_default_upd key_rep_def)

section \<open>The handler refines the abstract store\<close>

lemma read_answer:
  assumes "sodium_ok S" and "subkeys_distinct S mk" and "subkeys_nonzero S mk" and "length mk = KEYBYTES"
    and "masterKeys st key = Some mk" and "valueSizes st key = Some (int (length v))"
    and "length v \<le> VALUE_SIZE"
  shows "readValueFromLabels S c key (answer (\<lambda>p. label S mk p (pair (pad v) p))) st = (Inr (garble v), st)"
proof -
  have "length (answer (\<lambda>p. label S mk p (pair (pad v) p))) = BLOCK_SIZE"
    by (rule length_answer) (simp add: length_label assms(1))
  moreover have "length v < 2 ^ 62" using assms(7) by (simp add: layout)
  moreover have "(valueSizes st)(key \<mapsto> int (length v)) = valueSizes st"
    using assms(6) by (simp add: fun_eq_iff)
  ultimately show ?thesis
    using decode_answer [OF assms(1-3) length_pad [OF assms(7)]]
    by (simp add: readValueFromLabels_eq [OF assms(5,4)] assms(6) substr0_nat garble_def)
qed

lemma lane_bits_pair: "lane_bits S old (lane_at (aux S old p XOR pair v p)) p = pair v p"
  by (rule lane_bits_at [OF pair_cases])

context kv_service
begin

lemma run_create_refines:
  assumes ok: "ok" and sv: "up sv" and F: "fresh_good S F" and rep: "rep S (stored sv) A px"
    and key: "op_key ope \<in> avail A" and new: "vals A (op_key ope) = None"
    and len: "length (op_value ope) \<le> VALUE_SIZE"
  shows "\<exists>px' sv'. run_create S create F ope (px\<lparr>hlp := snd (exchange (op_key ope) False (hlp px))\<rparr>, sv) =
      (Inr [], px', sv') \<and> up sv' \<and>
    rep S (stored sv') (A\<lparr>vals := (vals A)(op_key ope \<mapsto> op_value ope), n_done := n_done A + 1\<rparr>) px'"
proof -
  let ?key = "op_key ope" and ?v = "op_value ope" and ?mk = "keygen F"
  let ?st = "snd (exchange ?key False (hlp px))"
  let ?e = "entry_of ?key (block_mem POSITIONS (create_lanes S (pad ?v) ?mk))"
  let ?st' = "insert_key ?key (set_value_size ?key ?v (?st\<lparr>masterKeys := (masterKeys ?st)(?key \<mapsto> ?mk)\<rparr>))"
  have F': "fresh_ok F" "length ?mk = KEYBYTES" using F by (simp_all add: fresh_good_def length_keygen)
  have stored: "stored (create ?e sv) = (stored sv)(?key \<mapsto> encryptedLabelsA ?e)"
    using create_stored [OF ok sv] by simp
  have "key_rep S (stored (create ?e sv)) ?st' ?key ?v"
    using F'(2) len encodes_create [OF ok_sodium [OF ok]]
    by (simp add: key_rep_def stored insert_key_def set_value_size_def exchange_def int_of_value_size)
  then have "rep S (stored (create ?e sv)) (A\<lparr>vals := (vals A)(?key \<mapsto> ?v), n_done := n_done A + 1\<rparr>)
      (finish ?key (px\<lparr>hlp := ?st'\<rparr>))"
    by (rule rep_finish [OF rep key])
      (simp_all add: insert_key_def set_value_size_def exchange_def stored)
  then show ?thesis
    using create_up [OF ok sv]
    by (simp add: run_create_def constructCreateEntry_ok [OF ok_sodium [OF ok] F'(1) len] Let_def)
qed

lemma run_get_refines:
  assumes ok: "ok" and sv: "up sv" and set: "settled sv (op_key ope)" and F: "fresh_good S F" and rep: "rep S (stored sv) A px"
    and key: "op_key ope \<in> avail A" and old: "vals A (op_key ope) = Some v"
  shows "\<exists>px' sv'. run_get S access F c ope (px\<lparr>hlp := snd (exchange (op_key ope) False (hlp px))\<rparr>, sv) =
      (Inr (garble v), px', sv') \<and> up sv' \<and> rep S (stored sv') (A\<lparr>n_done := n_done A + 1\<rparr>) px'"
proof -
  let ?key = "op_key ope" and ?mk = "keygen F"
  let ?st = "snd (exchange ?key False (hlp px))"
  let ?st' = "?st\<lparr>masterKeys := (masterKeys ?st)(?key \<mapsto> ?mk)\<rparr>"
  let ?out = "answer (\<lambda>p. label S ?mk p (pair (pad v) p))"
  note S = ok_sodium [OF ok]
  have F': "fresh_ok F" "subkeys_distinct S ?mk" "subkeys_nonzero S ?mk" "length ?mk = KEYBYTES"
    using F by (simp_all add: fresh_good_def length_keygen)
  from rep old have "key_rep S (stored sv) (hlp px) ?key v" by (simp add: rep_def)
  then obtain mk lab where v: "length v \<le> VALUE_SIZE" "valueSizes (hlp px) ?key = Some (int (length v))"
    and mk: "masterKeys ?st ?key = Some mk" "length mk = KEYBYTES"
    and lab: "stored sv ?key = Some lab" "encodes S mk (pair (pad v)) lab"
    by (auto simp: key_rep_def exchange_def)
  have "?out = answer (\<lambda>p. get_plain S mk ?mk (lane_at (aux S mk p XOR pair (pad v) p)) p)"
    by (simp add: get_plain_def lane_bits_pair)
  from access_rekey [where plain = "get_plain S mk ?mk" and bits = "pair (pad v)",
      OF ok sv set F'(1) length_get_plain [OF S] lab pair_cases this]
  obtain sv' where access: "access (entry_of ?key (block_mem POSITIONS
      (rekey_lanes (get_plain S mk ?mk) S F mk))) sv = (Inr ?out, sv')"
    and sv': "up sv'" "stored sv' = (stored sv)(?key \<mapsto> ?out)" by blast
  have read: "readValueFromLabels S c ?key ?out ?st' = (Inr (garble v), ?st')"
    by (rule read_answer [OF S F'(2,3,4) _ _ v(1)]) (simp_all add: exchange_def v(2))
  have "key_rep S (stored sv') ?st' ?key v"
    using encodes_answer [OF S] F'(4) v by (simp add: key_rep_def sv'(2) exchange_def)
  then have "rep S (stored sv') (A\<lparr>vals := (vals A)(?key \<mapsto> v), n_done := n_done A + 1\<rparr>)
      (finish ?key (px\<lparr>hlp := ?st'\<rparr>))"
    using rep old by (intro rep_finish [OF rep key]) (auto simp: exchange_def sv'(2) rep_def)
  moreover have "(vals A)(?key \<mapsto> v) = vals A" using old by (simp add: fun_eq_iff)
  ultimately show ?thesis
    using constructGetEntry_ok [OF S F'(1) mk] access read sv'(1) by (simp add: run_get_def)
qed

lemma run_put_refines:
  assumes ok: "ok" and sv: "up sv" and set: "settled sv (op_key ope)" and F: "fresh_good S F" and rep: "rep S (stored sv) A px"
    and key: "op_key ope \<in> avail A" and old: "vals A (op_key ope) = Some v"
    and len: "length (op_value ope) \<le> VALUE_SIZE"
  shows "\<exists>px' sv'. run_put S access F ope (px\<lparr>hlp := snd (exchange (op_key ope) False (hlp px))\<rparr>, sv) =
      (Inr [], px', sv') \<and> up sv' \<and>
    rep S (stored sv') (A\<lparr>vals := (vals A)(op_key ope \<mapsto> op_value ope), n_done := n_done A + 1\<rparr>) px'"
proof -
  let ?key = "op_key ope" and ?v = "op_value ope" and ?mk = "keygen F"
  let ?st = "snd (exchange ?key False (hlp px))"
  let ?st' = "set_value_size ?key ?v (?st\<lparr>masterKeys := (masterKeys ?st)(?key \<mapsto> ?mk)\<rparr>)"
  let ?out = "answer (\<lambda>p. label S ?mk p (pair (pad ?v) p))"
  note S = ok_sodium [OF ok]
  have F': "fresh_ok F" "length ?mk = KEYBYTES" using F by (simp_all add: fresh_good_def length_keygen)
  from rep old have "key_rep S (stored sv) (hlp px) ?key v" by (simp add: rep_def)
  then obtain mk lab where mk: "masterKeys ?st ?key = Some mk" "length mk = KEYBYTES"
    and lab: "stored sv ?key = Some lab" "encodes S mk (pair (pad v)) lab"
    by (auto simp: key_rep_def exchange_def)
  have "?out = answer (\<lambda>p. put_plain S (pad ?v) ?mk (lane_at (aux S mk p XOR pair (pad v) p)) p)"
    by (simp add: put_plain_def)
  from access_rekey [where plain = "put_plain S (pad ?v) ?mk" and bits = "pair (pad v)",
      OF ok sv set F'(1) length_put_plain [OF S] lab pair_cases this]
  obtain sv' where access: "access (entry_of ?key (block_mem POSITIONS
      (rekey_lanes (put_plain S (pad ?v) ?mk) S F mk))) sv = (Inr ?out, sv')"
    and sv': "up sv'" "stored sv' = (stored sv)(?key \<mapsto> ?out)" by blast
  have "key_rep S (stored sv') ?st' ?key ?v"
    using encodes_answer [OF S] F'(2) len
    by (simp add: key_rep_def sv'(2) exchange_def set_value_size_def int_of_value_size)
  then have "rep S (stored sv') (A\<lparr>vals := (vals A)(?key \<mapsto> ?v), n_done := n_done A + 1\<rparr>)
      (finish ?key (px\<lparr>hlp := ?st'\<rparr>))"
    using rep old by (intro rep_finish [OF rep key]) (auto simp: exchange_def set_value_size_def sv'(2) rep_def)
  then show ?thesis
    using constructPutEntry_ok [OF S F'(1) len mk] access sv'(1) by (simp add: run_put_def Let_def)
qed

lemma handleOp_too_long:
  assumes S: "sodium_ok S" and rep: "rep S (stored sv) A px" and key: "op_key ope \<in> avail A"
    and len: "VALUE_SIZE < length (op_value ope)" "length (op_value ope) < 2 ^ 62" and put: "op_op ope \<noteq> ''GET''"
  shows "handleOp S create access F c ope (px, sv) =
    (Inl LengthError, px\<lparr>hlp := snd (exchange (op_key ope) False (hlp px))\<rparr>, sv)"
proof -
  have "fst (exchange (op_key ope) False (hlp px))"
    using rep key by (simp add: exchange_def rep_def)
  with put padToLen_too_long [OF len] show ?thesis
    by (simp add: handleOp_def case_prod_beta run_create_def run_put_def constructCreateEntry_def
        constructPutEntry_def)
qed

lemma handleOp_refines:
  assumes ok: "ok" and sv: "up sv" and set: "settled sv (op_key ope)" and F: "fresh_good S F" and rep: "rep S (stored sv) A px"
    and len: "length (op_value ope) < 2 ^ 62"
  shows "\<exists>px' sv'. handleOp S create access F c ope (px, sv) = (fst (spec_op ope A), px', sv') \<and>
    up sv' \<and> rep S (stored sv') (snd (spec_op ope A)) px'"
proof -
  let ?key = "op_key ope" and ?get = "op_op ope = ''GET''"
  have known: "?key \<in> keySet (hlp px) \<longleftrightarrow> (\<exists>v. vals A ?key = Some v)" using rep by (auto simp: rep_def)
  have lock: "fst (exchange ?key False (hlp px)) \<longleftrightarrow> ?key \<in> avail A"
    using rep by (simp add: rep_def exchange_def)
  show ?thesis
  proof (cases "?get \<and> vals A ?key = None")
    case True
    then show ?thesis
      using known sv rep_count_abort [OF rep] by (auto simp: handleOp_def spec_op_def)
  next
    case found: False
    show ?thesis
    proof (cases "?key \<in> avail A")
      case False
      then show ?thesis
        using found known lock sv rep_abort [OF rep False]
        by (auto simp: handleOp_def spec_op_def case_prod_beta)
    next
      case free: True
      show ?thesis
      proof (cases "\<not> ?get \<and> VALUE_SIZE < length (op_value ope)")
        case True
        then show ?thesis
          using handleOp_too_long [OF ok_sodium [OF ok] rep free _ len] sv free rep_leak [OF rep]
          by (simp add: spec_op_def)
      next
        case fits: False
        show ?thesis
        proof (cases "vals A ?key")
          case None
          with found fits have "length (op_value ope) \<le> VALUE_SIZE" by auto
          from run_create_refines [OF ok sv F rep free None this] found None fits free lock known
          show ?thesis by (auto simp: handleOp_def spec_op_def case_prod_beta)
        next
          case (Some v)
          show ?thesis
          proof (cases ?get)
            case True
            with run_get_refines [OF ok sv set F rep free Some] Some free lock known
            show ?thesis by (auto simp: handleOp_def spec_op_def case_prod_beta)
          next
            case False
            with fits have "length (op_value ope) \<le> VALUE_SIZE" by auto
            from run_put_refines [OF ok sv set F rep free Some this] False Some fits free lock known
            show ?thesis by (auto simp: handleOp_def spec_op_def case_prod_beta)
          qed
        qed
      qed
    qed
  qed
qed

lemma proxy_access_refines:
  assumes "ok" and "up sv" and "settled sv (op_key ope)" and "fresh_good S F" and "rep S (stored sv) A px"
    and "length (op_value ope) < 2 ^ 62"
  shows "\<exists>px' sv'. proxy_access up S create access F c ope (px, sv) = (fst (spec_op ope A), px', sv') \<and>
    up sv' \<and> rep S (stored sv') (snd (spec_op ope A)) px'"
  using handleOp_refines [OF assms] assms(2) by (simp add: proxy_access_def)

text \<open>A whole run returns what the abstract store returns, when every key is settled at all times.\<close>

lemma proxy_run_refines:
  assumes "ok" and set: "\<And>sv key. settled sv key" and "\<forall>(F, c, ope) \<in> set ops. fresh_good S F \<and> length (op_value ope) < 2 ^ 62"
    and "up sv" and "rep S (stored sv) A px"
  shows "\<exists>px' sv'. proxy_run up S create access ops (px, sv) =
      (fst (spec_run (ops_of ops) A), px', sv') \<and>
    up sv' \<and> rep S (stored sv') (snd (spec_run (ops_of ops) A)) px'"
  using assms(3-5)
proof (induction ops arbitrary: A px sv)
  case Nil
  then show ?case by (simp add: ops_of_def)
next
  case (Cons x ops)
  obtain F c ope where x: "x = (F, c, ope)" by (cases x)
  with Cons.prems have "fresh_good S F" "length (op_value ope) < 2 ^ 62" by auto
  from proxy_access_refines [OF assms(1) Cons.prems(2) set this(1) Cons.prems(3) this(2), of c]
  obtain px' sv' where step: "proxy_access up S create access F c ope (px, sv) = (fst (spec_op ope A), px', sv')"
    and sv': "up sv'" "rep S (stored sv') (snd (spec_op ope A)) px'" by blast
  from Cons.IH [OF _ sv'] Cons.prems(1) obtain px'' sv'' where
    "proxy_run up S create access ops (px', sv') =
      (fst (spec_run (ops_of ops) (snd (spec_op ope A))), px'', sv'')"
    "up sv''" "rep S (stored sv'') (snd (spec_run (ops_of ops) (snd (spec_op ope A)))) px''"
    by auto
  with step show ?case by (simp add: x case_prod_beta ops_of_def)
qed

end

lemma rep_start: "rep S stored spec0 (proxy_start load None)"
  by (simp add: rep_def spec0_def proxy_start_def OpScureSetup_def helper0_def at_default_def
      setup_locks_key_names)

text \<open>A restart reads the saved state back and frees every lock.\<close>

lemma rep_restart:
  assumes "rep S stored A px" and "\<And>x. load (save x) = x"
  shows "rep S stored \<lparr>vals = vals A, avail = key_names, n_done = 0, n_aborted = 0\<rparr>
    (proxy_start load (Some (OpScureCleanup save (hlp px))))"
  using assms by (auto simp: rep_def proxy_start_def OpScureSetup_def OpScureCleanup_def helper0_def
      at_default_def setup_locks_key_names key_rep_def)

section \<open>The abstract store\<close>

text \<open>The lock of a key is never given back once it is lost.\<close>

lemma spec_op_avail: "avail (snd (spec_op ope A)) \<subseteq> avail A"
  by (auto simp: spec_op_def Let_def)

lemma spec_run_avail: "avail (snd (spec_run ops A)) \<subseteq> avail A"
proof (induction ops arbitrary: A)
  case (Cons ope ops)
  from Cons [of "snd (spec_op ope A)"] spec_op_avail [of ope A] show ?case
    by (auto simp: case_prod_beta)
qed simp

lemma spec_run_append:
  "spec_run (xs @ ys) A = (let (rs, A') = spec_run xs A; (rs', A'') = spec_run ys A' in (rs @ rs', A''))"
  by (induction xs arbitrary: A) (simp_all add: case_prod_beta Let_def)

lemma spec_op_locked: "op_key ope \<notin> avail A \<Longrightarrow>
    spec_op ope A = (Inr [], A\<lparr>n_aborted := n_aborted A + 1\<rparr>)"
  by (simp add: spec_op_def Let_def)

end
