(* ===== verification/LabelExamples.thy ===== *)
theory LabelExamples
  imports LabelRefinement
begin

text \<open>
  Concrete instances of the parameters of ORTOA-LBL, on which its theorems are applied: a key
  derivation that writes the subkey number into the subkey, a sealed box that carries its key as
  the tag, and a database that is a map.
\<close>

definition toy_sodium :: sodium where
  "toy_sodium = \<lparr>
     kdf_derive = (\<lambda>n i ctx k. take n ([of_nat (i mod 256), of_nat (i div 256), 1] @ k @ replicate n 0)),
     secretbox_easy = (\<lambda>m n k. take MACBYTES (k @ replicate MACBYTES 0) @ m),
     secretbox_open_easy = (\<lambda>c n k.
       if MACBYTES \<le> length c \<and> take MACBYTES c = take MACBYTES (k @ replicate MACBYTES 0)
       then Some (drop MACBYTES c) else None)\<rparr>"

definition toy_kvs :: "(string \<rightharpoonup> bytes) kvs" where
  "toy_kvs = \<lparr>kv_get = (\<lambda>d k. d k), kv_put = (\<lambda>d k v. d(k \<mapsto> v))\<rparr>"

definition toy_fresh :: "byte \<Rightarrow> fresh" where
  "toy_fresh x = \<lparr>keygen = replicate KEYBYTES x, nonces = (\<lambda>i j l. replicate NONCEBYTES x)\<rparr>"

definition toy_server :: "(string \<rightharpoonup> bytes) server" where
  "toy_server = \<lparr>db = Map.empty, running = True, access_count = 0\<rparr>"

lemma toy_sodium_ok: "sodium_ok toy_sodium"
  by (auto simp: sodium_ok_def toy_sodium_def layout)

lemma toy_kvs_ok: "kvs_ok toy_kvs"
  by (simp add: kvs_ok_def toy_kvs_def)

lemma toy_fresh_ok: "fresh_ok (toy_fresh x)"
  by (simp add: fresh_ok_def toy_fresh_def)

lemma toy_keygen [simp]: "keygen (toy_fresh x) = replicate KEYBYTES x"
  by (simp add: toy_fresh_def)

lemma toy_sub: "take 3 (sub toy_sodium k i) = [of_nat (i mod 256), of_nat (i div 256), 1]"
  by (simp add: sub_def toy_sodium_def layout)

lemma toy_distinct: "subkeys_distinct toy_sodium k"
proof (unfold subkeys_distinct_def, intro allI impI)
  fix i j
  assume small: "i < 5 * POSITIONS" "j < 5 * POSITIONS" and eq: "sub toy_sodium k i = sub toy_sodium k j"
  from eq toy_sub [of k i] toy_sub [of k j]
  have "(of_nat (i mod 256) :: byte) = of_nat (j mod 256)" "(of_nat (i div 256) :: byte) = of_nat (j div 256)"
    by simp_all
  from this [THEN arg_cong [of _ _ unat]] small have "i mod 256 = j mod 256" "i div 256 = j div 256"
    by (simp_all add: unat_of_nat layout)
  then show "i = j" by (metis div_mult_mod_eq)
qed

lemma toy_nonzero: "subkeys_nonzero toy_sodium k"
proof (unfold subkeys_nonzero_def, intro allI impI notI)
  fix i
  assume "sub toy_sodium k i = replicate KEYBYTES 0"
  then have "take 3 (sub toy_sodium k i) ! 2 = 0" by (simp add: layout)
  then show False by (simp add: toy_sub)
qed

lemma toy_fresh_good: "fresh_good toy_sodium (toy_fresh x)"
  by (simp add: fresh_good_def toy_fresh_ok toy_distinct toy_nonzero)

lemma toy_key: "''5'' \<in> key_names"
proof -
  have "to_string 5 = ''5''" by (simp add: to_string.simps digit_char_def char_of_def bit_0)
  then show ?thesis
    unfolding key_names_def by (intro rev_image_eqI [of 5]) (simp_all add: KEY_MAX_def)
qed

end
