(* ===== verification/LabelTypes.thy ===== *)
theory LabelTypes
  imports LabelProxy
begin

text \<open>
  The type of the proxy's tables: every known key has a master key of 32 bytes and a recorded length
  between 0 and 160.  No operation leaves the type, whatever the server answers.
\<close>

definition helper_ok :: "helper \<Rightarrow> bool" where
  "helper_ok st \<longleftrightarrow> keySet st \<subseteq> dom (masterKeys st) \<inter> dom (valueSizes st) \<and>
    (\<forall>key mk. masterKeys st key = Some mk \<longrightarrow> length mk = KEYBYTES) \<and>
    (\<forall>key n. valueSizes st key = Some n \<longrightarrow> 0 \<le> n \<and> n \<le> int VALUE_SIZE)"

lemma helper_okD:
  assumes "helper_ok st" and "key \<in> keySet st"
  shows "\<exists>mk n. masterKeys st key = Some mk \<and> length mk = KEYBYTES \<and>
    valueSizes st key = Some n \<and> 0 \<le> n \<and> n \<le> int VALUE_SIZE"
proof -
  from assms obtain mk n where "masterKeys st key = Some mk" "valueSizes st key = Some n"
    unfolding helper_ok_def by blast
  with assms(1) show ?thesis by (simp add: helper_ok_def)
qed

lemma helper_ok_keygen:
  "helper_ok st \<Longrightarrow> fresh_ok F \<Longrightarrow> helper_ok (st\<lparr>masterKeys := (masterKeys st)(key \<mapsto> keygen F)\<rparr>)"
  by (auto simp: helper_ok_def fresh_ok_def)

lemma helper_ok_create:
  "helper_ok st \<Longrightarrow> fresh_ok F \<Longrightarrow> constructCreateEntry S F key v st = (r, st') \<Longrightarrow> helper_ok st'"
  using helper_ok_keygen [of st F key]
  by (auto simp: constructCreateEntry_def Let_def split: sum.splits)

lemma helper_ok_get:
  "helper_ok st \<Longrightarrow> fresh_ok F \<Longrightarrow> constructGetEntry S F key st = (r, st') \<Longrightarrow> helper_ok st'"
  using helper_ok_keygen [of st F key] by (auto simp: constructGetEntry_def split: sum.splits)

lemma helper_ok_put:
  "helper_ok st \<Longrightarrow> fresh_ok F \<Longrightarrow> constructPutEntry S F key v st = (r, st') \<Longrightarrow> helper_ok st'"
  using helper_ok_keygen [of st F key] by (auto simp: constructPutEntry_def split: sum.splits)

lemma entry_fits:
  assumes "length v < 2 ^ 62" and "constructCreateEntry S F key v st = (Inr e, st') \<or> constructPutEntry S F key v st = (Inr e, st')"
  shows "length v \<le> VALUE_SIZE"
proof (rule ccontr)
  assume "\<not> ?thesis"
  with padToLen_too_long [of VALUE_SIZE v] assms show False
    by (auto simp: constructCreateEntry_def constructPutEntry_def)
qed

lemma create_has_key: "constructCreateEntry S F key v st = (Inr e, st') \<Longrightarrow> masterKeys st' key = Some (keygen F)"
  by (auto simp: constructCreateEntry_def Let_def split: sum.splits)

lemma helper_ok_set_size:
  "helper_ok st \<Longrightarrow> length v \<le> VALUE_SIZE \<Longrightarrow> helper_ok (set_value_size key v st)"
  using int_of_size_small [of "length v"] by (auto simp: helper_ok_def set_value_size_def layout)

lemma helper_ok_insert:
  "helper_ok st \<Longrightarrow> masterKeys st key \<noteq> None \<Longrightarrow> valueSizes st key \<noteq> None \<Longrightarrow> helper_ok (insert_key key st)"
  by (auto simp: helper_ok_def insert_key_def)

lemma helper_ok_exchange: "helper_ok (snd (exchange key b st)) \<longleftrightarrow> helper_ok st"
  by (simp add: helper_ok_def exchange_def)

lemma helper_ok_read: "helper_ok st \<Longrightarrow> readValueFromLabels S c key labels st = (r, st') \<Longrightarrow> helper_ok st'"
  by (auto simp: helper_ok_def readValueFromLabels_def at_default_def split: option.splits if_splits)

lemma helper_ok_run_create:
  assumes "helper_ok (hlp px)" and "fresh_ok F" and "length (op_value ope) < 2 ^ 62"
    and "run_create S create F ope (px, sv) = (r, px', sv')"
  shows "helper_ok (hlp px')"
proof (cases "constructCreateEntry S F (op_key ope) (op_value ope) (hlp px)")
  case (Pair x st)
  from helper_ok_create [OF assms(1,2) Pair] have st: "helper_ok st" .
  show ?thesis
  proof (cases x)
    case (Inr e)
    with entry_fits [OF assms(3)] create_has_key Pair have
      "length (op_value ope) \<le> VALUE_SIZE" "masterKeys st (op_key ope) \<noteq> None" by (blast, fastforce)
    with helper_ok_set_size [OF st] have "helper_ok (insert_key (op_key ope) (set_value_size (op_key ope) (op_value ope) st))"
      by (intro helper_ok_insert) (simp_all add: set_value_size_def)
    with assms(4) Pair Inr show ?thesis
      by (auto simp: run_create_def Let_def finish_def helper_ok_exchange)
  qed (use assms(4) Pair st in \<open>auto simp: run_create_def\<close>)
qed

lemma helper_ok_run_get:
  assumes "helper_ok (hlp px)" and "fresh_ok F" and "run_get S access F c ope (px, sv) = (r, px', sv')"
  shows "helper_ok (hlp px')"
  using assms(3) helper_ok_get [OF assms(1,2)] helper_ok_read
  by (auto simp: run_get_def finish_def helper_ok_exchange split: sum.splits prod.splits) blast+

lemma helper_ok_run_put:
  assumes "helper_ok (hlp px)" and "fresh_ok F" and "length (op_value ope) < 2 ^ 62"
    and "run_put S access F ope (px, sv) = (r, px', sv')"
  shows "helper_ok (hlp px')"
proof (cases "constructPutEntry S F (op_key ope) (op_value ope) (hlp px)")
  case (Pair x st)
  from helper_ok_put [OF assms(1,2) Pair] have st: "helper_ok st" .
  show ?thesis
  proof (cases x)
    case (Inr e)
    with entry_fits [OF assms(3)] Pair have "length (op_value ope) \<le> VALUE_SIZE" by blast
    with helper_ok_set_size [OF st] have "helper_ok (set_value_size (op_key ope) (op_value ope) st)" by blast
    with assms(4) Pair Inr show ?thesis
      by (auto simp: run_put_def Let_def finish_def helper_ok_exchange split: sum.splits prod.splits)
  qed (use assms(4) Pair st in \<open>auto simp: run_put_def\<close>)
qed

lemma helper_ok_handleOp:
  assumes "helper_ok (hlp px)" and "fresh_ok F" and "length (op_value ope) < 2 ^ 62"
    and "handleOp S create access F c ope (px, sv) = (r, px', sv')"
  shows "helper_ok (hlp px')"
proof -
  let ?px = "px\<lparr>hlp := snd (exchange (op_key ope) False (hlp px))\<rparr>"
  have "helper_ok (hlp ?px)" using assms(1) by (simp add: helper_ok_exchange)
  note ok = helper_ok_run_create [OF this assms(2,3)] helper_ok_run_get [OF this assms(2)] helper_ok_run_put [OF this assms(2,3)]
  from assms(4) show ?thesis
    by (auto simp: handleOp_def case_prod_beta count_abort_def helper_ok_exchange assms(1) dest: ok split: if_splits)
qed

lemma helper_ok_start: "helper_ok (hlp (proxy_start load None))"
  by (simp add: helper_ok_def proxy_start_def OpScureSetup_def helper0_def)

lemma helper_ok_run:
  "helper_ok (hlp px) \<Longrightarrow> \<forall>(F, c, ope) \<in> set ops. fresh_ok F \<and> length (op_value ope) < 2 ^ 62 \<Longrightarrow>
    proxy_run up S create access ops (px, sv) = (rs, px', sv') \<Longrightarrow> helper_ok (hlp px')"
proof (induction ops arbitrary: px sv rs)
  case (Cons x ops)
  obtain F c ope where x: "x = (F, c, ope)" by (cases x)
  obtain r px1 sv1 where one: "proxy_access up S create access F c ope (px, sv) = (r, px1, sv1)" by (metis surj_pair)
  have "helper_ok (hlp px1)"
    using one Cons.prems(1,2) helper_ok_handleOp [of px F ope S create access c sv r px1 sv1]
    by (auto simp: proxy_access_def x split: if_splits)
  moreover obtain rs1 where "proxy_run up S create access ops (px1, sv1) = (rs1, px', sv')"
    using Cons.prems(3) one by (auto simp: x split: prod.splits)
  ultimately show ?case using Cons.IH Cons.prems(2) by simp
qed simp

end
