(* ===== verification/LabelMail.thy ===== *)
theory LabelMail
  imports LabelRefinement
begin

text \<open>
  The proxy in front of the server when requests come one at a time and creates are messages: \<open>create\<close>
  is a oneway call (\<open>KV_RPC.thrift\<close>), so \<open>handleOp\<close> goes on when it is sent.  It is stored when a
  thread of the server has read it from its connection, in any order with the other creates and
  at any time between the requests.
\<close>

section \<open>The service with its messages\<close>

type_synonym 'd service = "'d server \<times> entry list"

definition mail_create :: "entry \<Rightarrow> 'd service \<Rightarrow> 'd service" where
  "mail_create e = (\<lambda>(sv, mail). (sv, mail @ [e]))"

definition mail_access :: "sodium \<Rightarrow> 'd kvs \<Rightarrow> entry \<Rightarrow> 'd service \<Rightarrow> bytes res \<times> 'd service" where
  "mail_access S K e = (\<lambda>(sv, mail). let (r, sv) = kv_access S K e sv in (r, sv, mail))"

definition mail_arrives :: "'d kvs \<Rightarrow> nat \<Rightarrow> 'd service \<Rightarrow> 'd service" where
  "mail_arrives K n = (\<lambda>(sv, mail).
     if n < length mail then (kv_create K (mail ! n) sv, take n mail @ drop (Suc n) mail) else (sv, mail))"

text \<open>What the database holds once every create has arrived.\<close>

definition mail_stored :: "'d kvs \<Rightarrow> 'd service \<Rightarrow> string \<Rightarrow> bytes option" where
  "mail_stored K = (\<lambda>(sv, mail). foldl (\<lambda>m e. m(keyName e \<mapsto> encryptedLabelsA e)) (kv_get K (db sv)) mail)"

definition mail_up :: "'d service \<Rightarrow> bool" where
  "mail_up = (\<lambda>(sv, mail). running sv)"

definition mail_settled :: "'d service \<Rightarrow> string \<Rightarrow> bool" where
  "mail_settled = (\<lambda>(sv, mail) key. key \<notin> keyName ` set mail)"

definition mail_ok :: "'d service \<Rightarrow> bool" where
  "mail_ok = (\<lambda>(sv, mail). running sv \<and> distinct (map keyName mail))"

lemma foldl_mail_upd:
  "key \<notin> keyName ` set mail \<Longrightarrow> foldl (\<lambda>m e. m(keyName e \<mapsto> encryptedLabelsA e)) (m(key \<mapsto> v)) mail =
    (foldl (\<lambda>m e. m(keyName e \<mapsto> encryptedLabelsA e)) m mail)(key \<mapsto> v)"
proof (induction mail arbitrary: m)
  case (Cons e mail)
  then have "(m(key \<mapsto> v))(keyName e \<mapsto> encryptedLabelsA e) = (m(keyName e \<mapsto> encryptedLabelsA e))(key \<mapsto> v)"
    by (intro fun_upd_twist) auto
  with Cons show ?case by (simp del: fun_upd_apply)
qed simp

lemma foldl_mail_other:
  "key \<notin> keyName ` set mail \<Longrightarrow> foldl (\<lambda>m e. m(keyName e \<mapsto> encryptedLabelsA e)) m mail key = m key"
  by (induction mail arbitrary: m) simp_all

interpretation mail: kv_service S mail_create "mail_access S K" "mail_stored K" mail_up mail_settled
    "sodium_ok S \<and> kvs_ok K"
  for S :: sodium and K :: "'d kvs"
proof (unfold_locales, goal_cases)
  case (4 s key F plain lab old bits out)
  obtain sv mail where s: "s = (sv, mail)" by (cases s)
  have key: "key \<notin> keyName ` set mail" "kv_get K (db sv) key = Some lab" "running sv"
    using 4(2,3,6) by (auto simp: s mail_settled_def mail_stored_def mail_up_def foldl_mail_other)
  from kv.access_rekey [where plain = plain and bits = bits, OF 4(1) key(3) TrueI 4(4,5) key(2) 4(7,8,9)] obtain sv' where
    "kv_access S K (entry_of key (block_mem POSITIONS (rekey_lanes plain S F old))) sv = (Inr out, sv')"
    "running sv'" "kv_get K (db sv') = (kv_get K (db sv))(key \<mapsto> out)" by blast
  then show ?case
    by (simp add: s mail_access_def mail_up_def mail_stored_def foldl_mail_upd [OF key(1)])
qed (auto simp: mail_create_def mail_up_def mail_stored_def)

section \<open>Requests and arrivals\<close>

text \<open>
  One request at a time, from the first to the last step of its handler, and between them the
  arrival of any create on its way.
\<close>

datatype event = Request fresh byte operation | Arrive nat

fun mail_event :: "sodium \<Rightarrow> 'd kvs \<Rightarrow> event \<Rightarrow> proxy \<times> 'd service \<Rightarrow> bytes res list \<times> proxy \<times> 'd service" where
  "mail_event S K (Request F c ope) w =
     (let (r, w) = proxy_access mail_up S mail_create (mail_access S K) F c ope w in ([r], w))"
| "mail_event S K (Arrive n) (px, s) = ([], px, mail_arrives K n s)"

fun mail_run :: "sodium \<Rightarrow> 'd kvs \<Rightarrow> event list \<Rightarrow> proxy \<times> 'd service \<Rightarrow> bytes res list \<times> proxy \<times> 'd service" where
  "mail_run S K [] w = ([], w)"
| "mail_run S K (ev # evs) w =
     (let (rs, w) = mail_event S K ev w; (rs', w) = mail_run S K evs w in (rs @ rs', w))"

text \<open>The creates come in time: none is on its way when a request for its key comes.\<close>

fun timely_event :: "event \<Rightarrow> 'd service \<Rightarrow> bool" where
  "timely_event (Request F c ope) s \<longleftrightarrow> mail_settled s (op_key ope)"
| "timely_event (Arrive n) s \<longleftrightarrow> True"

fun in_time :: "sodium \<Rightarrow> 'd kvs \<Rightarrow> event list \<Rightarrow> proxy \<times> 'd service \<Rightarrow> bool" where
  "in_time S K [] w \<longleftrightarrow> True"
| "in_time S K (ev # evs) w \<longleftrightarrow> timely_event ev (snd w) \<and> in_time S K evs (snd (mail_event S K ev w))"

fun requests :: "event list \<Rightarrow> operation list" where
  "requests [] = []"
| "requests (Request F c ope # evs) = ope # requests evs"
| "requests (Arrive n # evs) = requests evs"

fun good_event :: "sodium \<Rightarrow> event \<Rightarrow> bool" where
  "good_event S (Request F c ope) \<longleftrightarrow> fresh_good S F \<and> length (op_value ope) < 2 ^ 62"
| "good_event S (Arrive n) \<longleftrightarrow> True"

section \<open>The refinement\<close>

lemma keyName_create: "constructCreateEntry S F key v st = (Inr e, st') \<Longrightarrow> keyName e = key"
  by (auto simp: constructCreateEntry_def Let_def bind_res_eq_Inr entry_of_def split: sum.splits)

lemma run_mail:
  "run_create S mail_create F ope (px, sv, mail) = (r, px', sv', mail') \<Longrightarrow>
    mail' = mail \<or> (\<exists>e. mail' = mail @ [e] \<and> keyName e = op_key ope)"
  "run_get S (mail_access S K) F c ope (px, sv, mail) = (r, px', sv', mail') \<Longrightarrow> mail' = mail"
  "run_put S (mail_access S K) F ope (px, sv, mail) = (r, px', sv', mail') \<Longrightarrow> mail' = mail"
  by (auto simp: run_create_def run_get_def run_put_def mail_create_def mail_access_def Let_def
      dest: keyName_create split: sum.splits prod.splits)

lemma handleOp_mail:
  assumes "handleOp S mail_create (mail_access S K) F c ope (px, sv, mail) = (r, px', sv', mail')"
  shows "mail' = mail \<or> (\<exists>e. mail' = mail @ [e] \<and> keyName e = op_key ope)"
  using assms by (auto simp: handleOp_def Let_def dest: run_mail split: if_splits prod.splits)

lemma handleOp_gets:
  "handleOp S mail_create (mail_access S K) F c ope (px, sv, mail) = (r, px', sv', mail') \<Longrightarrow> op_op ope = ''GET'' \<Longrightarrow> mail' = mail"
  by (auto simp: handleOp_def Let_def dest: run_mail(2) split: if_splits prod.splits)

lemma mail_arrives_stored:
  assumes "mail_ok s" and K: "kvs_ok K"
  shows "mail_ok (mail_arrives K n s) \<and> mail_stored K (mail_arrives K n s) = mail_stored K s"
proof -
  obtain sv mail where s: "s = (sv, mail)" by (cases s)
  show ?thesis
  proof (cases "n < length mail")
    case True
    define e xs ys where "e = mail ! n" and "xs = take n mail" and "ys = drop (Suc n) mail"
    have mail: "mail = xs @ e # ys" unfolding e_def xs_def ys_def using True by (rule id_take_nth_drop)
    let ?put = "\<lambda>m e. m(keyName e \<mapsto> encryptedLabelsA e)"
    have run: "running sv" and dist: "distinct (map keyName (xs @ e # ys))"
      using assms(1) mail by (simp_all add: mail_ok_def s)
    have arr: "mail_arrives K n s = (kv_create K e sv, xs @ ys)"
      using True by (simp add: mail_arrives_def s e_def xs_def ys_def)
    have db: "kv_get K (db (kv_create K e sv)) = (kv_get K (db sv))(keyName e \<mapsto> encryptedLabelsA e)"
      using K run by (simp add: kv_create_def kvs_ok_def fun_eq_iff)
    have "keyName e \<notin> keyName ` set xs" using dist by auto
    from foldl_mail_upd [OF this] have
      "foldl ?put (kv_get K (db (kv_create K e sv))) (xs @ ys) = foldl ?put (kv_get K (db sv)) (xs @ e # ys)"
      unfolding db foldl_append by (simp del: fun_upd_apply)
    then have "mail_stored K (mail_arrives K n s) = mail_stored K s"
      unfolding arr unfolding s mail_stored_def mail by simp
    moreover have "mail_ok (mail_arrives K n s)"
      using run dist by (auto simp: mail_ok_def arr kv_create_def)
    ultimately show ?thesis by simp
  qed (use assms in \<open>simp add: s mail_arrives_def\<close>)
qed

text \<open>A request is an operation of the store, an arrival is none.\<close>

lemma mail_event_refines:
  assumes S: "sodium_ok S" and K: "kvs_ok K" and good: "good_event S ev" and timely: "timely_event ev s"
    and ok: "mail_ok s" and rep: "rep S (mail_stored K s) A px"
  shows "\<exists>px' s'. mail_event S K ev (px, s) = (fst (spec_run (requests [ev]) A), px', s') \<and> mail_ok s' \<and>
    rep S (mail_stored K s') (snd (spec_run (requests [ev]) A)) px'"
proof (cases ev)
  case (Arrive n)
  then show ?thesis using mail_arrives_stored [OF ok K, of n] rep by simp
next
  case (Request F c ope)
  obtain sv mail where s: "s = (sv, mail)" by (cases s)
  have up: "mail_up s" using ok by (auto simp: mail_ok_def mail_up_def)
  from mail.handleOp_refines [of S K, OF conjI [OF S K] up _ _ rep, of ope F c] good timely obtain px' s' where
    h: "handleOp S mail_create (mail_access S K) F c ope (px, s) = (fst (spec_op ope A), px', s')"
    and s': "mail_up s'" "rep S (mail_stored K s') (snd (spec_op ope A)) px'" by (auto simp: Request)
  obtain sv' mail' where t: "s' = (sv', mail')" by (cases s')
  have "mail_ok s'"
    using handleOp_mail [OF h [unfolded s t]] ok timely s'(1)
    by (auto simp: mail_ok_def mail_up_def mail_settled_def Request s t)
  with h s' up show ?thesis by (simp add: Request proxy_access_def case_prod_beta)
qed

lemma spec_run_requests: "requests (xs @ ys) = requests xs @ requests ys"
  by (induction xs rule: requests.induct) simp_all

lemma spec_run_two: "spec_run (xs @ ys) A = (fst (spec_run xs A) @ fst (spec_run ys (snd (spec_run xs A))),
    snd (spec_run ys (snd (spec_run xs A))))"
  by (simp add: spec_run_append case_prod_beta Let_def)

lemma mail_run_refines:
  assumes S: "sodium_ok S" and K: "kvs_ok K" and "list_all (good_event S) evs"
    and "in_time S K evs (px, s)" and "mail_ok s" and "rep S (mail_stored K s) A px"
  shows "\<exists>px' s'. mail_run S K evs (px, s) = (fst (spec_run (requests evs) A), px', s') \<and> mail_ok s' \<and>
    rep S (mail_stored K s') (snd (spec_run (requests evs) A)) px'"
  using assms(3-6)
proof (induction evs arbitrary: px s A)
  case (Cons ev evs)
  from mail_event_refines [OF S K _ _ Cons.prems(3,4), of ev] Cons.prems(1,2) obtain px1 s1 where
    one: "mail_event S K ev (px, s) = (fst (spec_run (requests [ev]) A), px1, s1)" "mail_ok s1"
      "rep S (mail_stored K s1) (snd (spec_run (requests [ev]) A)) px1" by auto
  from Cons.IH [OF _ _ one(2,3)] Cons.prems(1,2) one(1) obtain px2 s2 where
    "mail_run S K evs (px1, s1) = (fst (spec_run (requests evs) (snd (spec_run (requests [ev]) A))), px2, s2)" "mail_ok s2"
    "rep S (mail_stored K s2) (snd (spec_run (requests evs) (snd (spec_run (requests [ev]) A)))) px2" by auto
  with one(1) spec_run_requests [of "[ev]" evs] spec_run_two [of "requests [ev]" "requests evs" A] show ?case by simp
qed simp

lemma mail_start: "rep S (kv_get K (db sv)) A px \<Longrightarrow> rep S (mail_stored K (sv, [])) A px"
  by (simp add: mail_stored_def)

text \<open>Runs one after the other.\<close>

lemma mail_run_append:
  "mail_run S K (xs @ ys) w =
    (fst (mail_run S K xs w) @ fst (mail_run S K ys (snd (mail_run S K xs w))), snd (mail_run S K ys (snd (mail_run S K xs w))))"
  by (induction xs arbitrary: w) (simp_all add: case_prod_beta Let_def)

end
