(* ===== verification/LabelProperties.thy ===== *)
theory LabelProperties
  imports LabelExamples LabelTypes LabelMail
begin

text \<open>
  The properties of ORTOA-LBL: the proxy and the server together are a store, what they do to long
  values, to failed operations and to unknown keys, and that the worker threads' schedule does not
  matter.  Each property with hypotheses is applied to the instances of \<open>LabelExamples\<close>.
\<close>

section \<open>Shared facts\<close>

text \<open>A run of the proxy from its start, as a run of the abstract store.\<close>

definition good_ops :: "sodium \<Rightarrow> (fresh \<times> byte \<times> operation) list \<Rightarrow> bool" where
  "good_ops S ops \<longleftrightarrow> (\<forall>(F, c, ope) \<in> set ops. fresh_good S F \<and> length (op_value ope) < 2 ^ 62)"

definition proxy_results :: "sodium \<Rightarrow> 'd kvs \<Rightarrow> (fresh \<times> byte \<times> operation) list \<Rightarrow>
    proxy \<times> 'd server \<Rightarrow> bytes res list \<times> proxy \<times> 'd server" where
  "proxy_results S K = proxy_run running S (kv_create K) (kv_access S K)"

definition start_of :: "'d server \<Rightarrow> proxy \<times> 'd server" where
  "start_of sv = (proxy_start (\<lambda>_. ({}, Map.empty, Map.empty)) (None :: unit option), sv)"

lemma results_refine:
  assumes "sodium_ok S" and "kvs_ok K" and "good_ops S ops" and "running sv"
    and "rep S (kv_get K (db sv)) A px"
  shows "\<exists>px' sv'. proxy_results S K ops (px, sv) = (fst (spec_run (ops_of ops) A), px', sv') \<and>
    running sv' \<and> rep S (kv_get K (db sv')) (snd (spec_run (ops_of ops) A)) px'"
  using kv.proxy_run_refines [of S K ops sv A px] assms by (simp add: proxy_results_def good_ops_def)

lemma results_start:
  assumes "sodium_ok S" and "kvs_ok K" and "good_ops S ops" and "running sv"
  shows "\<exists>px' sv'. proxy_results S K ops (start_of sv) = (fst (spec_run (ops_of ops) spec0), px', sv') \<and>
    running sv' \<and> rep S (kv_get K (db sv')) (snd (spec_run (ops_of ops) spec0)) px'"
  unfolding start_of_def by (rule results_refine [OF assms rep_start])

lemma spec_run_nth:
  "i < length ops \<Longrightarrow> fst (spec_run ops A) ! i =
    fst (spec_op (ops ! i) (snd (spec_run (take i ops) A)))"
proof (induction ops arbitrary: A i)
  case (Cons ope ops)
  then show ?case by (cases i) (simp_all add: case_prod_beta)
qed simp

lemma length_spec_run: "length (fst (spec_run ops A)) = length ops"
  by (induction ops arbitrary: A) (simp_all add: case_prod_beta)

lemma length_ops_of [simp]: "length (ops_of ops) = length ops"
  by (simp add: ops_of_def)

lemma spec_locked_forever:
  assumes "i < length ops" and "op_key (ops ! i) \<notin> avail A"
  shows "fst (spec_run ops A) ! i = Inr []"
proof -
  have "op_key (ops ! i) \<notin> avail (snd (spec_run (take i ops) A))"
    using assms(2) spec_run_avail by blast
  then show ?thesis by (simp add: spec_run_nth [OF assms(1)] spec_op_locked)
qed

text \<open>Two operations of the examples.\<close>

definition get5 :: operation where
  "get5 = \<lparr>op_op = ''GET'', op_key = ''5'', op_value = []\<rparr>"

definition put5 :: "bytes \<Rightarrow> operation" where
  "put5 v = \<lparr>op_op = ''PUT'', op_key = ''5'', op_value = v\<rparr>"

definition toy_ops :: "operation list \<Rightarrow> (fresh \<times> byte \<times> operation) list" where
  "toy_ops xs = map (\<lambda>ope. (toy_fresh 9, 77, ope)) xs"

lemma ops_of_toy [simp]: "ops_of (toy_ops xs) = xs"
  by (simp add: ops_of_def toy_ops_def o_def)

lemmas toy_simps = good_ops_def toy_fresh_good toy_ops_def ops_of_def get5_def put5_def spec0_def

lemma toy_running [simp]: "running toy_server"
  by (simp add: toy_server_def)

section \<open>The store\<close>

text \<open>
  C1: requests that come one after the other, on tables and a database that represent a store (at the
  first start, without a file, the empty one: \<open>rep_start\<close>) and a server that runs.  Creates are messages that
  arrive at any time between the requests and in any order, as long as none is on its way when a
  request for its own key comes (\<open>in_time\<close>; C29 is what happens otherwise, and C2 the case of
  requests at the same time).  Then every answer is the one of the abstract store: the last written value, cut as
  \<open>garble\<close> says, an empty answer for a missing or locked key and an error for a value that is too long.
\<close>

theorem proxy_implements_store:
  assumes "sodium_ok S" and "kvs_ok K" and "list_all (good_event S) evs" and "running sv"
    and "rep S (kv_get K (db sv)) A (proxy_start load file)"
    and "in_time S K evs (proxy_start load file, sv, [])"
  shows "fst (mail_run S K evs (proxy_start load file, sv, [])) = fst (spec_run (requests evs) A)"
  using mail_run_refines [OF assms(1-3,6) _ mail_start [OF assms(5)]] assms(4) by (auto simp: mail_ok_def)

text \<open>A PUT whose create arrives before the GET of its key, and after a GET of another one.\<close>

definition toy_request :: "operation \<Rightarrow> event" where
  "toy_request ope = Request (toy_fresh 9) 77 ope"

definition get6 :: operation where
  "get6 = \<lparr>op_op = ''GET'', op_key = ''6'', op_value = []\<rparr>"

definition toy_start :: "proxy \<times> (string \<rightharpoonup> bytes) service" where
  "toy_start = (proxy_start id None, toy_server, [])"

lemma toy_proxy:
  "keySet (hlp (proxy_start load None)) = {}" "fst (exchange ''5'' False (hlp (proxy_start load None)))"
  "masterKeys (hlp (proxy_start load None)) = Map.empty"
  using toy_key by (simp_all add: proxy_start_def OpScureSetup_def helper0_def exchange_def at_default_def setup_locks_key_names)

text \<open>A first PUT sends its create.\<close>

lemma toy_put:
  assumes "length v \<le> VALUE_SIZE"
  shows "\<exists>px e. mail_event toy_sodium toy_kvs (toy_request (put5 v)) toy_start = ([Inr []], px, toy_server, [e]) \<and> keyName e = ''5''"
  using constructCreateEntry_ok [OF toy_sodium_ok toy_fresh_ok [of 9] assms, of "''5''"] toy_proxy [of id]
  by (simp add: toy_request_def toy_start_def proxy_access_def mail_up_def handleOp_def put5_def run_create_def
      mail_create_def Let_def case_prod_beta)

lemma toy_put_then_arrives:
  assumes "length v \<le> VALUE_SIZE"
  shows "in_time toy_sodium toy_kvs [toy_request (put5 v), Arrive 0, toy_request get5] toy_start"
  using toy_put [OF assms]
  by (auto simp: toy_start_def) (simp_all add: toy_request_def mail_settled_def mail_arrives_def)

lemma toy_put_arrives:
  assumes "length v \<le> VALUE_SIZE"
  shows "in_time toy_sodium toy_kvs [toy_request (put5 v), toy_request get6, Arrive 0, toy_request get5] toy_start"
proof -
  from toy_put [OF assms] obtain px e where
    put: "mail_event toy_sodium toy_kvs (toy_request (put5 v)) toy_start = ([Inr []], px, toy_server, [e])" "keyName e = ''5''"
    by blast
  obtain r px' sv' mail' where h: "handleOp toy_sodium mail_create (mail_access toy_sodium toy_kvs) (toy_fresh 9) 77 get6
      (px, toy_server, [e]) = (r, px', sv', mail')" by (metis surj_pair)
  have get: "mail_event toy_sodium toy_kvs (toy_request get6) (px, toy_server, [e]) = ([r], px', sv', mail')"
    using h by (simp add: toy_request_def proxy_access_def mail_up_def)
  have "mail' = [e]" using handleOp_gets [OF h] by (simp add: get6_def)
  then show ?thesis
    using put(2) by (simp add: put(1) get) (simp add: toy_request_def toy_start_def mail_settled_def get5_def get6_def put5_def mail_arrives_def)
qed

theorem proxy_implements_store_witness:
  "fst (mail_run toy_sodium toy_kvs [toy_request (put5 [104, 105]), toy_request get6, Arrive 0, toy_request get5] toy_start) =
    [Inr [], Inr [], Inr [104, 105]]"
proof -
  let ?evs = "[toy_request (put5 [104, 105]), toy_request get6, Arrive 0, toy_request get5]"
  have good: "list_all (good_event toy_sodium) ?evs" by (simp add: toy_request_def toy_simps get6_def)
  have "in_time toy_sodium toy_kvs ?evs toy_start" by (rule toy_put_arrives) (simp add: layout)
  from proxy_implements_store [OF toy_sodium_ok toy_kvs_ok good toy_running rep_start this [unfolded toy_start_def]] toy_key
  show ?thesis
    by (simp add: toy_start_def toy_request_def get5_def get6_def put5_def spec_op_def spec0_def garble_short layout Let_def)
qed

text \<open>
  C6: requests one after the other from a start as in C1.  Whatever ran before, a PUT of at most 160 bytes to a key whose lock is free, then, in \<open>mid\<close>,
  arrivals of creates only, then a GET of that key: when no create was overtaken (\<open>in_time\<close>: the PUT's
  own create, if it was the first of its key, is among the arrivals), the GET returns as many bytes as
  were written; the first 42 are the written ones and every further byte is \<open>0xFF\<close>, since the server
  re-keys only the first 168 of the 640 labels.
\<close>

theorem get_after_put:
  assumes "sodium_ok S" and "kvs_ok K" and "list_all (good_event S) evs" and "running sv"
    and "rep S (kv_get K (db sv)) A (proxy_start load file)"
    and "in_time S K evs (proxy_start load file, sv, [])"
    and "evs = before @ Request F c put # mid @ [Request F' c' get]" and "requests mid = []"
    and "op_op put \<noteq> ''GET''" and "op_op get = ''GET''" and "op_key get = op_key put"
    and "length (op_value put) \<le> VALUE_SIZE" and "op_key put \<in> avail (snd (spec_run (requests before) A))"
  shows "\<exists>r. drop (length (requests before)) (fst (mail_run S K evs (proxy_start load file, sv, []))) = [Inr [], Inr r] \<and>
    length r = length (op_value put) \<and> (\<forall>i < length r. r ! i = (if i < 42 then op_value put ! i else 255))"
proof -
  let ?A = "snd (spec_run (requests before) A)"
  have "requests evs = requests before @ [put, get]"
    using assms(7,8) by (simp add: spec_run_requests)
  moreover have "fst (spec_run [put, get] ?A) = [Inr [], Inr (garble (op_value put))]"
    using assms(9-13) by (simp add: spec_op_def Let_def)
  ultimately have "drop (length (requests before)) (fst (spec_run (requests evs) A)) = [Inr [], Inr (garble (op_value put))]"
    by (simp add: spec_run_two length_spec_run)
  with mail_run_refines [OF assms(1-3,6) _ mail_start [OF assms(5)]] assms(4,12) show ?thesis
    by (auto simp: mail_ok_def length_garble garble_nth SERVED_BYTES_def)
qed

theorem get_after_put_witness:
  "\<exists>r. fst (mail_run toy_sodium toy_kvs [toy_request (put5 (replicate 50 7)), Arrive 0, toy_request get5] toy_start) =
      [Inr [], Inr r] \<and> length r = 50 \<and> r ! 41 = 7 \<and> r ! 42 = 255"
proof -
  let ?evs = "[toy_request (put5 (replicate 50 7)), Arrive 0, toy_request get5]"
  have good: "list_all (good_event toy_sodium) ?evs" by (simp add: toy_request_def toy_simps)
  have evs: "?evs = [] @ Request (toy_fresh 9) 77 (put5 (replicate 50 7)) # [Arrive 0] @ [Request (toy_fresh 9) 77 get5]"
    by (simp add: toy_request_def)
  have "length (replicate 50 (7 :: byte)) \<le> VALUE_SIZE" by (simp add: layout)
  from get_after_put [OF toy_sodium_ok toy_kvs_ok good toy_running rep_start [of _ _ id] toy_put_then_arrives [OF this, unfolded toy_start_def]
      evs] toy_key
  show ?thesis by (auto simp: toy_start_def get5_def put5_def spec0_def layout)
qed

text \<open>
  C32: requests one after the other from a start as in C1, in which no create is overtaken; then SIGINT while no
  request is being served (C14 is what happens otherwise), so that the handler saves the tables, and a new start from the file,
  with the creates that were still on their way.  Every stored value is kept, every lock
  is free and the counters restart; the abstract store goes on from there.
\<close>

theorem restart_keeps_values:
  assumes "sodium_ok S" and "kvs_ok K" and "list_all (good_event S) evs" and "list_all (good_event S) evs'"
    and "running sv" and "rep S (kv_get K (db sv)) A (proxy_start load file)" and "\<And>x. load (save x) = x"
    and "in_time S K evs (proxy_start load file, sv, [])"
  defines "w \<equiv> snd (mail_run S K evs (proxy_start load file, sv, []))"
  defines "again \<equiv> (proxy_start load (Some (OpScureCleanup save (hlp (fst w)))), snd w)"
  assumes "in_time S K evs' again"
  shows "fst (mail_run S K evs' again) =
    fst (spec_run (requests evs') (spec0\<lparr>vals := vals (snd (spec_run (requests evs) A))\<rparr>))"
proof -
  let ?A = "snd (spec_run (requests evs) A)"
  from mail_run_refines [OF assms(1-3,8) _ mail_start [OF assms(6)]] assms(5)
  have "mail_ok (snd w)" and rep: "rep S (mail_stored K (snd w)) ?A (fst w)" by (auto simp: w_def mail_ok_def)
  from mail_run_refines [OF assms(1,2,4) assms(11) [unfolded again_def] this(1) rep_restart [where load = load and save = save, OF rep assms(7)]]
  show ?thesis by (auto simp: spec0_def again_def)
qed

text \<open>The create of the key arrives after the restart.\<close>

theorem restart_keeps_values_witness:
  "\<exists>px e. mail_event toy_sodium toy_kvs (toy_request (put5 [104])) toy_start = ([Inr []], px, toy_server, [e]) \<and>
    fst (mail_run toy_sodium toy_kvs [Arrive 0, toy_request get5]
      (proxy_start id (Some (OpScureCleanup id (hlp px))), toy_server, [e])) = [Inr [104]]"
proof -
  let ?evs = "[toy_request (put5 [104])]" and ?evs' = "[Arrive 0, toy_request get5]"
  from toy_put [of "[104]"] obtain px e where
    put: "mail_event toy_sodium toy_kvs (toy_request (put5 [104])) toy_start = ([Inr []], px, toy_server, [e])" by (auto simp: layout)
  have good: "list_all (good_event toy_sodium) ?evs" "list_all (good_event toy_sodium) ?evs'"
    by (simp_all add: toy_request_def toy_simps)
  have run: "mail_run toy_sodium toy_kvs ?evs (proxy_start id None, toy_server, []) = ([Inr []], px, toy_server, [e])"
    using put by (simp add: toy_start_def)
  have timely: "in_time toy_sodium toy_kvs ?evs (proxy_start id None, toy_server, [])"
    by (simp add: toy_request_def mail_settled_def)
  have later: "in_time toy_sodium toy_kvs ?evs' (proxy_start id (Some (OpScureCleanup id (hlp px))), toy_server, [e])"
    by (simp add: toy_request_def mail_settled_def mail_arrives_def)
  note restart_keeps_values [where load = id and save = id, OF toy_sodium_ok toy_kvs_ok good toy_running rep_start _ timely,
      unfolded run snd_conv fst_conv, OF _ later]
  then have "fst (mail_run toy_sodium toy_kvs ?evs' (proxy_start id (Some (OpScureCleanup id (hlp px))), toy_server, [e])) =
      fst (spec_run (requests ?evs') (spec0\<lparr>vals := vals (snd (spec_run (requests ?evs) spec0))\<rparr>))" by simp
  also have "\<dots> = [Inr [104]]"
    using toy_key by (simp add: toy_request_def get5_def put5_def spec_op_def spec0_def garble_short layout Let_def)
  finally show ?thesis using put by blast
qed

text \<open>
  C13: a PUT of more than 160 bytes to a free key throws, and the key's lock is never given back:
  every later operation on the key returns the empty answer, even a GET of the value it holds.
\<close>

theorem long_put_locks_key:
  assumes "sodium_ok S" and "kvs_ok K" and "good_ops S (before @ (F, c, put) # after)" and "running sv"
    and "op_op put \<noteq> ''GET''" and "VALUE_SIZE < length (op_value put)"
    and "op_key put \<in> avail (snd (spec_run (ops_of before) spec0))"
    and "i < length after" and "op_key (ops_of after ! i) = op_key put"
  defines "rs \<equiv> fst (proxy_results S K (before @ (F, c, put) # after) (start_of sv))"
  shows "rs ! length before = Inl LengthError \<and> rs ! (length before + 1 + i) = Inr []"
proof -
  let ?A = "snd (spec_run (ops_of before) spec0)"
  let ?A' = "?A\<lparr>avail := avail ?A - {op_key put}\<rparr>"
  have put: "spec_op put ?A = (Inl LengthError, ?A')"
    using assms(5-7) by (simp add: spec_op_def Let_def)
  have "rs = fst (spec_run (ops_of before) spec0) @ Inl LengthError # fst (spec_run (ops_of after) ?A')"
    using results_start [OF assms(1-4)] put
    by (auto simp: rs_def ops_of_def spec_run_append case_prod_beta Let_def)
  moreover have "fst (spec_run (ops_of after) ?A') ! i = Inr []"
    using assms(8,9) by (intro spec_locked_forever) simp_all
  ultimately show ?thesis
    by (simp add: nth_append length_spec_run)
qed

theorem long_put_locks_key_witness:
  "fst (proxy_results toy_sodium toy_kvs (toy_ops [put5 [1], put5 (replicate 161 7), get5]) (start_of toy_server)) ! 2 =
    Inr []"
proof -
  have good: "good_ops toy_sodium ([(toy_fresh 9, 77, put5 [1])] @ (toy_fresh 9, 77, put5 (replicate 161 7)) #
      [(toy_fresh 9, 77, get5)])"
    by (simp add: toy_simps)
  have "''5'' \<in> avail (snd (spec_run (ops_of [(toy_fresh 9, 77, put5 [1])]) spec0))"
    using toy_key by (simp add: ops_of_def spec_op_def put5_def spec0_def layout Let_def)
  with long_put_locks_key [OF toy_sodium_ok toy_kvs_ok good toy_running, of 0]
  show ?thesis by (simp add: toy_ops_def get5_def put5_def ops_of_def layout numeral_2_eq_2)
qed

text \<open>
  C27: from the first start of the proxy, whatever the server answers and whatever the operations are,
  the tables keep their type: every known key has a master key of 32 bytes and a recorded length
  between 0 and 160, so that the lookups of a GET never read a default.
\<close>

theorem tables_keep_type:
  assumes "\<forall>(F, c, ope) \<in> set ops. fresh_ok F \<and> length (op_value ope) < 2 ^ 62"
    and "proxy_run up S create access ops (proxy_start load None, sv) = (rs, px, sv')"
    and "key \<in> keySet (hlp px)"
  shows "\<exists>mk n. masterKeys (hlp px) key = Some mk \<and> length mk = KEYBYTES \<and>
    valueSizes (hlp px) key = Some n \<and> 0 \<le> n \<and> n \<le> int VALUE_SIZE"
  by (rule helper_okD [OF helper_ok_run [OF helper_ok_start assms(1,2)] assms(3)])

text \<open>A server that answers every access with the empty string.\<close>

theorem tables_keep_type_witness:
  "\<exists>rs px sv mk n. proxy_run (\<lambda>_. True) toy_sodium (\<lambda>_ s. s) (\<lambda>_ s. (Inr [], s)) (toy_ops [put5 [1]])
      (start_of toy_server) = (rs, px, sv) \<and> masterKeys (hlp px) ''5'' = Some mk \<and> length mk = KEYBYTES \<and>
    valueSizes (hlp px) ''5'' = Some n \<and> 0 \<le> n \<and> n \<le> int VALUE_SIZE"
proof -
  let ?run = "proxy_run (\<lambda>_. True) toy_sodium (\<lambda>_ s. s) (\<lambda>_ s. (Inr [], s)) (toy_ops [put5 [1]])"
  obtain rs px sv where run: "?run (start_of toy_server) = (rs, px, sv)" by (metis surj_pair)
  have "''5'' \<in> keySet (hlp px)"
    using run constructCreateEntry_ok [OF toy_sodium_ok toy_fresh_ok [of 9], of "[1]" "''5''"] toy_key
    by (simp add: toy_ops_def start_of_def proxy_access_def handleOp_def put5_def run_create_def Let_def
        proxy_start_def OpScureSetup_def helper0_def exchange_def at_default_def setup_locks_key_names
        insert_key_def set_value_size_def finish_def layout)
      (auto simp: exchange_def)
  with tables_keep_type [OF _ run [unfolded start_of_def]] run show ?thesis
    by (fastforce simp: toy_ops_def toy_fresh_ok put5_def)
qed

text \<open>
  A key that is not the decimal name of a number below 100000 has no lock, so every
  operation on it is counted as aborted and returns the empty answer, in every run.
\<close>

lemma foreign_keys_abort:
  assumes "sodium_ok S" and "kvs_ok K" and "good_ops S ops" and "running sv"
    and "i < length ops" and "op_key (ops_of ops ! i) \<notin> key_names"
  shows "fst (proxy_results S K ops (start_of sv)) ! i = Inr []"
proof -
  have "fst (spec_run (ops_of ops) spec0) ! i = Inr []"
    using assms(5,6) by (intro spec_locked_forever) (simp_all add: spec0_def)
  then show ?thesis using results_start [OF assms(1-4)] by auto
qed

lemma alice_not_key: "''alice'' \<notin> key_names"
proof
  assume "''alice'' \<in> key_names"
  then obtain n where n: "to_string n = ''alice''" by (auto simp: key_names_def)
  have "last (to_string n) = digit_char (n mod 10)"
    by (subst to_string.simps) simp
  with n have "digit_char (n mod 10) = CHR ''e''" by simp
  then have "(of_char (digit_char (n mod 10)) :: nat) = of_char (CHR ''e'')" by (rule arg_cong)
  moreover have "n mod 10 < 10" by simp
  ultimately show False by (simp add: digit_char_def)
qed

lemma foreign_keys_abort_example:
  "fst (proxy_results toy_sodium toy_kvs (toy_ops [\<lparr>op_op = ''PUT'', op_key = ''alice'', op_value = [1]\<rparr>,
      \<lparr>op_op = ''GET'', op_key = ''alice'', op_value = []\<rparr>]) (start_of toy_server)) ! 0 = Inr []"
  by (rule foreign_keys_abort [OF toy_sodium_ok toy_kvs_ok])
    (simp_all add: alice_not_key toy_simps)

section \<open>The server's handler\<close>

text \<open>
  C8: a GET entry built under the current master key makes the server return and store the same
  pairs of bits under the new master key, in the first 168 labels, and zeros in the other 472.
\<close>

theorem server_get_rekeys:
  assumes "running sv" and "sodium_ok S" and "fresh_ok F" and "kv_get K (db sv) key = Some lab"
    and "encodes S old bits lab" and "\<forall>p. bits p \<in> {0, 1, 2, 3}"
    and "masterKeys st key = Some old" and "length old = KEYBYTES"
  defines "out \<equiv> answer (\<lambda>p. label S (keygen F) p (bits p))"
  shows "\<exists>e. fst (constructGetEntry S F key st) = Inr e \<and>
    kv_access S K e sv = (Inr out, sv\<lparr>access_count := access_count sv + 1, db := kv_put K (db sv) key out\<rparr>)"
  using constructGetEntry_ok [OF assms(2,3,7,8)] kv_access_get [OF assms(1-5)] assms(6)
  by (simp add: out_def)

definition toy_helper :: helper where
  "toy_helper = \<lparr>keySet = {''5''}, valueSizes = [''5'' \<mapsto> 1], masterKeys = [''5'' \<mapsto> replicate KEYBYTES 1],
     locks = [''5'' \<mapsto> True]\<rparr>"

definition toy_loaded :: "(string \<rightharpoonup> bytes) server" where
  "toy_loaded = toy_server\<lparr>db := [''5'' \<mapsto> answer (\<lambda>p. label toy_sodium (replicate KEYBYTES 1) p 2)]\<rparr>"

lemma toy_loaded_get: "running toy_loaded"
  "kv_get toy_kvs (db toy_loaded) ''5'' = Some (answer (\<lambda>p. label toy_sodium (replicate KEYBYTES 1) p 2))"
  by (simp_all add: toy_loaded_def toy_kvs_def)

lemma toy_master: "masterKeys toy_helper ''5'' = Some (replicate KEYBYTES 1)"
  "length (replicate KEYBYTES (1 :: byte)) = KEYBYTES"
  by (simp_all add: toy_helper_def)

theorem server_get_rekeys_witness:
  "\<exists>e. fst (constructGetEntry toy_sodium (toy_fresh 9) ''5'' toy_helper) = Inr e \<and>
    fst (kv_access toy_sodium toy_kvs e toy_loaded) =
      Inr (answer (\<lambda>p. label toy_sodium (replicate KEYBYTES 9) p 2))"
  using server_get_rekeys [OF toy_loaded_get(1) toy_sodium_ok toy_fresh_ok [of 9] toy_loaded_get(2)
      encodes_answer [OF toy_sodium_ok] _ toy_master]
  by fastforce

text \<open>
  C9: a PUT entry for a value of at most 160 bytes, built under the current master key, makes the server
  return and store one and the same record, whatever the record held: at the
  positions it serves (C28), 0 to 167, the labels of the new value under the new master key, at the
  other 472 positions zeros.
\<close>

theorem server_put_replaces:
  assumes "running sv" and "sodium_ok S" and "fresh_ok F" and "kv_get K (db sv) key = Some lab"
    and "encodes S old bits lab" and "\<forall>p. bits p \<in> {0, 1, 2, 3}"
    and "masterKeys st key = Some old" and "length old = KEYBYTES" and "length v \<le> VALUE_SIZE"
  shows "\<exists>e out. fst (constructPutEntry S F key v st) = Inr e \<and>
    kv_access S K e sv = (Inr out, sv\<lparr>access_count := access_count sv + 1, db := kv_put K (db sv) key out\<rparr>) \<and>
    length out = BLOCK_SIZE \<and>
    (\<forall>p < 168. slot out p = label S (keygen F) p (pair (pad v) p)) \<and>
    (\<forall>p. 168 \<le> p \<and> p < POSITIONS \<longrightarrow> slot out p = replicate (1 + KEYBYTES) 0)"
proof -
  let ?label = "\<lambda>p. label S (keygen F) p (pair (pad v) p)"
  have "length (?label p) = 1 + KEYBYTES" for p by (simp add: length_label assms(2))
  then have "length (answer ?label) = BLOCK_SIZE"
    "p < POSITIONS \<Longrightarrow> slot (answer ?label) p = (if p < SERVED then ?label p else replicate (1 + KEYBYTES) 0)" for p
    by (simp_all add: length_answer slot_answer)
  then show ?thesis
    using constructPutEntry_ok [OF assms(2,3,9,7,8)] kv_access_put [OF assms(1-5)] assms(6) SERVED_le
    by (auto simp: SERVED_def)
qed

theorem server_put_replaces_witness:
  "\<exists>e out. fst (constructPutEntry toy_sodium (toy_fresh 9) ''5'' [65] toy_helper) = Inr e \<and>
    fst (kv_access toy_sodium toy_kvs e toy_loaded) = Inr out \<and>
    slot out 3 = label toy_sodium (replicate KEYBYTES 9) 3 (pair (pad [65]) 3) \<and> slot out 168 = replicate (1 + KEYBYTES) 0"
proof -
  have "length [65 :: byte] \<le> VALUE_SIZE" by (simp add: VALUE_SIZE_def)
  from server_put_replaces [OF toy_loaded_get(1) toy_sodium_ok toy_fresh_ok [of 9] toy_loaded_get(2)
      encodes_answer [OF toy_sodium_ok] _ toy_master this]
  obtain e out where "fst (constructPutEntry toy_sodium (toy_fresh 9) ''5'' [65] toy_helper) = Inr e"
    "fst (kv_access toy_sodium toy_kvs e toy_loaded) = Inr out"
    "\<forall>p < 168. slot out p = label toy_sodium (keygen (toy_fresh 9)) p (pair (pad [65]) p)"
    "\<forall>p. 168 \<le> p \<and> p < POSITIONS \<longrightarrow> slot out p = replicate (1 + KEYBYTES) 0" by fastforce
  moreover have "(168 :: nat) < POSITIONS" by (simp add: layout)
  ultimately show ?thesis by (intro exI [of _ e] exI [of _ out]) (simp add: toy_fresh_def)
qed

text \<open>
  C28: the 64 decryption tasks of an access open exactly the labels 0 to 167 of the 640: some of
  them in several tasks, and none of the others.
\<close>

theorem tasks_open_a_prefix:
  "set (concat (map served [0..<SERVER_NUM_THREADS])) = {p. p < 168} \<and>
   168 < POSITIONS \<and> \<not> distinct (concat (map served [0..<SERVER_NUM_THREADS])) \<and>
   decryptPortion S part lab m = map_res (decrypt_store S m lab) (served part)"
proof -
  have two: "3 \<in> set (served 0)" "3 \<in> set (served 1)" by (simp_all add: in_served)
  have split: "[0..<SERVER_NUM_THREADS] = 0 # 1 # [2..<SERVER_NUM_THREADS]"
    by (simp add: SERVER_NUM_THREADS_def upt_conv_Cons)
  have "\<not> distinct (concat (map served [0..<SERVER_NUM_THREADS]))"
    unfolding split using two by auto
  moreover have "(168 :: nat) < POSITIONS" by (simp add: layout)
  ultimately show ?thesis
    unfolding set_served decryptPortion_eq by (simp add: SERVED_def lessThan_def)
qed

text \<open>
  When one of the decryptions of an access fails, the server process exits: the caller gets a
  transport error, the database is unchanged, and from then on every operation of every client of
  the proxy fails without changing the proxy's state.
\<close>

lemma failed_decryption_stops_service:
  assumes "running sv" and "kv_get K (db sv) (keyName e) = Some lab" and "length lab = BLOCK_SIZE"
    and "entry_sized e" and "p < 168" and "decrypt_at S (lane_of e) lab p = Inl ProcessExit"
  shows "kv_access S K e sv = (Inl TransportError, sv\<lparr>running := False\<rparr>) \<and>
    proxy_results S K ops (px, sv\<lparr>running := False\<rparr>) =
      (replicate (length ops) (Inl TransportError), px, sv\<lparr>running := False\<rparr>)"
proof -
  have "proxy_results S K ops (px, sv\<lparr>running := False\<rparr>) =
      (replicate (length ops) (Inl TransportError), px, sv\<lparr>running := False\<rparr>)"
  proof (induction ops)
    case (Cons x ops)
    then show ?case by (cases x) (simp add: proxy_results_def proxy_access_def)
  qed (simp add: proxy_results_def)
  then show ?thesis using kv_access_exit [OF assms(1-4)] assms(5,6) by (simp add: SERVED_def)
qed

definition toy_forged :: entry where
  "toy_forged = entry_of ''5'' (\<lambda>l. replicate (BLOCK_LEN * POSITIONS) 0)"

lemma failed_decryption_stops_service_example:
  "kv_access toy_sodium toy_kvs toy_forged (toy_server\<lparr>db := [''5'' \<mapsto> replicate BLOCK_SIZE 1]\<rparr>) =
    (Inl TransportError, toy_server\<lparr>db := [''5'' \<mapsto> replicate BLOCK_SIZE 1], running := False\<rparr>)"
proof -
  let ?sv = "toy_server\<lparr>db := [''5'' \<mapsto> replicate BLOCK_SIZE 1]\<rparr>"
  have "decrypt_at toy_sodium (lane_of toy_forged) (replicate BLOCK_SIZE 1) 0 = Inl ProcessExit"
    by (simp add: decrypt_at_def read_at_def toy_forged_def layout lane_at_def toy_sodium_def)
  moreover have "entry_sized toy_forged" by (simp add: entry_sized_def toy_forged_def)
  ultimately show ?thesis
    using failed_decryption_stops_service [of ?sv toy_kvs toy_forged "replicate BLOCK_SIZE 1" 0 toy_sodium]
    by (simp add: toy_kvs_def toy_forged_def)
qed

section \<open>The entries and their decoding\<close>

text \<open>The stores of the parts, one part after the other, make the PUT entry.\<close>

lemma put_entry_stores:
  assumes "sodium_ok S" and "fresh_ok F" and "length v \<le> VALUE_SIZE"
    and "masterKeys st key = Some old" and "length old = KEYBYTES"
  shows "put_pre (S, F, pad v, old) \<and> (\<exists>m. apply_stores rekey_init (concat (put_tasks (S, F, pad v, old))) = Inr m \<and>
    fst (constructPutEntry S F key v st) = Inr (entry_of key m))"
proof -
  have pre: "put_pre (S, F, pad v, old)"
    using assms(1-3,5) by (simp add: put_pre_def length_pad)
  let ?r = "map_res (\<lambda>part. putEntryParallel S part (pad v) old F) [0..<PROXY_NUM_THREADS]"
  have "fst (constructPutEntry S F key v st) =
      bind_res (bind_res ?r (\<lambda>ts. apply_stores rekey_init (concat ts))) (\<lambda>m. Inr (entry_of key m))"
    using assms(3,4) by (simp add: constructPutEntry_def padToLen_pad split: sum.split)
  moreover obtain ts where ts: "?r = Inr ts"
    using constructPutEntry_ok [OF assms(1-5)] assms(3,4)
    by (cases ?r) (simp_all add: constructPutEntry_def padToLen_pad)
  moreover from ts have "ts = put_tasks (S, F, pad v, old)" by (simp add: put_tasks_def tasks_of_def)
  moreover obtain m where "apply_stores rekey_init (concat (put_tasks (S, F, pad v, old))) = Inr m"
    using put_phase.never_out_of_bounds [OF pre interleaving_concat] by blast
  ultimately show ?thesis using pre by simp
qed

text \<open>
  Whatever order the eight tasks of the thread pool are run in, store by store, the buffers
  end up as the PUT entry \<open>constructPutEntry\<close> returns.
\<close>

lemma put_entry_schedule:
  assumes "sodium_ok S" and "fresh_ok F" and "length v \<le> VALUE_SIZE"
    and "masterKeys st key = Some old" and "length old = KEYBYTES"
    and "interleaving (put_tasks (S, F, pad v, old)) ys"
  shows "\<exists>m. apply_stores rekey_init ys = Inr m \<and> fst (constructPutEntry S F key v st) = Inr (entry_of key m)"
  using put_entry_stores [OF assms(1-5)] put_phase.schedule_independent [OF _ assms(6)] by metis

text \<open>The same for a GET entry.\<close>

lemma get_entry_schedule:
  assumes "sodium_ok S" and "fresh_ok F"
    and "masterKeys st key = Some old" and "length old = KEYBYTES"
    and "interleaving (get_tasks (S, F, old)) ys"
  shows "\<exists>m. apply_stores rekey_init ys = Inr m \<and> fst (constructGetEntry S F key st) = Inr (entry_of key m)"
proof -
  have pre: "get_pre (S, F, old)" using assms(1,2,4) by (simp add: get_pre_def)
  let ?r = "map_res (\<lambda>part. getEntryParallel S part old F) [0..<PROXY_NUM_THREADS]"
  have "fst (constructGetEntry S F key st) =
      bind_res (bind_res ?r (\<lambda>ts. apply_stores rekey_init (concat ts))) (\<lambda>m. Inr (entry_of key m))"
    using assms(3) by (simp add: constructGetEntry_def split: sum.split)
  moreover obtain ts where ts: "?r = Inr ts"
    using constructGetEntry_ok [OF assms(1-4)] assms(3)
    by (cases ?r) (simp_all add: constructGetEntry_def)
  moreover have same: "apply_stores rekey_init ys = apply_stores rekey_init (concat ts)"
    using get_phase.schedule_independent [OF pre assms(5)] ts by (simp add: get_tasks_def tasks_of_def)
  moreover obtain m where m: "apply_stores rekey_init ys = Inr m"
    using get_phase.never_out_of_bounds [OF pre assms(5)] by blast
  moreover from same m have "apply_stores rekey_init (concat ts) = Inr m" by simp
  ultimately show ?thesis by simp
qed

text \<open>
  Whatever order the server's 64 overlapping tasks are run in, store by store, \<open>access\<close>
  returns and stores the same block, when no decryption fails.
\<close>

lemma access_schedule:
  assumes "running sv" and "sodium_ok S" and "kv_get K (db sv) (keyName e) = Some lab"
    and "\<forall>p < 168. \<exists>d. decrypt_at S (lane_of e) lab p = Inr d"
    and "interleaving (access_tasks (S, lab, lane_of e)) ys"
  shows "\<exists>m. apply_stores access_init ys = Inr m \<and> kv_access S K e sv =
    (Inr (m LA), sv\<lparr>access_count := access_count sv + 1, db := kv_put K (db sv) (keyName e) (m LA)\<rparr>)"
proof -
  have pre: "access_pre (S, lab, lane_of e)" using assms(2) by (simp add: access_pre_def)
  let ?r = "map_res (\<lambda>part. decryptPortion S part lab (lane_of e)) [0..<SERVER_NUM_THREADS]"
  obtain d where "\<forall>p < 168. decrypt_at S (lane_of e) lab p = Inr (d p)" using assms(4) by metis
  then have "\<And>p. p \<in> set (concat (map served [0..<SERVER_NUM_THREADS])) \<Longrightarrow>
      decrypt_at S (lane_of e) lab p = Inr (d p)"
    unfolding set_served by (simp add: SERVED_def)
  from tasks_map_res [OF this] obtain ts where ts: "?r = Inr ts" by blast
  have same: "apply_stores access_init ys = apply_stores access_init (concat ts)"
    using access_phase.schedule_independent [OF pre assms(5)] ts by (simp add: access_tasks_def tasks_of_def)
  obtain m where m: "apply_stores access_init ys = Inr m"
    using access_phase.never_out_of_bounds [OF pre assms(5)] by blast
  with same have "apply_stores access_init (concat ts) = Inr m" by simp
  with m show ?thesis using assms(1,3) ts by (simp add: kv_access_def)
qed

definition toy_get_entry :: entry where
  "toy_get_entry = entry_of ''5'' (block_mem POSITIONS (rekey_lanes
     (get_plain toy_sodium (replicate KEYBYTES 1) (replicate KEYBYTES 9)) toy_sodium (toy_fresh 9) (replicate KEYBYTES 1)))"

text \<open>C11: the entry of a CREATE reads back as the value, for every value of at most 160 bytes.\<close>

theorem create_entry_roundtrip:
  assumes "sodium_ok S" and "fresh_ok F" and "subkeys_distinct S (keygen F)" and "length v \<le> VALUE_SIZE"
  shows "\<exists>e st'. constructCreateEntry S F key v st = (Inr e, st') \<and> keyName e = key \<and>
    fst (readValueFromLabels S c key (encryptedLabelsA e) (set_value_size key v st')) = Inr v"
proof -
  let ?e = "entry_of key (block_mem POSITIONS (create_lanes S (pad v) (keygen F)))"
  let ?st = "st\<lparr>masterKeys := (masterKeys st)(key \<mapsto> keygen F)\<rparr>"
  have lab: "encryptedLabelsA ?e = blocks (\<lambda>p. label S (keygen F) p (pair (pad v) p)) POSITIONS"
    by (simp add: entry_of_def block_mem_def) (rule blocks_cong, simp add: create_lanes_def)
  then have len: "length (encryptedLabelsA ?e) = BLOCK_SIZE"
    unfolding BLOCK_SIZE_positions by (simp add: length_blocks length_label assms(1))
  have small: "length v < 2 ^ 62" using assms(4) by (simp add: layout)
  have "take (length v) (pad v) = v" by (simp add: pad_def)
  with decode_blocks [OF assms(1,3) length_pad [OF assms(4)]]
  have "fst (readValueFromLabels S c key (encryptedLabelsA ?e) (set_value_size key v ?st)) = Inr v"
    using readValueFromLabels_eq [of "set_value_size key v ?st" key "keygen F" "encryptedLabelsA ?e" S c]
      length_keygen [OF assms(2)] len small assms(4)
    by (simp add: set_value_size_def int_of_value_size substr0_nat lab)
  then show ?thesis using constructCreateEntry_ok [OF assms(1,2,4)] by simp
qed

theorem create_entry_roundtrip_witness:
  "\<exists>e st'. constructCreateEntry toy_sodium (toy_fresh 9) ''5'' (replicate 160 200) toy_helper = (Inr e, st') \<and>
    keyName e = ''5'' \<and>
    fst (readValueFromLabels toy_sodium 0 ''5'' (encryptedLabelsA e) (set_value_size ''5'' (replicate 160 200) st')) =
      Inr (replicate 160 200)"
  by (rule create_entry_roundtrip [OF toy_sodium_ok toy_fresh_ok toy_distinct]) (simp add: layout)

text \<open>
  C26: a GET and a PUT on the same key, with the same randomness, send entries that the server
  cannot tell apart by their shape: the same key name, the same length in each of the four lanes
  whatever the value written, and the same nonce at the head of each of the 640 blocks; and they leave
  the proxy's tables the same.
\<close>

theorem get_put_same_shape:
  assumes "sodium_ok S" and "fresh_ok F" and "length v \<le> VALUE_SIZE"
    and "masterKeys st key = Some old" and "length old = KEYBYTES"
  shows "\<exists>e e'. fst (constructGetEntry S F key st) = Inr e \<and> fst (constructPutEntry S F key v st) = Inr e' \<and>
    snd (constructGetEntry S F key st) = snd (constructPutEntry S F key v st) \<and>
    keyName e = keyName e' \<and> entry_sized e \<and> entry_sized e' \<and>
    (\<forall>l. \<forall>p < POSITIONS. read_at (lane_of e l) (BLOCK_LEN * p) NONCEBYTES =
      read_at (lane_of e' l) (BLOCK_LEN * p) NONCEBYTES)"
proof -
  have sized: "length (blocks (rekey_lanes plain S F old l) POSITIONS) = BLOCK_LEN * POSITIONS"
    and nonce: "p < POSITIONS \<Longrightarrow> read_at (blocks (rekey_lanes plain S F old l) POSITIONS) (BLOCK_LEN * p) NONCEBYTES =
      Inr (nonces F (p div 4) (p mod 4) l)"
    if plain: "\<And>l p. length (plain l p) = 1 + KEYBYTES" for plain l p
  proof -
    have f: "\<And>q. q < POSITIONS \<Longrightarrow> length (rekey_lanes plain S F old l q) = BLOCK_LEN"
      by (rule length_rekey_lanes [OF assms(1,2) plain])
    then show "length (blocks (rekey_lanes plain S F old l) POSITIONS) = BLOCK_LEN * POSITIONS"
      by (rule length_blocks)
    have "0 + NONCEBYTES \<le> BLOCK_LEN" by (simp add: BLOCK_LEN_def)
    from read_block [where f = "rekey_lanes plain S F old l", OF _ f this]
    show "p < POSITIONS \<Longrightarrow> read_at (blocks (rekey_lanes plain S F old l) POSITIONS) (BLOCK_LEN * p) NONCEBYTES =
      Inr (nonces F (p div 4) (p mod 4) l)"
      by (simp add: rekey_lanes_def length_nonce [OF assms(2)])
  qed
  note get = length_get_plain [OF assms(1), of old "keygen F"]
  note put = length_put_plain [OF assms(1), of "pad v" "keygen F"]
  show ?thesis
    unfolding constructGetEntry_ok [OF assms(1,2,4,5)] constructPutEntry_ok [OF assms]
    by (simp add: entry_sized_def block_mem_def sized [OF get] sized [OF put] nonce [OF get] nonce [OF put])
qed

theorem get_put_same_shape_witness:
  "\<exists>e e'. fst (constructGetEntry toy_sodium (toy_fresh 9) ''5'' toy_helper) = Inr e \<and>
    fst (constructPutEntry toy_sodium (toy_fresh 9) ''5'' [65] toy_helper) = Inr e' \<and>
    keyName e = keyName e' \<and> entry_sized e \<and> entry_sized e'"
  using get_put_same_shape [OF toy_sodium_ok toy_fresh_ok [of 9] _ toy_master, of "[65]"]
  by (fastforce simp: VALUE_SIZE_def)

text \<open>
  Writing a pair of bits of a byte changes that pair and no other, and four pairs written in
  turn determine the byte whatever it was before.
\<close>

lemma pairs_of_bits:
  assumes "j < 4" and "k < 4" and "b \<in> {0, 1, 2, 3}"
  shows "getBits (modifyBits c (2 * j) b) (2 * k) = (if k = j then b else getBits c (2 * k)) \<and>
    byte_of (\<lambda>i. getBits c (2 * i)) c' = c"
proof -
  have "getBits (modifyBits c (2 * j) b) (2 * k) = (if k = j then b else getBits c (2 * k))"
  proof (rule bit_word_eqI)
    fix i assume "i < LENGTH(8)"
    have "bit b i \<longleftrightarrow> i < 2 \<and> bit b i"
      using assms(3) and_3_small [of b] bit_and_iff [of b 3 i] by (auto simp: bit_3_byte simp del: bit_numeral_word_iff)
    then show "bit (getBits (modifyBits c (2 * j) b) (2 * k)) i =
        bit (if k = j then b else getBits c (2 * k)) i"
      using assms(1,2) by (auto simp: bit_getBits bit_modifyBits less_2_cases_iff; arith?)
  qed
  then show ?thesis by (simp add: byte_of_getBits)
qed

end
