(* ===== verification/LabelThreads.thy ===== *)
theory LabelThreads
  imports LabelRefinement
begin

text \<open>
  The proxy with its threads: \<open>TThreadedServer\<close> runs \<open>handleOp\<close> in one thread per connection, all
  on the same tables, locks and counters; \<open>create\<close> is a oneway call, so it is on its way to the
  server when the handler goes on.  The steps are the accesses to shared state that the atomic
  locks separate; the construction of an entry, which works on the key's own records, is one step.
  Each operation opens its own connection: once the server has gone, opening it fails
  (\<open>no_connection\<close>, before the operation has touched anything), sending a create may fail
  (\<open>send_fails\<close>, the key's lock stays taken), or the create is lost on its way.  A connection
  that was opened before may still be used, so the other steps stay possible.  \<open>G\<close> is the
  randomness that libsodium may return.
\<close>

datatype pc = Begin operation | Want operation bool | Hold operation bool | Sending operation entry
  | Asking operation entry | Answered operation bytes | Done "bytes res"

record 'd psys =
  ps_px :: proxy
  ps_sv :: "'d server"
  ps_mail :: "entry list"
  ps_pc :: "nat \<Rightarrow> pc"

definition goto :: "nat \<Rightarrow> pc \<Rightarrow> proxy \<Rightarrow> 'd psys \<Rightarrow> 'd psys" where
  "goto i p px s = s\<lparr>ps_px := px, ps_pc := (ps_pc s)(i := p)\<rparr>"

text \<open>What a thread that holds the lock builds: the entry and the tables, or the exception.\<close>

definition build :: "sodium \<Rightarrow> fresh \<Rightarrow> operation \<Rightarrow> bool \<Rightarrow> helper \<Rightarrow> entry res \<times> helper" where
  "build S F ope new st =
    (if new then
       (case constructCreateEntry S F (op_key ope) (op_value ope) st of
          (Inl er, st) \<Rightarrow> (Inl er, st)
        | (Inr e, st) \<Rightarrow> (Inr e, insert_key (op_key ope) (set_value_size (op_key ope) (op_value ope) st)))
     else if op_op ope = ''GET'' then constructGetEntry S F (op_key ope) st
     else
       (case constructPutEntry S F (op_key ope) (op_value ope) st of
          (Inl er, st) \<Rightarrow> (Inl er, st)
        | (Inr e, st) \<Rightarrow> (Inr e, set_value_size (op_key ope) (op_value ope) st)))"

definition decode :: "sodium \<Rightarrow> byte \<Rightarrow> operation \<Rightarrow> bytes \<Rightarrow> helper \<Rightarrow> bytes res \<times> helper" where
  "decode S c ope labels st =
    (if op_op ope = ''GET'' then readValueFromLabels S c (op_key ope) labels st else (Inr [], st))"

inductive proxy_step :: "sodium \<Rightarrow> 'd kvs \<Rightarrow> fresh set \<Rightarrow> 'd psys \<Rightarrow> 'd psys \<Rightarrow> bool" for S K G where
  missing: "ps_pc s i = Begin ope \<Longrightarrow> op_key ope \<notin> keySet (hlp (ps_px s)) \<Longrightarrow> op_op ope = ''GET'' \<Longrightarrow>
    proxy_step S K G s (goto i (Done (Inr [])) (count_abort (ps_px s)) s)"
| check_key: "ps_pc s i = Begin ope \<Longrightarrow> op_key ope \<in> keySet (hlp (ps_px s)) \<or> op_op ope \<noteq> ''GET'' \<Longrightarrow>
    proxy_step S K G s (goto i (Want ope (op_key ope \<notin> keySet (hlp (ps_px s)))) (ps_px s) s)"
| no_connection: "ps_pc s i = Begin ope \<Longrightarrow> \<not> running (ps_sv s) \<Longrightarrow>
    proxy_step S K G s (goto i (Done (Inl TransportError)) (ps_px s) s)"
| lock: "ps_pc s i = Want ope new \<Longrightarrow> exchange (op_key ope) False (hlp (ps_px s)) = (True, st) \<Longrightarrow>
    proxy_step S K G s (goto i (Hold ope new) ((ps_px s)\<lparr>hlp := st\<rparr>) s)"
| locked: "ps_pc s i = Want ope new \<Longrightarrow> exchange (op_key ope) False (hlp (ps_px s)) = (False, st) \<Longrightarrow>
    proxy_step S K G s (goto i (Done (Inr [])) (count_abort ((ps_px s)\<lparr>hlp := st\<rparr>)) s)"
| built: "ps_pc s i = Hold ope new \<Longrightarrow> F \<in> G \<Longrightarrow> build S F ope new (hlp (ps_px s)) = (Inr e, st) \<Longrightarrow>
    proxy_step S K G s (goto i (if new then Sending ope e else Asking ope e) ((ps_px s)\<lparr>hlp := st\<rparr>) s)"
| build_throws: "ps_pc s i = Hold ope new \<Longrightarrow> F \<in> G \<Longrightarrow> build S F ope new (hlp (ps_px s)) = (Inl er, st) \<Longrightarrow>
    proxy_step S K G s (goto i (Done (Inl er)) ((ps_px s)\<lparr>hlp := st\<rparr>) s)"
| send: "ps_pc s i = Sending ope e \<Longrightarrow>
    proxy_step S K G s ((goto i (Done (Inr [])) (finish (op_key ope) (ps_px s)) s)\<lparr>ps_mail := ps_mail s @ [e]\<rparr>)"
| send_fails: "ps_pc s i = Sending ope e \<Longrightarrow> \<not> running (ps_sv s) \<Longrightarrow>
    proxy_step S K G s (goto i (Done (Inl TransportError)) (ps_px s) s)"
| deliver: "ps_mail s = xs @ e # ys \<Longrightarrow>
    proxy_step S K G s (s\<lparr>ps_mail := xs @ ys, ps_sv := kv_create K e (ps_sv s)\<rparr>)"
| ask: "ps_pc s i = Asking ope e \<Longrightarrow> kv_access S K e (ps_sv s) = (Inr labels, sv) \<Longrightarrow>
    proxy_step S K G s ((goto i (Answered ope labels) (ps_px s) s)\<lparr>ps_sv := sv\<rparr>)"
| ask_throws: "ps_pc s i = Asking ope e \<Longrightarrow> kv_access S K e (ps_sv s) = (Inl er, sv) \<Longrightarrow>
    proxy_step S K G s ((goto i (Done (Inl er)) (ps_px s) s)\<lparr>ps_sv := sv\<rparr>)"
| answer: "ps_pc s i = Answered ope labels \<Longrightarrow> decode S c ope labels (hlp (ps_px s)) = (Inr v, st) \<Longrightarrow>
    proxy_step S K G s (goto i (Done (Inr v)) (finish (op_key ope) ((ps_px s)\<lparr>hlp := st\<rparr>)) s)"
| answer_throws: "ps_pc s i = Answered ope labels \<Longrightarrow> decode S c ope labels (hlp (ps_px s)) = (Inl er, st) \<Longrightarrow>
    proxy_step S K G s (goto i (Done (Inl er)) ((ps_px s)\<lparr>hlp := st\<rparr>) s)"

inductive_cases proxy_stepE: "proxy_step S K G s s'"

lemma goto_simps [simp]:
  "ps_px (goto i p px s) = px" "ps_sv (goto i p px s) = ps_sv s" "ps_mail (goto i p px s) = ps_mail s"
  "ps_pc (goto i p px s) = (ps_pc s)(i := p)"
  by (simp_all add: goto_def)

text \<open>When nobody is at work and no create on its way, nothing happens.\<close>

lemma idle_proxy_step: "proxy_step S K G s s' \<Longrightarrow> ps_mail s = [] \<Longrightarrow> \<forall>i. \<exists>r. ps_pc s i = Done r \<Longrightarrow> False"
  by (erule proxy_stepE) (metis pc.distinct | simp)+

section \<open>One thread per key\<close>

fun holds :: "pc \<Rightarrow> string option" where
  "holds (Hold ope new) = Some (op_key ope)"
| "holds (Sending ope e) = Some (op_key ope)"
| "holds (Asking ope e) = Some (op_key ope)"
| "holds (Answered ope labels) = Some (op_key ope)"
| "holds _ = None"

definition locked_out :: "helper \<Rightarrow> string \<Rightarrow> bool" where
  "locked_out st key \<longleftrightarrow> \<not> at_default (locks st) False key"

definition exclusive :: "'d psys \<Rightarrow> bool" where
  "exclusive s \<longleftrightarrow> (\<forall>i key. holds (ps_pc s i) = Some key \<longrightarrow> locked_out (hlp (ps_px s)) key) \<and>
    (\<forall>i j key. holds (ps_pc s i) = Some key \<longrightarrow> holds (ps_pc s j) = Some key \<longrightarrow> i = j)"

lemma locks_construct:
  "constructCreateEntry S F key v st = (r, st') \<Longrightarrow> locks st' = locks st"
  "constructGetEntry S F key st = (r, st') \<Longrightarrow> locks st' = locks st"
  "constructPutEntry S F key v st = (r, st') \<Longrightarrow> locks st' = locks st"
  by (auto simp: constructCreateEntry_def constructGetEntry_def constructPutEntry_def Let_def split: sum.splits)

lemma locks_build: "build S F ope new st = (r, st') \<Longrightarrow> locks st' = locks st"
  by (auto simp: build_def insert_key_def set_value_size_def split: if_splits sum.splits prod.splits
      dest: locks_construct)

lemma locks_decode: "decode S c ope labels st = (r, st') \<Longrightarrow> locks st' = locks st"
  by (auto simp: decode_def readValueFromLabels_def split: if_splits)

text \<open>Moving a thread without giving it a key keeps the invariant, when no lock is given back.\<close>

lemma exclusive_move:
  assumes "exclusive s" and "holds p = holds (ps_pc s i) \<or> holds p = None"
    and "ps_pc s' = (ps_pc s)(i := p)" and "\<And>k. locked_out (hlp (ps_px s)) k \<Longrightarrow> locked_out (hlp (ps_px s')) k"
  shows "exclusive s'"
  using assms(1,2,4) unfolding exclusive_def assms(3) by (auto split: if_splits; metis)

lemma exclusive_release:
  assumes "exclusive s" and "holds (ps_pc s i) = Some key" and "holds p = None"
    and "ps_pc s' = (ps_pc s)(i := p)"
    and "\<And>k. k \<noteq> key \<Longrightarrow> locked_out (hlp (ps_px s)) k \<Longrightarrow> locked_out (hlp (ps_px s')) k"
  shows "exclusive s'"
proof -
  have "k \<noteq> key" if "j \<noteq> i" "holds (ps_pc s j) = Some k" for j k
    using assms(1,2) that unfolding exclusive_def by metis
  then show ?thesis
    using assms(1,3,5) unfolding exclusive_def assms(4) by (auto split: if_splits; metis)
qed

lemma exclusive_acquire:
  assumes "exclusive s" and "\<not> locked_out (hlp (ps_px s)) key" and "holds p = Some key"
    and "ps_pc s' = (ps_pc s)(i := p)" and "\<And>k. locked_out (hlp (ps_px s')) k \<longleftrightarrow> locked_out (hlp (ps_px s)) k \<or> k = key"
  shows "exclusive s'"
proof -
  have "holds (ps_pc s j) \<noteq> Some key" for j using assms(1,2) unfolding exclusive_def by metis
  then show ?thesis
    using assms(1,3,5) unfolding exclusive_def assms(4) by (auto split: if_splits)
qed

lemma locked_out_exchange:
  "locked_out (snd (exchange key b st)) k \<longleftrightarrow> (if k = key then \<not> b else locked_out st k)"
  by (simp add: locked_out_def exchange_def at_default_def)

lemma locked_out_cong: "locks st' = locks st \<Longrightarrow> locked_out st' k = locked_out st k"
  by (simp add: locked_out_def)

lemma hlp_count_abort [simp]: "hlp (count_abort px) = hlp px"
  by (simp add: count_abort_def)

lemma hlp_finish: "hlp (finish key px) = snd (exchange key True (hlp px))"
  by (simp add: finish_def)

lemma proxy_step_exclusive:
  assumes "proxy_step S K G s s'" and ex: "exclusive s"
  shows "exclusive s'"
  using assms(1)
proof cases
  case (missing i ope)
  show ?thesis by (rule exclusive_move [OF ex, of "Done (Inr [])" i]) (simp_all add: missing)
next
  case (check_key i ope)
  show ?thesis
    by (rule exclusive_move [OF ex, of "Want ope (op_key ope \<notin> keySet (hlp (ps_px s)))" i]) (simp_all add: check_key)
next
  case (no_connection i ope)
  show ?thesis by (rule exclusive_move [OF ex, of "Done (Inl TransportError)" i]) (simp_all add: no_connection)
next
  case (lock i ope new st)
  have st: "st = snd (exchange (op_key ope) False (hlp (ps_px s)))" using lock(3) by simp
  have "fst (exchange (op_key ope) False (hlp (ps_px s)))" using lock(3) by simp
  then have "\<not> locked_out (hlp (ps_px s)) (op_key ope)" by (simp add: exchange_def locked_out_def)
  then show ?thesis
    by (rule exclusive_acquire [OF ex, of "op_key ope" "Hold ope new" _ i])
      (simp_all add: lock(1) st locked_out_exchange)
next
  case (locked i ope new st)
  have st: "st = snd (exchange (op_key ope) False (hlp (ps_px s)))" using locked(3) by simp
  show ?thesis
    by (rule exclusive_move [OF ex, of "Done (Inr [])" i]) (simp_all add: locked(1) st locked_out_exchange)
next
  case (built i ope new F e st)
  show ?thesis
    by (rule exclusive_move [OF ex, of "if new then Sending ope e else Asking ope e" i])
      (simp_all add: built(1,2) locked_out_cong [OF locks_build [OF built(4)]])
next
  case (build_throws i ope new F er st)
  show ?thesis
    by (rule exclusive_move [OF ex, of "Done (Inl er)" i])
      (simp_all add: build_throws(1) locked_out_cong [OF locks_build [OF build_throws(4)]])
next
  case (send i ope e)
  show ?thesis
    by (rule exclusive_release [OF ex, of i "op_key ope" "Done (Inr [])"])
      (simp_all add: send hlp_finish locked_out_exchange)
next
  case (send_fails i ope e)
  show ?thesis by (rule exclusive_move [OF ex, of "Done (Inl TransportError)" i]) (simp_all add: send_fails)
next
  case (deliver xs e ys)
  with ex show ?thesis by (simp add: exclusive_def)
next
  case (ask i ope e labels sv)
  show ?thesis by (rule exclusive_move [OF ex, of "Answered ope labels" i]) (simp_all add: ask(1,2))
next
  case (ask_throws i ope e er sv)
  show ?thesis by (rule exclusive_move [OF ex, of "Done (Inl er)" i]) (simp_all add: ask_throws(1))
next
  case (answer i ope labels c v st)
  show ?thesis
    by (rule exclusive_release [OF ex, of i "op_key ope" "Done (Inr v)"])
      (simp_all add: answer(1,2) hlp_finish locked_out_exchange locked_out_cong [OF locks_decode [OF answer(3)]])
next
  case (answer_throws i ope labels c er st)
  show ?thesis
    by (rule exclusive_move [OF ex, of "Done (Inl er)" i])
      (simp_all add: answer_throws(1) locked_out_cong [OF locks_decode [OF answer_throws(3)]])
qed

lemma proxy_steps_exclusive:
  "(proxy_step S K G)\<^sup>*\<^sup>* s s' \<Longrightarrow> exclusive s \<Longrightarrow> exclusive s'"
  by (induction rule: rtranclp_induct) (auto intro: proxy_step_exclusive)

section \<open>A key's tables belong to its holder\<close>

text \<open>What an operation on one key does to the records of another: nothing.\<close>

definition same_records :: "string \<Rightarrow> helper \<Rightarrow> helper \<Rightarrow> bool" where
  "same_records key st st' \<longleftrightarrow> masterKeys st' key = masterKeys st key \<and> valueSizes st' key = valueSizes st key"

lemma same_records_construct:
  "constructCreateEntry S F k v st = (r, st') \<Longrightarrow> key \<noteq> k \<Longrightarrow> same_records key st st'"
  "constructGetEntry S F k st = (r, st') \<Longrightarrow> key \<noteq> k \<Longrightarrow> same_records key st st'"
  "constructPutEntry S F k v st = (r, st') \<Longrightarrow> key \<noteq> k \<Longrightarrow> same_records key st st'"
  by (auto simp: same_records_def constructCreateEntry_def constructGetEntry_def constructPutEntry_def Let_def
      split: sum.splits)

lemma same_records_build: "build S F ope new st = (r, st') \<Longrightarrow> key \<noteq> op_key ope \<Longrightarrow> same_records key st st'"
  using same_records_construct [where key = key]
  by (fastforce simp: build_def insert_key_def set_value_size_def same_records_def
      split: if_splits sum.splits prod.splits)

lemma same_records_decode: "decode S c ope labels st = (r, st') \<Longrightarrow> key \<noteq> op_key ope \<Longrightarrow> same_records key st st'"
  by (auto simp: decode_def readValueFromLabels_def same_records_def split: if_splits)

lemma same_records_exchange [simp]: "same_records key st (snd (exchange k b st'))  \<longleftrightarrow> same_records key st st'"
  by (simp add: same_records_def exchange_def)

lemma same_records_refl [simp]: "same_records key st st"
  by (simp add: same_records_def)

lemma same_records_trans: "same_records key a b \<Longrightarrow> same_records key b c \<Longrightarrow> same_records key a c"
  by (simp add: same_records_def)

lemma step_same_records:
  assumes step: "proxy_step S K G s s'" and ex: "exclusive s" and hold: "holds (ps_pc s i) = Some key"
    and still: "ps_pc s' i = ps_pc s i"
  shows "same_records key (hlp (ps_px s)) (hlp (ps_px s'))"
proof -
  have other: "key \<noteq> k" if "holds (ps_pc s j) = Some k" "j \<noteq> i" for j k
    using ex hold that unfolding exclusive_def by metis
  from step show ?thesis
  proof cases
    case (lock j ope new st)
    then have "st = snd (exchange (op_key ope) False (hlp (ps_px s)))" by simp
    then show ?thesis by (simp add: lock(1))
  next
    case (locked j ope new st)
    then have "st = snd (exchange (op_key ope) False (hlp (ps_px s)))" by simp
    then show ?thesis by (simp add: locked(1))
  next
    case (built j ope new F e st)
    then have "j \<noteq> i" using still by (auto split: if_splits)
    with built other [of j "op_key ope"] show ?thesis
      by (auto intro: same_records_build split: if_splits)
  next
    case (build_throws j ope new F er st)
    then have "j \<noteq> i" using still by auto
    with build_throws other [of j "op_key ope"] show ?thesis by (auto intro: same_records_build)
  next
    case (answer j ope labels c v st)
    then have "j \<noteq> i" using still by auto
    with answer other [of j "op_key ope"] show ?thesis by (auto simp: hlp_finish intro: same_records_decode)
  next
    case (answer_throws j ope labels c er st)
    then have "j \<noteq> i" using still by auto
    with answer_throws other [of j "op_key ope"] show ?thesis by (auto intro: same_records_decode)
  qed (simp_all add: hlp_finish)
qed

definition others_step :: "sodium \<Rightarrow> 'd kvs \<Rightarrow> fresh set \<Rightarrow> nat \<Rightarrow> 'd psys \<Rightarrow> 'd psys \<Rightarrow> bool" where
  "others_step S K G i s s' \<longleftrightarrow> proxy_step S K G s s' \<and> ps_pc s' i = ps_pc s i"

lemma others_steps_same_records:
  "(others_step S K G i)\<^sup>*\<^sup>* s s' \<Longrightarrow> exclusive s \<Longrightarrow> holds (ps_pc s i) = Some key \<Longrightarrow>
    same_records key (hlp (ps_px s)) (hlp (ps_px s')) \<and> exclusive s' \<and> ps_pc s' i = ps_pc s i"
proof (induction rule: rtranclp_induct)
  case (step y z)
  then have y: "same_records key (hlp (ps_px s)) (hlp (ps_px y))" "exclusive y" "ps_pc y i = ps_pc s i" by auto
  from step(2) have yz: "proxy_step S K G y z" and pc: "ps_pc z i = ps_pc y i" by (auto simp: others_step_def)
  from step_same_records [OF yz y(2) _ pc] y(3) step(5)
  have "same_records key (hlp (ps_px y)) (hlp (ps_px z))" by simp
  with y proxy_step_exclusive [OF yz y(2)] pc show ?case by (auto intro: same_records_trans)
qed simp

section \<open>A thread alone\<close>

text \<open>The steps of a thread that nobody interrupts, its creates delivered at once, are \<open>handleOp\<close>.\<close>

lemma build_run_create:
  "run_create S create F ope (px, sv) =
    (case build S F ope True (hlp px) of (Inl er, st) \<Rightarrow> (Inl er, px\<lparr>hlp := st\<rparr>, sv)
     | (Inr e, st) \<Rightarrow> (Inr [], finish (op_key ope) (px\<lparr>hlp := st\<rparr>), create e sv))"
  by (simp add: run_create_def build_def Let_def split: sum.splits prod.splits)

lemma build_run_access:
  "(if op_op ope = ''GET'' then run_get S access F c ope (px, sv) else run_put S access F ope (px, sv)) =
    (case build S F ope False (hlp px) of (Inl er, st) \<Rightarrow> (Inl er, px\<lparr>hlp := st\<rparr>, sv)
     | (Inr e, st) \<Rightarrow>
       (case access e sv of (Inl er, sv) \<Rightarrow> (Inl er, px\<lparr>hlp := st\<rparr>, sv)
        | (Inr labels, sv) \<Rightarrow>
          (case decode S c ope labels st of (Inl er, st) \<Rightarrow> (Inl er, px\<lparr>hlp := st\<rparr>, sv)
           | (Inr v, st) \<Rightarrow> (Inr v, finish (op_key ope) (px\<lparr>hlp := st\<rparr>), sv))))"
  by (auto simp: run_get_def run_put_def build_def decode_def Let_def split: sum.splits prod.splits)

definition reaches :: "sodium \<Rightarrow> 'd kvs \<Rightarrow> fresh set \<Rightarrow> nat \<Rightarrow> 'd psys \<Rightarrow> bytes res \<times> proxy \<times> 'd server \<Rightarrow> bool" where
  "reaches S K G i s = (\<lambda>(r, px, sv). \<exists>s'. (proxy_step S K G)\<^sup>*\<^sup>* s s' \<and> ps_pc s' = (ps_pc s)(i := Done r) \<and>
     ps_px s' = px \<and> ps_sv s' = sv \<and> ps_mail s' = [])"

lemma reaches_step:
  "proxy_step S K G s s1 \<Longrightarrow> reaches S K G i s1 w \<Longrightarrow> (ps_pc s1)(i := Done (fst w)) = (ps_pc s)(i := Done (fst w)) \<Longrightarrow>
    reaches S K G i s w"
  by (cases w) (auto simp: reaches_def intro: converse_rtranclp_into_rtranclp)

lemma reaches_done:
  "proxy_step S K G s s' \<Longrightarrow> ps_pc s' = (ps_pc s)(i := Done r) \<Longrightarrow> ps_px s' = px \<Longrightarrow> ps_sv s' = sv \<Longrightarrow>
    ps_mail s' = [] \<Longrightarrow> reaches S K G i s (r, px, sv)"
  unfolding reaches_def by (auto intro: r_into_rtranclp)

lemma reaches_answer:
  assumes "ps_pc s i = Answered ope labels" and "ps_mail s = []" and "ps_px s = px" and "ps_sv s = sv"
  shows "reaches S K G i s (case decode S c ope labels (hlp px) of
      (Inl er, st) \<Rightarrow> (Inl er, px\<lparr>hlp := st\<rparr>, sv)
    | (Inr v, st) \<Rightarrow> (Inr v, finish (op_key ope) (px\<lparr>hlp := st\<rparr>), sv))"
proof (cases "decode S c ope labels (hlp px)")
  case (Pair r st)
  show ?thesis
  proof (cases r)
    case (Inl er)
    with Pair assms show ?thesis
      by (auto intro!: reaches_done [OF proxy_step.answer_throws])
  next
    case (Inr v)
    with Pair assms show ?thesis
      by (auto intro!: reaches_done [OF proxy_step.answer])
  qed
qed

lemma reaches_ask:
  assumes "ps_pc s i = Asking ope e" and "ps_mail s = []" and "ps_px s = px" and "ps_sv s = sv"
  shows "reaches S K G i s (case kv_access S K e sv of
      (Inl er, sv) \<Rightarrow> (Inl er, px, sv)
    | (Inr labels, sv) \<Rightarrow>
      (case decode S c ope labels (hlp px) of (Inl er, st) \<Rightarrow> (Inl er, px\<lparr>hlp := st\<rparr>, sv)
       | (Inr v, st) \<Rightarrow> (Inr v, finish (op_key ope) (px\<lparr>hlp := st\<rparr>), sv)))"
proof (cases "kv_access S K e sv")
  case (Pair r sv')
  show ?thesis
  proof (cases r)
    case (Inl er)
    with Pair assms show ?thesis
      by (auto intro!: reaches_done [OF proxy_step.ask_throws])
  next
    case (Inr labels)
    let ?s = "(goto i (Answered ope labels) px s)\<lparr>ps_sv := sv'\<rparr>"
    have "proxy_step S K G s ?s"
      using proxy_step.ask [OF assms(1), of S K labels sv' G] Pair Inr assms(3,4) by simp
    moreover have "reaches S K G i ?s (case decode S c ope labels (hlp px) of
        (Inl er, st) \<Rightarrow> (Inl er, px\<lparr>hlp := st\<rparr>, sv')
      | (Inr v, st) \<Rightarrow> (Inr v, finish (op_key ope) (px\<lparr>hlp := st\<rparr>), sv'))"
      by (rule reaches_answer) (simp_all add: assms(2))
    ultimately show ?thesis using Pair Inr by (auto intro: reaches_step)
  qed
qed

lemma reaches_hold:
  assumes pc: "ps_pc s i = Hold ope new" and mail: "ps_mail s = []" and F: "F \<in> G"
  shows "reaches S K G i s
    (if new then run_create S (kv_create K) F ope (ps_px s, ps_sv s)
     else if op_op ope = ''GET'' then run_get S (kv_access S K) F c ope (ps_px s, ps_sv s)
     else run_put S (kv_access S K) F ope (ps_px s, ps_sv s))"
proof (cases "build S F ope new (hlp (ps_px s))")
  case (Pair r st)
  show ?thesis
  proof (cases r)
    case (Inl er)
    have "reaches S K G i s (Inl er, (ps_px s)\<lparr>hlp := st\<rparr>, ps_sv s)"
      by (rule reaches_done [OF proxy_step.build_throws [OF pc F]]) (use Pair Inl mail in auto)
    then show ?thesis using Pair Inl by (cases new) (simp_all add: build_run_create build_run_access)
  next
    case (Inr e)
    let ?px = "(ps_px s)\<lparr>hlp := st\<rparr>"
    let ?s = "goto i (if new then Sending ope e else Asking ope e) ?px s"
    have step: "proxy_step S K G s ?s" using Pair Inr by (intro proxy_step.built [OF pc F]) simp
    show ?thesis
    proof (cases new)
      case True
      let ?s1 = "(goto i (Done (Inr [])) (finish (op_key ope) (ps_px ?s)) ?s)\<lparr>ps_mail := ps_mail ?s @ [e]\<rparr>"
      let ?s2 = "?s1\<lparr>ps_mail := [], ps_sv := kv_create K e (ps_sv ?s1)\<rparr>"
      have 1: "proxy_step S K G ?s ?s1" by (rule proxy_step.send) (simp add: True)
      have 2: "proxy_step S K G ?s1 ?s2"
        using proxy_step.deliver [of ?s1 "[]" e "[]" S K G] mail by simp
      have "(proxy_step S K G)\<^sup>*\<^sup>* s ?s2"
        by (rule rtranclp.rtrancl_into_rtrancl [where r = "proxy_step S K G",
          OF two_steps [where r = "proxy_step S K G", OF rtranclp.rtrancl_refl step 1] 2])
      then have "reaches S K G i s (Inr [], finish (op_key ope) ?px, kv_create K e (ps_sv s))"
        unfolding reaches_def by (auto intro!: exI [of _ ?s2])
      then show ?thesis using True Pair Inr by (simp add: build_run_create)
    next
      case False
      have "reaches S K G i ?s (case kv_access S K e (ps_sv s) of
          (Inl er, sv) \<Rightarrow> (Inl er, ?px, sv)
        | (Inr labels, sv) \<Rightarrow>
          (case decode S c ope labels (hlp ?px) of (Inl er, st) \<Rightarrow> (Inl er, ?px\<lparr>hlp := st\<rparr>, sv)
           | (Inr v, st) \<Rightarrow> (Inr v, finish (op_key ope) (?px\<lparr>hlp := st\<rparr>), sv)))"
        by (rule reaches_ask) (simp_all add: False mail)
      moreover have "hlp ?px = st" "\<And>x. ?px\<lparr>hlp := x\<rparr> = (ps_px s)\<lparr>hlp := x\<rparr>" by simp_all
      ultimately have "reaches S K G i ?s (case kv_access S K e (ps_sv s) of
          (Inl er, sv) \<Rightarrow> (Inl er, ?px, sv)
        | (Inr labels, sv) \<Rightarrow>
          (case decode S c ope labels st of (Inl er, st) \<Rightarrow> (Inl er, (ps_px s)\<lparr>hlp := st\<rparr>, sv)
           | (Inr v, st) \<Rightarrow> (Inr v, finish (op_key ope) ((ps_px s)\<lparr>hlp := st\<rparr>), sv)))"
        by (simp only:)
      from reaches_step [OF step this] show ?thesis
        using False Pair Inr by (simp add: build_run_access)
    qed
  qed
qed

lemma reaches_handleOp:
  assumes pc: "ps_pc s i = Begin ope" and mail: "ps_mail s = []" and F: "F \<in> G"
  shows "reaches S K G i s (handleOp S (kv_create K) (kv_access S K) F c ope (ps_px s, ps_sv s))"
proof (cases "op_key ope \<notin> keySet (hlp (ps_px s)) \<and> op_op ope = ''GET''")
  case True
  have "reaches S K G i s (Inr [], count_abort (ps_px s), ps_sv s)"
    by (rule reaches_done [OF proxy_step.missing [OF pc]]) (use True mail in auto)
  with True show ?thesis by (simp add: handleOp_def)
next
  case known: False
  let ?new = "op_key ope \<notin> keySet (hlp (ps_px s))"
  let ?s = "goto i (Want ope ?new) (ps_px s) s"
  have step: "proxy_step S K G s ?s" by (rule proxy_step.check_key [OF pc]) (use known in auto)
  obtain got st where lock: "exchange (op_key ope) False (hlp (ps_px s)) = (got, st)" by fastforce
  show ?thesis
  proof (cases got)
    case False
    have "reaches S K G i ?s (Inr [], count_abort ((ps_px s)\<lparr>hlp := st\<rparr>), ps_sv s)"
      by (rule reaches_done [OF proxy_step.locked [of ?s i ope ?new st]]) (use False lock mail in auto)
    from reaches_step [OF step this] known lock False show ?thesis by (auto simp: handleOp_def)
  next
    case True
    let ?s1 = "goto i (Hold ope ?new) ((ps_px s)\<lparr>hlp := st\<rparr>) ?s"
    have step1: "proxy_step S K G ?s ?s1" using proxy_step.lock [of ?s i ope ?new st S K G] lock True by simp
    have "reaches S K G i ?s1
      (if ?new then run_create S (kv_create K) F ope (ps_px ?s1, ps_sv ?s1)
       else if op_op ope = ''GET'' then run_get S (kv_access S K) F c ope (ps_px ?s1, ps_sv ?s1)
       else run_put S (kv_access S K) F ope (ps_px ?s1, ps_sv ?s1))"
      by (rule reaches_hold) (simp_all add: mail F)
    from reaches_step [OF step reaches_step [OF step1 this]] known lock True
    show ?thesis by (auto simp: handleOp_def)
  qed
qed

end
