(* ===== verification/LabelStore.thy ===== *)
theory LabelStore
  imports LabelThreads
begin

text \<open>
  The proxy with its threads refines an abstract store that many threads use: as long as every
  create arrives before its key is locked again, each operation takes effect at one moment between
  its start and its end, whatever the threads of the proxy interleave.
\<close>

section \<open>The abstract store with threads\<close>

text \<open>
  An operation is refused, or it marks its key as busy and later answers from the map and changes it
  in one step.  A value that is too long leaves its key busy.
\<close>

datatype spc = Asked operation | Running operation | Answer "bytes res"

record store_sys =
  st_vals :: "string \<rightharpoonup> bytes"
  st_busy :: "string set"
  st_pc :: "nat \<Rightarrow> spc"

inductive store_step :: "store_sys \<Rightarrow> store_sys \<Rightarrow> bool" where
  absent: "st_pc a i = Asked ope \<Longrightarrow> op_op ope = ''GET'' \<Longrightarrow> st_vals a (op_key ope) = None \<Longrightarrow>
    store_step a (a\<lparr>st_pc := (st_pc a)(i := Answer (Inr []))\<rparr>)"
| refuse: "st_pc a i = Asked ope \<Longrightarrow> op_key ope \<in> st_busy a \<Longrightarrow>
    store_step a (a\<lparr>st_pc := (st_pc a)(i := Answer (Inr []))\<rparr>)"
| start: "st_pc a i = Asked ope \<Longrightarrow> op_key ope \<notin> st_busy a \<Longrightarrow>
    store_step a (a\<lparr>st_busy := insert (op_key ope) (st_busy a), st_pc := (st_pc a)(i := Running ope)\<rparr>)"
| too_long: "st_pc a i = Running ope \<Longrightarrow> op_op ope \<noteq> ''GET'' \<Longrightarrow> VALUE_SIZE < length (op_value ope) \<Longrightarrow>
    store_step a (a\<lparr>st_pc := (st_pc a)(i := Answer (Inl LengthError))\<rparr>)"
| get: "st_pc a i = Running ope \<Longrightarrow> op_op ope = ''GET'' \<Longrightarrow> st_vals a (op_key ope) = Some v \<Longrightarrow>
    store_step a (a\<lparr>st_busy := st_busy a - {op_key ope}, st_pc := (st_pc a)(i := Answer (Inr (garble v)))\<rparr>)"
| put: "st_pc a i = Running ope \<Longrightarrow> op_op ope \<noteq> ''GET'' \<Longrightarrow> length (op_value ope) \<le> VALUE_SIZE \<Longrightarrow>
    store_step a (a\<lparr>st_vals := (st_vals a)(op_key ope \<mapsto> op_value ope), st_busy := st_busy a - {op_key ope},
      st_pc := (st_pc a)(i := Answer (Inr []))\<rparr>)"

section \<open>Creates in time\<close>

text \<open>No thread holds the lock of a key whose create is still on its way.\<close>

definition delivered :: "'d psys \<Rightarrow> bool" where
  "delivered s \<longleftrightarrow> (\<forall>i ope new. ps_pc s i = Hold ope new \<longrightarrow> op_key ope \<notin> keyName ` set (ps_mail s))"

definition timely_step :: "sodium \<Rightarrow> 'd kvs \<Rightarrow> fresh set \<Rightarrow> 'd psys \<Rightarrow> 'd psys \<Rightarrow> bool" where
  "timely_step S K G s s' \<longleftrightarrow> proxy_step S K G s s' \<and> delivered s'"

lemma run_of_timely:
  "run_of (proxy_step S K G) r k \<Longrightarrow> \<forall>j\<le>k. delivered (r j) \<Longrightarrow> run_of (timely_step S K G) r k"
  by (simp add: run_of_def timely_step_def)

section \<open>The relation\<close>

text \<open>What the database holds once the creates on their way have arrived.\<close>

definition arrived :: "'d kvs \<Rightarrow> 'd psys \<Rightarrow> string \<Rightarrow> bytes option" where
  "arrived K s key = (case map_of (map (\<lambda>e. (keyName e, encryptedLabelsA e)) (ps_mail s)) key of
     None \<Rightarrow> kv_get K (db (ps_sv s)) key | Some l \<Rightarrow> Some l)"

text \<open>The records of one key: its master key, its recorded length, its labels.\<close>

type_synonym key_state = "bytes option \<times> int option \<times> bytes option"

definition key_state :: "'d kvs \<Rightarrow> 'd psys \<Rightarrow> string \<Rightarrow> key_state" where
  "key_state K s key = (masterKeys (hlp (ps_px s)) key, valueSizes (hlp (ps_px s)) key, arrived K s key)"

definition holds_value :: "sodium \<Rightarrow> bytes \<Rightarrow> key_state \<Rightarrow> bool" where
  "holds_value S v = (\<lambda>(mk, n, lab). length v \<le> VALUE_SIZE \<and> n = Some (int (length v)) \<and>
     (\<exists>k l. mk = Some k \<and> length k = KEYBYTES \<and> lab = Some l \<and> encodes S k (pair (pad v)) l))"

text \<open>The value a running operation reads or writes, and the plaintexts of its entry.\<close>

definition outcome :: "operation \<Rightarrow> bytes \<Rightarrow> bytes" where
  "outcome ope v = (if op_op ope = ''GET'' then v else op_value ope)"

definition plain_of :: "sodium \<Rightarrow> operation \<Rightarrow> bytes \<Rightarrow> bytes \<Rightarrow> lane \<Rightarrow> nat \<Rightarrow> bytes" where
  "plain_of S ope old new = (if op_op ope = ''GET'' then get_plain S old new else put_plain S (pad (op_value ope)) new)"

definition good_key :: "sodium \<Rightarrow> bytes \<Rightarrow> bool" where
  "good_key S k \<longleftrightarrow> length k = KEYBYTES \<and> subkeys_distinct S k \<and> subkeys_nonzero S k"

text \<open>
  What holds of a thread's operation at each point, given whether the key is known, the abstract
  value of its key and the key's records.
\<close>

fun at_point :: "sodium \<Rightarrow> bool \<Rightarrow> bytes option \<Rightarrow> key_state \<Rightarrow> pc \<Rightarrow> bool" where
  "at_point S known v ks (Begin ope) \<longleftrightarrow> length (op_value ope) < 2 ^ 62"
| "at_point S known v ks (Want ope new) \<longleftrightarrow> length (op_value ope) < 2 ^ 62 \<and>
     (op_op ope = ''GET'' \<longrightarrow> \<not> new) \<and> (\<not> new \<longrightarrow> known)"
| "at_point S known v ks (Hold ope new) \<longleftrightarrow> length (op_value ope) < 2 ^ 62 \<and>
     (op_op ope = ''GET'' \<longrightarrow> \<not> new) \<and> (\<not> new \<longrightarrow> known) \<and> (known \<longrightarrow> v \<noteq> None) \<and>
     (\<forall>w. v = Some w \<longrightarrow> holds_value S w ks)"
| "at_point S known v ks (Sending ope e) \<longleftrightarrow> known \<and> op_op ope \<noteq> ''GET'' \<and> length (op_value ope) \<le> VALUE_SIZE \<and>
     keyName e = op_key ope \<and> holds_value S (op_value ope) (fst ks, fst (snd ks), Some (encryptedLabelsA e))"
| "at_point S known v ks (Asking ope e) \<longleftrightarrow> known \<and> (\<exists>w old F l. v = Some w \<and> length (outcome ope w) \<le> VALUE_SIZE \<and>
     e = entry_of (op_key ope) (block_mem POSITIONS (rekey_lanes (plain_of S ope old (keygen F)) S F old)) \<and>
     fresh_ok F \<and> good_key S (keygen F) \<and> encodes S old (pair (pad w)) l \<and>
     ks = (Some (keygen F), Some (int (length (outcome ope w))), Some l))"
| "at_point S known v ks (Answered ope labels) \<longleftrightarrow> known \<and> (\<exists>w k. v = Some w \<and> length (outcome ope w) \<le> VALUE_SIZE \<and>
     good_key S k \<and> labels = answer (\<lambda>p. label S k p (pair (pad (outcome ope w)) p)) \<and>
     ks = (Some k, Some (int (length (outcome ope w))), Some labels))"
| "at_point S known v ks (Done r) \<longleftrightarrow> True"

fun abs_pc :: "pc \<Rightarrow> spc" where
  "abs_pc (Begin ope) = Asked ope"
| "abs_pc (Want ope new) = Asked ope"
| "abs_pc (Hold ope new) = Running ope"
| "abs_pc (Sending ope e) = Running ope"
| "abs_pc (Asking ope e) = Running ope"
| "abs_pc (Answered ope labels) = Running ope"
| "abs_pc (Done r) = Answer r"

fun key_of :: "pc \<Rightarrow> string" where
  "key_of (Begin ope) = op_key ope"
| "key_of (Want ope new) = op_key ope"
| "key_of (Hold ope new) = op_key ope"
| "key_of (Sending ope e) = op_key ope"
| "key_of (Asking ope e) = op_key ope"
| "key_of (Answered ope labels) = op_key ope"
| "key_of (Done r) = []"

definition in_use :: "'d psys \<Rightarrow> string set" where
  "in_use s = {key. \<exists>i. holds (ps_pc s i) = Some key}"

definition store_rel :: "sodium \<Rightarrow> 'd kvs \<Rightarrow> 'd psys \<Rightarrow> store_sys \<Rightarrow> bool" where
  "store_rel S K s a \<longleftrightarrow> exclusive s \<and> running (ps_sv s) \<and> distinct (map keyName (ps_mail s)) \<and>
    keyName ` set (ps_mail s) \<inter> in_use s = {} \<and>
    st_busy a = {key. locked_out (hlp (ps_px s)) key} \<and> st_pc a = abs_pc \<circ> ps_pc s \<and>
    (\<forall>i. at_point S (key_of (ps_pc s i) \<in> keySet (hlp (ps_px s))) (st_vals a (key_of (ps_pc s i)))
       (key_state K s (key_of (ps_pc s i))) (ps_pc s i)) \<and>
    (\<forall>key v. key \<notin> in_use s \<longrightarrow> st_vals a key = Some v \<longrightarrow> holds_value S v (key_state K s key)) \<and>
    dom (st_vals a) \<subseteq> keySet (hlp (ps_px s)) \<and> keySet (hlp (ps_px s)) \<subseteq> dom (st_vals a) \<union> in_use s"

section \<open>Moving one thread\<close>

lemma at_point_idle:
  "holds p = None \<Longrightarrow> at_point S known v ks p \<Longrightarrow> (known \<Longrightarrow> known') \<Longrightarrow> at_point S known' v' ks' p"
  by (cases p) auto

lemma holds_key_of: "holds p = Some k \<Longrightarrow> key_of p = k"
  by (cases p) auto

lemma at_point_known: "holds p = Some k \<Longrightarrow> at_point S False v ks p \<Longrightarrow> \<exists>ope new. p = Hold ope new"
  by (cases p) auto

text \<open>The keys in use, split into those of one thread and those of the others.\<close>

definition others_use :: "nat \<Rightarrow> 'd psys \<Rightarrow> string set" where
  "others_use i s = {key. \<exists>j. j \<noteq> i \<and> holds (ps_pc s j) = Some key}"

lemma in_use_split: "in_use s = others_use i s \<union> set_option (holds (ps_pc s i))"
  by (cases "holds (ps_pc s i)") (auto simp: in_use_def others_use_def; metis option.distinct(1) option.inject)+

lemma others_use_upd: "ps_pc s' = (ps_pc s)(i := p) \<Longrightarrow> others_use i s' = others_use i s"
  by (auto simp: others_use_def)

lemma others_use_exclusive: "exclusive s \<Longrightarrow> holds (ps_pc s i) = Some k \<Longrightarrow> k \<notin> others_use i s"
  by (auto simp: others_use_def exclusive_def)

lemma in_use_move: "ps_pc s' = (ps_pc s)(i := p) \<Longrightarrow> in_use s' = others_use i s \<union> set_option (holds p)"
  using in_use_split [of s' i] by (simp add: others_use_upd)

lemma in_use_locked: "exclusive s \<Longrightarrow> k \<in> in_use s \<Longrightarrow> locked_out (hlp (ps_px s)) k"
  by (auto simp: in_use_def exclusive_def)

text \<open>
  The thread \<open>i\<close> moves to the point \<open>p\<close> of its operation on \<open>k\<close>: only the records of \<open>k\<close> change,
  and only when the thread has \<open>k\<close> before or after.
\<close>

lemma store_rel_move:
  assumes rel: "store_rel S K s a" and ex: "exclusive s'" and run: "running (ps_sv s')"
    and pc: "ps_pc s' = (ps_pc s)(i := p)" and k: "key_of (ps_pc s i) = k" "holds p \<noteq> None \<Longrightarrow> key_of p = k"
    and frame: "\<And>k'. k' \<noteq> k \<Longrightarrow> key_state K s' k' = key_state K s k' \<and> st_vals a' k' = st_vals a k'"
    and still: "holds (ps_pc s i) = None \<Longrightarrow> key_state K s' k = key_state K s k \<and> st_vals a' k = st_vals a k"
    and keys: "keySet (hlp (ps_px s)) \<subseteq> keySet (hlp (ps_px s'))"
      "keySet (hlp (ps_px s')) \<subseteq> insert k (keySet (hlp (ps_px s)))"
      "k \<in> keySet (hlp (ps_px s')) \<Longrightarrow> holds (ps_pc s i) \<noteq> None \<Longrightarrow> holds p = None \<Longrightarrow> st_vals a' k \<noteq> None"
      "k \<in> keySet (hlp (ps_px s')) \<Longrightarrow> holds (ps_pc s i) = None \<Longrightarrow> k \<in> keySet (hlp (ps_px s))"
      "st_vals a' k \<noteq> None \<Longrightarrow> k \<in> keySet (hlp (ps_px s'))"
    and point: "at_point S (key_of p \<in> keySet (hlp (ps_px s'))) (st_vals a' (key_of p)) (key_state K s' (key_of p)) p"
    and idle: "\<And>v. holds (ps_pc s i) \<noteq> None \<Longrightarrow> holds p = None \<Longrightarrow> st_vals a' k = Some v \<Longrightarrow>
      holds_value S v (key_state K s' k)"
    and mail: "distinct (map keyName (ps_mail s'))" "keyName ` set (ps_mail s') \<inter> in_use s' = {}"
    and busy: "st_busy a' = {key. locked_out (hlp (ps_px s')) key}" and spc: "st_pc a' = (st_pc a)(i := abs_pc p)"
  shows "store_rel S K s' a'"
proof -
  have exs: "exclusive s" using rel by (simp add: store_rel_def)
  have holder: "holds (ps_pc s i) = Some k' \<Longrightarrow> k' = k" "holds p = Some k' \<Longrightarrow> k' = k" for k'
    using k holds_key_of by auto
  note use = in_use_split [of s i] in_use_move [OF pc]
  have points: "at_point S (key_of (ps_pc s' j) \<in> keySet (hlp (ps_px s'))) (st_vals a' (key_of (ps_pc s' j)))
      (key_state K s' (key_of (ps_pc s' j))) (ps_pc s' j)" for j
  proof (cases "j = i")
    case True
    with point pc show ?thesis by simp
  next
    case False
    then have j: "ps_pc s' j = ps_pc s j" using pc by simp
    let ?k = "key_of (ps_pc s j)"
    have old: "at_point S (?k \<in> keySet (hlp (ps_px s))) (st_vals a ?k) (key_state K s ?k) (ps_pc s j)"
      using rel by (simp add: store_rel_def)
    show ?thesis
    proof (cases "holds (ps_pc s j)")
      case None
      with old keys(1) show ?thesis unfolding j by (blast intro: at_point_idle)
    next
      case (Some k')
      then have k': "?k = k'" by (rule holds_key_of)
      have "k' \<in> others_use i s" using Some False by (auto simp: others_use_def)
      then have alone: "holds (ps_pc s i) = None" if "k' = k"
        using that holder others_use_exclusive [OF exs, of i k] by (cases "holds (ps_pc s i)") auto
      with frame [of k'] still have same: "key_state K s' k' = key_state K s k' \<and> st_vals a' k' = st_vals a k'"
        by (cases "k' = k") simp_all
      moreover have "(k' \<in> keySet (hlp (ps_px s'))) = (k' \<in> keySet (hlp (ps_px s)))"
        using keys(1,2,4) alone by (cases "k' = k") (simp, blast, blast)
      ultimately show ?thesis using old unfolding j k' by simp
    qed
  qed
  have same: "key_state K s' key = key_state K s key \<and> st_vals a' key = st_vals a key"
    if "holds (ps_pc s i) \<noteq> Some key" for key
    using that frame [of key] still holder(1) by (cases "key = k"; cases "holds (ps_pc s i)") auto
  have idles: "holds_value S v (key_state K s' key)" if "key \<notin> in_use s'" "st_vals a' key = Some v" for key v
  proof (cases "holds (ps_pc s i) = Some key")
    case True
    then have "key = k" using holder(1) by blast
    moreover have "holds p = None" using that(1) use(2) holder(2) \<open>key = k\<close> by (cases "holds p") auto
    ultimately show ?thesis using idle [of v] True that(2) by simp
  next
    case False
    then have "key \<notin> in_use s" using that(1) use by auto
    with same [OF False] that(2) rel show ?thesis by (simp add: store_rel_def)
  qed
  have dom: "dom (st_vals a') \<subseteq> keySet (hlp (ps_px s'))"
  proof
    fix key assume "key \<in> dom (st_vals a')"
    then show "key \<in> keySet (hlp (ps_px s'))"
    proof (cases "key = k")
      case False
      with frame [of key] \<open>key \<in> dom (st_vals a')\<close> have "key \<in> dom (st_vals a)" by (simp add: dom_def)
      with rel keys(1) show ?thesis unfolding store_rel_def by blast
    qed (use keys(5) in auto)
  qed
  have "keySet (hlp (ps_px s')) \<subseteq> dom (st_vals a') \<union> in_use s'"
  proof
    fix key assume key: "key \<in> keySet (hlp (ps_px s'))"
    show "key \<in> dom (st_vals a') \<union> in_use s'"
    proof (cases "holds (ps_pc s i) = Some key")
      case True
      then have "key = k" using holder(1) by blast
      then show ?thesis using True keys(3) key use(2) holder(2) by (cases "holds p") auto
    next
      case False
      then have "key \<in> keySet (hlp (ps_px s))" using key keys(2,4) holder(1)
        by (cases "holds (ps_pc s i)") auto
      then have "key \<in> dom (st_vals a) \<union> in_use s" using rel by (auto simp: store_rel_def)
      then show ?thesis using same [OF False] False use by (auto simp: dom_def)
    qed
  qed
  moreover have "st_pc a' = abs_pc \<circ> ps_pc s'" using rel spc pc by (auto simp: store_rel_def)
  ultimately show ?thesis
    using ex run mail busy points idles dom by (simp add: store_rel_def)
qed

section \<open>The records of a key\<close>

lemma arrived_cong: "ps_mail s' = ps_mail s \<Longrightarrow> ps_sv s' = ps_sv s \<Longrightarrow> arrived K s' = arrived K s"
  by (rule ext) (simp add: arrived_def split: option.split)

lemma arrived_no_mail: "key \<notin> keyName ` set (ps_mail s) \<Longrightarrow> arrived K s key = kv_get K (db (ps_sv s)) key"
proof -
  assume "key \<notin> keyName ` set (ps_mail s)"
  then have "map_of (map (\<lambda>e. (keyName e, encryptedLabelsA e)) (ps_mail s)) key = None"
    by (auto simp: map_of_eq_None_iff)
  then show ?thesis by (simp add: arrived_def)
qed

lemma arrived_send:
  assumes "ps_mail s' = ps_mail s @ [e]" and "ps_sv s' = ps_sv s" and "keyName e \<notin> keyName ` set (ps_mail s)"
  shows "arrived K s' = (arrived K s)(keyName e \<mapsto> encryptedLabelsA e)"
proof
  fix key
  have "map_of (map (\<lambda>e. (keyName e, encryptedLabelsA e)) (ps_mail s)) (keyName e) = None"
    using assms(3) by (auto simp: map_of_eq_None_iff)
  then show "arrived K s' key = ((arrived K s)(keyName e \<mapsto> encryptedLabelsA e)) key"
    using assms(1,2) by (auto simp: arrived_def map_add_def split: option.splits)
qed

lemma arrived_deliver:
  assumes "ps_mail s = xs @ e # ys" and "distinct (map keyName (ps_mail s))" and "kvs_ok K" and "running (ps_sv s)"
    and "ps_mail s' = xs @ ys" and "ps_sv s' = kv_create K e (ps_sv s)"
  shows "arrived K s' = arrived K s"
proof
  fix key
  let ?f = "\<lambda>e. (keyName e, encryptedLabelsA e)"
  have "map_of (map ?f xs) (keyName e) = None" "map_of (map ?f ys) (keyName e) = None"
    using assms(1,2) by (auto simp: map_of_eq_None_iff)
  then show "arrived K s' key = arrived K s key"
    using assms(1,3-6) by (auto simp: arrived_def map_add_def kv_create_def kvs_ok_def split: option.splits)
qed

lemma holds_value_rekey:
  "holds_value S w (Some k, Some n, Some l) \<longleftrightarrow>
    length w \<le> VALUE_SIZE \<and> n = int (length w) \<and> length k = KEYBYTES \<and> encodes S k (pair (pad w)) l"
  by (auto simp: holds_value_def)

section \<open>What a thread builds\<close>

lemma build_create:
  assumes "sodium_ok S" and "fresh_ok F" and "length (op_value ope) \<le> VALUE_SIZE"
  shows "build S F ope True st =
    (Inr (entry_of (op_key ope) (block_mem POSITIONS (create_lanes S (pad (op_value ope)) (keygen F)))),
     insert_key (op_key ope) (set_value_size (op_key ope) (op_value ope)
       (st\<lparr>masterKeys := (masterKeys st)(op_key ope \<mapsto> keygen F)\<rparr>)))"
  by (simp add: build_def constructCreateEntry_ok [OF assms])

lemma build_rekey:
  assumes "sodium_ok S" and "fresh_ok F" and "masterKeys st (op_key ope) = Some old" and "length old = KEYBYTES"
    and "op_op ope \<noteq> ''GET'' \<Longrightarrow> length (op_value ope) \<le> VALUE_SIZE"
  shows "build S F ope False st =
    (Inr (entry_of (op_key ope) (block_mem POSITIONS (rekey_lanes (plain_of S ope old (keygen F)) S F old))),
     let st' = st\<lparr>masterKeys := (masterKeys st)(op_key ope \<mapsto> keygen F)\<rparr>
     in if op_op ope = ''GET'' then st' else set_value_size (op_key ope) (op_value ope) st')"
  using constructGetEntry_ok [OF assms(1-4)] constructPutEntry_ok [OF assms(1,2) _ assms(3,4), of "op_value ope"]
    assms(5)
  by (auto simp: build_def plain_of_def)

lemma build_too_long:
  assumes "op_op ope \<noteq> ''GET''" and "VALUE_SIZE < length (op_value ope)" and "length (op_value ope) < 2 ^ 62"
  shows "build S F ope new st = (Inl LengthError, st)"
  using assms(1) padToLen_too_long [OF assms(2,3)]
  by (simp add: build_def constructCreateEntry_def constructPutEntry_def)

section \<open>Every step of the proxy is a step of the store\<close>

lemma store_relD:
  assumes "store_rel S K s a"
  shows "exclusive s" "running (ps_sv s)" "distinct (map keyName (ps_mail s))"
    "keyName ` set (ps_mail s) \<inter> in_use s = {}" "st_busy a = {key. locked_out (hlp (ps_px s)) key}"
    "st_pc a i = abs_pc (ps_pc s i)"
    "at_point S (key_of (ps_pc s i) \<in> keySet (hlp (ps_px s))) (st_vals a (key_of (ps_pc s i)))
       (key_state K s (key_of (ps_pc s i))) (ps_pc s i)"
    "key \<notin> in_use s \<Longrightarrow> st_vals a key = Some v \<Longrightarrow> holds_value S v (key_state K s key)"
    "dom (st_vals a) \<subseteq> keySet (hlp (ps_px s))" "keySet (hlp (ps_px s)) \<subseteq> dom (st_vals a) \<union> in_use s"
  using assms by (simp_all add: store_rel_def)

text \<open>A thread that holds nothing before and after, and changes nothing but the counters.\<close>

lemma store_rel_outside:
  assumes rel: "store_rel S K s a" and ex: "exclusive s'" and pc: "ps_pc s' = (ps_pc s)(i := p)"
    and h: "holds (ps_pc s i) = None" "holds p = None"
    and s': "ps_sv s' = ps_sv s" "ps_mail s' = ps_mail s" "masterKeys (hlp (ps_px s')) = masterKeys (hlp (ps_px s))"
      "valueSizes (hlp (ps_px s')) = valueSizes (hlp (ps_px s))" "keySet (hlp (ps_px s')) = keySet (hlp (ps_px s))"
      "\<And>key. locked_out (hlp (ps_px s')) key = locked_out (hlp (ps_px s)) key"
    and point: "at_point S (key_of p \<in> keySet (hlp (ps_px s))) (st_vals a (key_of p)) (key_state K s (key_of p)) p"
  shows "store_rel S K s' (a\<lparr>st_pc := (st_pc a)(i := abs_pc p)\<rparr>)"
proof -
  have ks: "key_state K s' = key_state K s"
    by (rule ext) (simp add: key_state_def s'(3,4) arrived_cong [OF s'(2,1)])
  note D = store_relD [OF rel]
  have mail: "keyName ` set (ps_mail s) \<inter> in_use s' = {}"
    using D(4) in_use_move [OF pc] in_use_split [of s i] h(1,2) by simp
  have dom: "\<exists>v. st_vals a key = Some v \<Longrightarrow> key \<in> keySet (hlp (ps_px s))" for key
    using D(9) by blast
  show ?thesis
    by (rule store_rel_move [OF rel ex _ pc refl, where a' = "a\<lparr>st_pc := (st_pc a)(i := abs_pc p)\<rparr>"])
      (simp_all add: D(2,3,5) h(1,2) s' ks point mail subset_insertI, blast intro: dom)
qed

text \<open>A thread that has its key before or after.\<close>

lemma store_rel_inside:
  assumes rel: "store_rel S K s a" and ex: "exclusive s'" and run: "running (ps_sv s')"
    and pc: "ps_pc s' = (ps_pc s)(i := p)" and k: "key_of (ps_pc s i) = k"
    and before: "holds (ps_pc s i) = Some k" and after: "holds p = Some k"
    and frame: "\<And>k'. k' \<noteq> k \<Longrightarrow> key_state K s' k' = key_state K s k'"
    and keys: "keySet (hlp (ps_px s')) = (if new then insert k (keySet (hlp (ps_px s))) else keySet (hlp (ps_px s)))"
    and mail: "ps_mail s' = ps_mail s"
    and lock: "\<And>key. locked_out (hlp (ps_px s')) key = locked_out (hlp (ps_px s)) key"
    and point: "at_point S (k \<in> keySet (hlp (ps_px s'))) (st_vals a k) (key_state K s' k) p"
    and spc: "abs_pc p = abs_pc (ps_pc s i)"
  shows "store_rel S K s' a"
proof -
  note D = store_relD [OF rel]
  have kp: "key_of p = k" using after by (rule holds_key_of)
  have use: "in_use s' = in_use s" using in_use_move [OF pc] in_use_split [of s i] before after by simp
  have dom: "\<exists>v. st_vals a key = Some v \<Longrightarrow> key \<in> keySet (hlp (ps_px s))" for key
    using D(9) by blast
  have spc': "st_pc a = (st_pc a)(i := abs_pc p)" by (simp add: D(6) [symmetric] spc)
  show ?thesis
    by (rule store_rel_move [OF rel ex run pc k, where a' = a])
      (use spc' dom point in \<open>simp_all add: D(3-5) kp before after frame keys mail lock use subset_insertI\<close>)
qed

text \<open>A thread that gives its key back, with the result in the abstract store.\<close>

lemma store_rel_commit:
  assumes rel: "store_rel S K s a" and ex: "exclusive s'" and run: "running (ps_sv s')"
    and pc: "ps_pc s' = (ps_pc s)(i := Done r)" and before: "holds (ps_pc s i) = Some k"
    and frame: "\<And>k'. k' \<noteq> k \<Longrightarrow> key_state K s' k' = key_state K s k' \<and> st_vals a' k' = st_vals a k'"
    and keys: "keySet (hlp (ps_px s')) = keySet (hlp (ps_px s))"
    and val: "k \<in> keySet (hlp (ps_px s)) \<Longrightarrow> st_vals a' k \<noteq> None" "st_vals a' k \<noteq> None \<Longrightarrow> k \<in> keySet (hlp (ps_px s))"
      "\<And>v. st_vals a' k = Some v \<Longrightarrow> holds_value S v (key_state K s' k)"
    and mail: "distinct (map keyName (ps_mail s'))" "keyName ` set (ps_mail s') \<subseteq> insert k (keyName ` set (ps_mail s))"
    and busy: "st_busy a' = {key. locked_out (hlp (ps_px s')) key}"
    and spc: "st_pc a' = (st_pc a)(i := Answer r)"
  shows "store_rel S K s' a'"
proof -
  note D = store_relD [OF rel]
  have k: "key_of (ps_pc s i) = k" using before by (rule holds_key_of)
  have use: "in_use s' = others_use i s" using in_use_move [OF pc] by simp
  have "k \<notin> others_use i s" by (rule others_use_exclusive [OF D(1) before])
  then have "keyName ` set (ps_mail s') \<inter> in_use s' = {}"
    using D(4) mail(2) in_use_split [of s i] use by blast
  then show ?thesis
    by (intro store_rel_move [OF rel ex run pc k, where a' = a'])
      (use val frame in \<open>simp_all add: keys before mail(1) busy spc subset_insertI\<close>)
qed

lemma exchange_fields [simp]:
  "masterKeys (snd (exchange k b st)) = masterKeys st" "valueSizes (snd (exchange k b st)) = valueSizes st"
  "keySet (snd (exchange k b st)) = keySet st"
  by (simp_all add: exchange_def)

text \<open>One step of the proxy, by its kind.\<close>

lemma step_missing:
  assumes rel: "store_rel S K s a" and ex: "exclusive s'" and pc: "ps_pc s i = Begin ope"
    and new: "op_key ope \<notin> keySet (hlp (ps_px s))" and get: "op_op ope = ''GET''"
    and s': "s' = goto i (Done (Inr [])) (count_abort (ps_px s)) s"
  shows "\<exists>a'. store_step a a' \<and> store_rel S K s' a'"
proof -
  have "st_vals a (op_key ope) = None" using store_relD(9) [OF rel] new by blast
  moreover have "st_pc a i = Asked ope" using store_relD(6) [OF rel, of i] pc by simp
  moreover have "store_rel S K s' (a\<lparr>st_pc := (st_pc a)(i := abs_pc (Done (Inr [])))\<rparr>)"
    by (rule store_rel_outside [OF rel ex]) (simp_all add: s' pc)
  ultimately show ?thesis using store_step.absent [of a i ope] get by auto
qed

lemma step_check_key:
  assumes rel: "store_rel S K s a" and ex: "exclusive s'" and pc: "ps_pc s i = Begin ope"
    and known: "op_key ope \<in> keySet (hlp (ps_px s)) \<or> op_op ope \<noteq> ''GET''"
    and s': "s' = goto i (Want ope (op_key ope \<notin> keySet (hlp (ps_px s)))) (ps_px s) s"
  shows "store_rel S K s' a"
proof -
  let ?p = "Want ope (op_key ope \<notin> keySet (hlp (ps_px s)))"
  have "length (op_value ope) < 2 ^ 62" using store_relD(7) [OF rel, of i] pc by simp
  then have "store_rel S K s' (a\<lparr>st_pc := (st_pc a)(i := abs_pc ?p)\<rparr>)"
    using known by (intro store_rel_outside [OF rel ex]) (auto simp: s' pc)
  moreover have "(st_pc a)(i := abs_pc ?p) = st_pc a" using store_relD(6) [OF rel, of i] pc by (simp add: fun_upd_idem)
  ultimately show ?thesis by simp
qed

lemma step_locked:
  assumes rel: "store_rel S K s a" and ex: "exclusive s'" and pc: "ps_pc s i = Want ope new"
    and lock: "exchange (op_key ope) False (hlp (ps_px s)) = (False, st)"
    and s': "s' = goto i (Done (Inr [])) (count_abort ((ps_px s)\<lparr>hlp := st\<rparr>)) s"
  shows "\<exists>a'. store_step a a' \<and> store_rel S K s' a'"
proof -
  have st: "st = snd (exchange (op_key ope) False (hlp (ps_px s)))"
    and taken: "locked_out (hlp (ps_px s)) (op_key ope)"
    using lock by (simp_all add: exchange_def locked_out_def)
  have "op_key ope \<in> st_busy a" using store_relD(5) [OF rel] taken by simp
  moreover have "st_pc a i = Asked ope" using store_relD(6) [OF rel, of i] pc by simp
  moreover have "store_rel S K s' (a\<lparr>st_pc := (st_pc a)(i := abs_pc (Done (Inr [])))\<rparr>)"
    using taken by (intro store_rel_outside [OF rel ex]) (auto simp: s' pc st locked_out_exchange)
  ultimately show ?thesis using store_step.refuse [of a i ope] by auto
qed

lemma step_lock:
  assumes rel: "store_rel S K s a" and ex: "exclusive s'" and pc: "ps_pc s i = Want ope new"
    and lock: "exchange (op_key ope) False (hlp (ps_px s)) = (True, st)"
    and s': "s' = goto i (Hold ope new) ((ps_px s)\<lparr>hlp := st\<rparr>) s" and del: "delivered s'"
  shows "\<exists>a'. store_step a a' \<and> store_rel S K s' a'"
proof -
  let ?k = "op_key ope"
  note D = store_relD [OF rel]
  have st: "st = snd (exchange ?k False (hlp (ps_px s)))" and free: "\<not> locked_out (hlp (ps_px s)) ?k"
    using lock by (simp_all add: exchange_def locked_out_def)
  have idle: "?k \<notin> in_use s" using in_use_locked [OF D(1)] free by blast
  have "?k \<notin> st_busy a" using D(5) free by simp
  moreover have "st_pc a i = Asked ope" using D(6) [of i] pc by simp
  moreover
  let ?a = "a\<lparr>st_busy := insert ?k (st_busy a), st_pc := (st_pc a)(i := Running ope)\<rparr>"
  have pc': "ps_pc s' = (ps_pc s)(i := Hold ope new)" by (simp add: s')
  have ks: "key_state K s' = key_state K s"
    by (rule ext) (simp add: key_state_def s' st arrived_cong [of "goto i p px s" s for p px])
  have "\<exists>v. st_vals a ?k = Some v" if "?k \<in> keySet (hlp (ps_px s))"
    using D(10) that idle by blast
  then have point: "at_point S (?k \<in> keySet (hlp (ps_px s))) (st_vals a ?k) (key_state K s ?k) (Hold ope new)"
    using D(7) [of i] pc D(8) [OF idle] by auto
  have dom: "\<exists>v. st_vals a key = Some v \<Longrightarrow> key \<in> keySet (hlp (ps_px s))" for key
    using D(9) by blast
  have mail: "keyName ` set (ps_mail s) \<inter> in_use s' = {}"
  proof -
    have "?k \<notin> keyName ` set (ps_mail s')" using del pc' unfolding delivered_def by (metis fun_upd_same)
    then show ?thesis using D(4) in_use_move [OF pc'] in_use_split [of s i] pc by (simp add: s')
  qed
  have "store_rel S K s' ?a"
    by (rule store_rel_move [OF rel ex _ pc' refl, where a' = ?a])
      (use point mail dom ks in \<open>auto simp: s' st D(2,3) pc D(5) locked_out_exchange\<close>)
  ultimately show ?thesis using store_step.start [of a i ope] by auto
qed

lemma arrived_goto [simp]: "arrived K (goto i p px s) = arrived K s"
  by (rule arrived_cong) simp_all

lemma key_state_goto:
  "key_state K (goto i p (px\<lparr>hlp := st\<rparr>) s) key = (masterKeys st key, valueSizes st key, arrived K s key)"
  by (simp add: key_state_def arrived_goto)

lemma records_fields [simp]:
  "masterKeys (insert_key k st) = masterKeys st" "valueSizes (insert_key k st) = valueSizes st"
  "keySet (insert_key k st) = insert k (keySet st)" "locks (insert_key k st) = locks st"
  "masterKeys (set_value_size k v st) = masterKeys st" "keySet (set_value_size k v st) = keySet st"
  "valueSizes (set_value_size k v st) = (valueSizes st)(k \<mapsto> int_of_size (length v))"
  "locks (set_value_size k v st) = locks st"
  by (simp_all add: insert_key_def set_value_size_def)

text \<open>At \<open>Hold\<close>: a value that is too long throws, everything else is built.\<close>

lemma step_build_throws:
  assumes rel: "store_rel S K s a" and ex: "exclusive s'" and S: "sodium_ok S" and pc: "ps_pc s i = Hold ope new"
    and F: "fresh_ok F" and b: "build S F ope new (hlp (ps_px s)) = (Inl er, st)"
    and s': "s' = goto i (Done (Inl er)) ((ps_px s)\<lparr>hlp := st\<rparr>) s"
  shows "\<exists>a'. store_step a a' \<and> store_rel S K s' a'"
proof -
  let ?k = "op_key ope"
  note D = store_relD [OF rel]
  have at: "at_point S (?k \<in> keySet (hlp (ps_px s))) (st_vals a ?k) (key_state K s ?k) (Hold ope new)"
    using D(7) [of i] pc by simp
  have long: "op_op ope \<noteq> ''GET'' \<and> VALUE_SIZE < length (op_value ope)"
  proof (rule ccontr)
    assume fits: "\<not> ?thesis"
    show False
    proof (cases new)
      case True
      with at fits build_create [OF S F, of ope] b show ?thesis by auto
    next
      case False
      with at obtain w where "holds_value S w (key_state K s ?k)" by auto
      then obtain old where "masterKeys (hlp (ps_px s)) ?k = Some old" "length old = KEYBYTES"
        by (auto simp: holds_value_def key_state_def)
      with build_rekey [OF S F, of "hlp (ps_px s)" ope old] fits False b show ?thesis by auto
    qed
  qed
  with at build_too_long [of ope S F new "hlp (ps_px s)"] b have er: "er = LengthError" "st = hlp (ps_px s)" by simp_all
  let ?a = "a\<lparr>st_pc := (st_pc a)(i := Answer (Inl LengthError))\<rparr>"
  have pc': "ps_pc s' = (ps_pc s)(i := Done (Inl LengthError))" by (simp add: s' er)
  have dom: "\<exists>v. st_vals a ?k = Some v \<Longrightarrow> ?k \<in> keySet (hlp (ps_px s))"
    using D(9) by blast
  have "store_rel S K s' ?a"
    by (rule store_rel_commit [OF rel ex _ pc', where k = ?k])
      (use at dom in \<open>auto simp: s' er pc D(2,3,5) key_state_goto simp: key_state_def\<close>)
  moreover have "store_step a ?a"
    using store_step.too_long [of a i ope] long D(6) [of i] pc by simp
  ultimately show ?thesis by blast
qed

lemma step_built_create:
  assumes rel: "store_rel S K s a" and ex: "exclusive s'" and S: "sodium_ok S" and pc: "ps_pc s i = Hold ope True"
    and F: "fresh_ok F" and b: "build S F ope True (hlp (ps_px s)) = (Inr e, st)"
    and s': "s' = goto i (Sending ope e) ((ps_px s)\<lparr>hlp := st\<rparr>) s"
  shows "store_rel S K s' a"
proof -
  let ?k = "op_key ope"
  note D = store_relD [OF rel]
  have at: "at_point S (?k \<in> keySet (hlp (ps_px s))) (st_vals a ?k) (key_state K s ?k) (Hold ope True)"
    using D(7) [of i] pc by simp
  then have put: "op_op ope \<noteq> ''GET''" by auto
  have len: "length (op_value ope) \<le> VALUE_SIZE"
  proof (rule ccontr)
    assume "\<not> ?thesis"
    with at put build_too_long [of ope S F True "hlp (ps_px s)"] b show False by simp
  qed
  from build_create [OF S F len, of "hlp (ps_px s)"] b have
    e: "e = entry_of ?k (block_mem POSITIONS (create_lanes S (pad (op_value ope)) (keygen F)))"
    and st: "st = insert_key ?k (set_value_size ?k (op_value ope)
      ((hlp (ps_px s))\<lparr>masterKeys := (masterKeys (hlp (ps_px s)))(?k \<mapsto> keygen F)\<rparr>))"
    by simp_all
  have point: "at_point S (?k \<in> keySet (hlp (ps_px s'))) (st_vals a ?k) (key_state K s' ?k) (Sending ope e)"
    using put len length_keygen [OF F] encodes_create [OF S]
    by (simp add: s' key_state_goto st e holds_value_rekey int_of_value_size)
  show ?thesis
    by (rule store_rel_inside [OF rel ex, where i = i and p = "Sending ope e" and k = ?k and new = True])
      (use point in \<open>simp_all add: s' pc D(2) key_state_goto st locked_out_def, simp_all add: key_state_def\<close>)
qed

lemma step_built_rekey:
  assumes rel: "store_rel S K s a" and ex: "exclusive s'" and S: "sodium_ok S" and pc: "ps_pc s i = Hold ope False"
    and F: "fresh_good S F" and b: "build S F ope False (hlp (ps_px s)) = (Inr e, st)"
    and s': "s' = goto i (Asking ope e) ((ps_px s)\<lparr>hlp := st\<rparr>) s"
  shows "store_rel S K s' a"
proof -
  let ?k = "op_key ope"
  note D = store_relD [OF rel]
  have F': "fresh_ok F" "good_key S (keygen F)"
    using F by (simp_all add: fresh_good_def good_key_def length_keygen)
  have at: "at_point S (?k \<in> keySet (hlp (ps_px s))) (st_vals a ?k) (key_state K s ?k) (Hold ope False)"
    using D(7) [of i] pc by simp
  then obtain w where w: "st_vals a ?k = Some w" "holds_value S w (key_state K s ?k)" and
    known: "?k \<in> keySet (hlp (ps_px s))" by auto
  have len: "length (op_value ope) \<le> VALUE_SIZE" if "op_op ope \<noteq> ''GET''"
  proof (rule ccontr)
    assume "\<not> ?thesis"
    with at that build_too_long [of ope S F False "hlp (ps_px s)"] b show False by simp
  qed
  from w(2) obtain old l where old: "masterKeys (hlp (ps_px s)) ?k = Some old" "length old = KEYBYTES"
    and l: "arrived K s ?k = Some l" "encodes S old (pair (pad w)) l"
    and wl: "length w \<le> VALUE_SIZE" "valueSizes (hlp (ps_px s)) ?k = Some (int (length w))"
    by (auto simp: holds_value_def key_state_def)
  from build_rekey [OF S F'(1) old len] b have
    e: "e = entry_of ?k (block_mem POSITIONS (rekey_lanes (plain_of S ope old (keygen F)) S F old))"
    and st: "st = (let st' = (hlp (ps_px s))\<lparr>masterKeys := (masterKeys (hlp (ps_px s)))(?k \<mapsto> keygen F)\<rparr>
         in if op_op ope = ''GET'' then st' else set_value_size ?k (op_value ope) st')"
    by simp_all
  have out: "length (outcome ope w) \<le> VALUE_SIZE" using wl(1) len by (simp add: outcome_def)
  have ks: "key_state K s' ?k = (Some (keygen F), Some (int (length (outcome ope w))), Some l)"
    using wl l(1) len by (simp add: s' key_state_goto st Let_def outcome_def int_of_value_size)
  have point: "at_point S (?k \<in> keySet (hlp (ps_px s'))) (st_vals a ?k) (key_state K s' ?k) (Asking ope e)"
    unfolding ks using w(1) known out F' e l(2) by (auto simp: s' st Let_def)
  show ?thesis
    by (rule store_rel_inside [OF rel ex, where i = i and p = "Asking ope e" and k = ?k and new = False])
      (use point in \<open>simp_all add: s' pc D(2) key_state_goto st Let_def locked_out_def, simp_all add: key_state_def\<close>)
qed

text \<open>The create leaves, and the value is stored from now on.\<close>

lemma step_send:
  assumes rel: "store_rel S K s a" and ex: "exclusive s'" and pc: "ps_pc s i = Sending ope e"
    and s': "s' = (goto i (Done (Inr [])) (finish (op_key ope) (ps_px s)) s)\<lparr>ps_mail := ps_mail s @ [e]\<rparr>"
  shows "\<exists>a'. store_step a a' \<and> store_rel S K s' a'"
proof -
  let ?k = "op_key ope"
  let ?a = "a\<lparr>st_vals := (st_vals a)(?k \<mapsto> op_value ope), st_busy := st_busy a - {?k}, st_pc := (st_pc a)(i := Answer (Inr []))\<rparr>"
  note D = store_relD [OF rel]
  have at: "at_point S (?k \<in> keySet (hlp (ps_px s))) (st_vals a ?k) (key_state K s ?k) (Sending ope e)"
    using D(7) [of i] pc by simp
  have pc': "ps_pc s' = (ps_pc s)(i := Done (Inr []))" by (simp add: s')
  have no_mail: "?k \<notin> keyName ` set (ps_mail s)"
    using D(4) in_use_split [of s i] pc by auto
  have arr: "arrived K s' = (arrived K s)(?k \<mapsto> encryptedLabelsA e)"
    using arrived_send [of s' s e K] no_mail at by (simp add: s')
  have "store_rel S K s' ?a"
    by (rule store_rel_commit [OF rel ex _ pc', where k = ?k])
      (use at no_mail D(2,3) in \<open>auto simp: s' pc key_state_def arr [unfolded s'] hlp_finish D(5) locked_out_exchange\<close>)
  moreover have "store_step a ?a"
    using store_step.put [of a i ope] at D(6) [of i] pc by simp
  ultimately show ?thesis by blast
qed

lemma step_deliver:
  assumes rel: "store_rel S K s a" and ex: "exclusive s'" and K: "kvs_ok K" and mail: "ps_mail s = xs @ e # ys"
    and s': "s' = s\<lparr>ps_mail := xs @ ys, ps_sv := kv_create K e (ps_sv s)\<rparr>"
  shows "store_rel S K s' a"
proof -
  note D = store_relD [OF rel]
  have "arrived K s' = arrived K s"
    by (rule arrived_deliver [OF mail D(3) K D(2)]) (simp_all add: s')
  then have ks: "key_state K s' = key_state K s" by (rule_tac ext) (simp add: key_state_def s')
  have "in_use s' = in_use s" by (simp add: in_use_def s')
  moreover have "running (ps_sv s')" using D(2) by (simp add: s' kv_create_def)
  moreover have "ps_px s' = ps_px s" "ps_pc s' = ps_pc s" "ps_mail s' = xs @ ys" by (simp_all add: s')
  ultimately show ?thesis using rel ks ex mail by (auto simp: store_rel_def)
qed

text \<open>The server answers an entry with the labels of the outcome.\<close>

lemma plain_of_lane:
  "plain_of S ope old new (lane_at (aux S old p XOR pair (pad w) p)) p = label S new p (pair (pad (outcome ope w)) p)"
  by (simp add: plain_of_def outcome_def get_plain_def put_plain_def lane_bits_pair)

lemma asked_answer:
  assumes rel: "store_rel S K s a" and S: "sodium_ok S" and K: "kvs_ok K" and pc: "ps_pc s i = Asking ope e"
  shows "\<exists>labels sv. kv_access S K e (ps_sv s) = (Inr labels, sv) \<and> running sv \<and>
    kv_get K (db sv) = (kv_get K (db (ps_sv s)))(op_key ope \<mapsto> labels) \<and>
    (\<exists>w k. st_vals a (op_key ope) = Some w \<and> length (outcome ope w) \<le> VALUE_SIZE \<and> good_key S k \<and>
      labels = answer (\<lambda>p. label S k p (pair (pad (outcome ope w)) p)) \<and>
      masterKeys (hlp (ps_px s)) (op_key ope) = Some k \<and>
      valueSizes (hlp (ps_px s)) (op_key ope) = Some (int (length (outcome ope w))))"
proof -
  let ?k = "op_key ope"
  note D = store_relD [OF rel]
  have "at_point S (?k \<in> keySet (hlp (ps_px s))) (st_vals a ?k) (key_state K s ?k) (Asking ope e)"
    using D(7) [of i] pc by simp
  then obtain w old F l where w: "st_vals a ?k = Some w" "length (outcome ope w) \<le> VALUE_SIZE"
    and e: "e = entry_of ?k (block_mem POSITIONS (rekey_lanes (plain_of S ope old (keygen F)) S F old))"
    and F: "fresh_ok F" "good_key S (keygen F)" and l: "encodes S old (pair (pad w)) l"
    and ks: "key_state K s ?k = (Some (keygen F), Some (int (length (outcome ope w))), Some l)" by auto
  have "?k \<notin> keyName ` set (ps_mail s)" using D(4) in_use_split [of s i] pc by auto
  then have stored: "kv_get K (db (ps_sv s)) ?k = Some l"
    using ks arrived_no_mail [of ?k s K] by (simp add: key_state_def)
  have ok: "sodium_ok S \<and> kvs_ok K" using S K by simp
  have len: "length (plain_of S ope old (keygen F) l p) = 1 + KEYBYTES" for l p
    by (simp add: plain_of_def length_get_plain length_put_plain S)
  let ?out = "answer (\<lambda>p. label S (keygen F) p (pair (pad (outcome ope w)) p))"
  have "?out = answer (\<lambda>p. plain_of S ope old (keygen F) (lane_at (aux S old p XOR pair (pad w) p)) p)"
    by (simp add: plain_of_lane)
  from kv.access_rekey [where plain = "plain_of S ope old (keygen F)" and bits = "pair (pad w)",
      OF ok D(2) TrueI F(1) len stored l pair_cases this]
  show ?thesis using w F(2) ks unfolding e by (fastforce simp: key_state_def)
qed

lemma step_ask:
  assumes rel: "store_rel S K s a" and ex: "exclusive s'" and S: "sodium_ok S" and K: "kvs_ok K"
    and pc: "ps_pc s i = Asking ope e" and acc: "kv_access S K e (ps_sv s) = (Inr labels, sv)"
    and s': "s' = (goto i (Answered ope labels) (ps_px s) s)\<lparr>ps_sv := sv\<rparr>"
  shows "store_rel S K s' a"
proof -
  let ?k = "op_key ope"
  note D = store_relD [OF rel]
  from asked_answer [OF rel S K pc] acc obtain w k where run: "running sv"
    and db: "kv_get K (db sv) = (kv_get K (db (ps_sv s)))(?k \<mapsto> labels)"
    and w: "st_vals a ?k = Some w" "length (outcome ope w) \<le> VALUE_SIZE" and k: "good_key S k"
    and labels: "labels = answer (\<lambda>p. label S k p (pair (pad (outcome ope w)) p))"
    and ks: "masterKeys (hlp (ps_px s)) ?k = Some k"
      "valueSizes (hlp (ps_px s)) ?k = Some (int (length (outcome ope w)))" by auto
  have no_mail: "?k \<notin> keyName ` set (ps_mail s)" using D(4) in_use_split [of s i] pc by auto
  then have arr: "arrived K s' = (arrived K s)(?k \<mapsto> labels)"
    using arrived_no_mail [of ?k s' K] by (auto simp: arrived_def s' db fun_eq_iff split: option.split)
  have known: "?k \<in> keySet (hlp (ps_px s))" using D(7) [of i] pc by simp
  have point: "at_point S (?k \<in> keySet (hlp (ps_px s'))) (st_vals a ?k) (key_state K s' ?k) (Answered ope labels)"
  proof -
    have "ps_px s' = ps_px s" by (simp add: s')
    then have "key_state K s' ?k = (Some k, Some (int (length (outcome ope w))), Some labels)"
      using ks by (simp add: key_state_def arr)
    then show ?thesis using known w k labels \<open>ps_px s' = ps_px s\<close> by auto
  qed
  show ?thesis
    by (rule store_rel_inside [OF rel ex, where i = i and p = "Answered ope labels" and k = ?k and new = False])
      (use point in \<open>simp_all add: s' pc run key_state_def arr [unfolded s']\<close>)
qed

text \<open>The answer is decoded and the key given back.\<close>

lemma step_answer:
  assumes rel: "store_rel S K s a" and ex: "exclusive s'" and S: "sodium_ok S"
    and pc: "ps_pc s i = Answered ope labels" and dec: "decode S c ope labels (hlp (ps_px s)) = (r, st)"
    and s': "\<And>v. r = Inr v \<Longrightarrow> s' = goto i (Done (Inr v)) (finish (op_key ope) ((ps_px s)\<lparr>hlp := st\<rparr>)) s"
  shows "\<exists>v a'. r = Inr v \<and> store_step a a' \<and> store_rel S K s' a'"
proof -
  let ?k = "op_key ope"
  note D = store_relD [OF rel]
  have "at_point S (?k \<in> keySet (hlp (ps_px s))) (st_vals a ?k) (key_state K s ?k) (Answered ope labels)"
    using D(7) [of i] pc by simp
  then obtain w k where known: "?k \<in> keySet (hlp (ps_px s))" and w: "st_vals a ?k = Some w"
    and len: "length (outcome ope w) \<le> VALUE_SIZE" and k: "good_key S k"
    and labels: "labels = answer (\<lambda>p. label S k p (pair (pad (outcome ope w)) p))"
    and ks: "key_state K s ?k = (Some k, Some (int (length (outcome ope w))), Some labels)" by auto
  have mk: "masterKeys (hlp (ps_px s)) ?k = Some k"
    and vs: "valueSizes (hlp (ps_px s)) ?k = Some (int (length (outcome ope w)))"
    using ks by (simp_all add: key_state_def)
  have r: "(r, st) = (Inr (if op_op ope = ''GET'' then garble w else []), hlp (ps_px s))"
    using dec read_answer [of S k "hlp (ps_px s)" ?k "outcome ope w" c] S k mk vs len
    by (auto simp: decode_def good_key_def labels outcome_def)
  let ?r = "if op_op ope = ''GET'' then garble w else []"
  let ?a = "if op_op ope = ''GET'' then a\<lparr>st_busy := st_busy a - {?k}, st_pc := (st_pc a)(i := Answer (Inr ?r))\<rparr>
    else a\<lparr>st_vals := (st_vals a)(?k \<mapsto> op_value ope), st_busy := st_busy a - {?k}, st_pc := (st_pc a)(i := Answer (Inr ?r))\<rparr>"
  have s'': "s' = goto i (Done (Inr ?r)) (finish ?k (ps_px s)) s" using s' [of ?r] r by simp
  have pc': "ps_pc s' = (ps_pc s)(i := Done (Inr ?r))" by (simp only: s'' goto_simps)
  have px': "hlp (ps_px s') = snd (exchange ?k True (hlp (ps_px s)))" by (simp only: s'' goto_simps hlp_finish)
  have same: "key_state K s' = key_state K s"
    by (rule ext) (simp add: key_state_def px', simp only: s'' arrived_goto)
  have out: "st_vals ?a ?k = Some (outcome ope w)" using w by (simp add: outcome_def)
  have "holds_value S (outcome ope w) (key_state K s ?k)"
    unfolding ks holds_value_rekey using len k encodes_answer [OF S] by (simp add: good_key_def labels)
  then have "store_rel S K s' ?a"
    by (intro store_rel_commit [OF rel ex _ pc', where k = ?k])
      (use out known D(2,3) in \<open>simp_all add: px' pc D(5) same locked_out_exchange, simp_all only: s'' goto_simps, auto\<close>)
  moreover have "store_step a ?a"
    using store_step.get [of a i ope w] store_step.put [of a i ope] w len D(6) [of i] pc
    by (simp add: outcome_def split: if_splits)
  moreover have "r = Inr ?r" using r by simp
  ultimately show ?thesis by blast
qed

text \<open>Every timely step of the proxy is a step of the store, or none.\<close>

lemma timely_step_refines:
  assumes S: "sodium_ok S" and K: "kvs_ok K" and G: "\<And>F. F \<in> G \<Longrightarrow> fresh_good S F"
    and step: "timely_step S K G s s'" and rel: "store_rel S K s a"
  shows "\<exists>a'. store_step\<^sup>*\<^sup>* a a' \<and> store_rel S K s' a'"
proof -
  have ps: "proxy_step S K G s s'" and del: "delivered s'" using step by (simp_all add: timely_step_def)
  have ex: "exclusive s'" by (rule proxy_step_exclusive [OF ps store_relD(1) [OF rel]])
  have one: ?thesis if "\<exists>a'. store_step a a' \<and> store_rel S K s' a'" using that by (blast intro: r_into_rtranclp)
  have none: ?thesis if "store_rel S K s' a" using that by blast
  from ps show ?thesis
  proof cases
    case (missing i ope)
    with step_missing [OF rel ex missing(2-4) missing(1)] one show ?thesis by blast
  next
    case (check_key i ope)
    with step_check_key [OF rel ex check_key(2,3,1)] none show ?thesis by blast
  next
    case no_connection
    with store_relD(2) [OF rel] show ?thesis by simp
  next
    case (lock i ope new st)
    with step_lock [OF rel ex lock(2,3,1) del] one show ?thesis by blast
  next
    case (locked i ope new st)
    with step_locked [OF rel ex locked(2,3,1)] one show ?thesis by blast
  next
    case (built i ope new F e st)
    have F: "fresh_good S F" "fresh_ok F" using G [OF built(3)] by (simp_all add: fresh_good_def)
    show ?thesis
    proof (cases new)
      case True
      with step_built_create [OF rel ex S _ F(2)] built none show ?thesis by auto
    next
      case False
      with step_built_rekey [OF rel ex S _ F(1)] built none show ?thesis by auto
    qed
  next
    case (build_throws i ope new F er st)
    have F: "fresh_ok F" using G [OF build_throws(3)] by (simp add: fresh_good_def)
    show ?thesis by (rule one [OF step_build_throws [OF rel ex S build_throws(2) F build_throws(4,1)]])
  next
    case (send i ope e)
    show ?thesis by (rule one [OF step_send [OF rel ex send(2,1)]])
  next
    case send_fails
    with store_relD(2) [OF rel] show ?thesis by simp
  next
    case (deliver xs e ys)
    show ?thesis by (rule none [OF step_deliver [OF rel ex K deliver(2,1)]])
  next
    case (ask i ope e labels sv)
    show ?thesis by (rule none [OF step_ask [OF rel ex S K ask(2,3,1)]])
  next
    case (ask_throws i ope e er sv)
    with asked_answer [OF rel S K ask_throws(2)] show ?thesis by auto
  next
    case (answer i ope labels c v st)
    have "\<And>w. (Inr v :: bytes res) = Inr w \<Longrightarrow> s' = goto i (Done (Inr w)) (finish (op_key ope) ((ps_px s)\<lparr>hlp := st\<rparr>)) s"
      using answer(1) by simp
    from step_answer [OF rel ex S answer(2,3) this] one show ?thesis by blast
  next
    case (answer_throws i ope labels c er st)
    have "\<And>w. (Inl er :: bytes res) = Inr w \<Longrightarrow> s' = goto i (Done (Inr w)) (finish (op_key ope) ((ps_px s)\<lparr>hlp := st\<rparr>)) s"
      by simp
    from step_answer [OF rel ex S answer_throws(2,3) this] show ?thesis by blast
  qed
qed

lemma timely_steps_refine:
  assumes "sodium_ok S" and "kvs_ok K" and "\<And>F. F \<in> G \<Longrightarrow> fresh_good S F"
  shows "(timely_step S K G)\<^sup>*\<^sup>* s s' \<Longrightarrow> store_rel S K s a \<Longrightarrow> \<exists>a'. store_step\<^sup>*\<^sup>* a a' \<and> store_rel S K s' a'"
proof (induction rule: rtranclp_induct)
  case (step y z)
  then obtain b where b: "store_step\<^sup>*\<^sup>* a b" "store_rel S K y b" by blast
  from timely_step_refines [OF assms step(2) b(2)] obtain c where "store_step\<^sup>*\<^sup>* b c" "store_rel S K z c" by blast
  with b(1) show ?case by (meson rtranclp_trans)
qed blast

text \<open>The start: a proxy that represents a store, and operations that no thread has begun.\<close>

definition store_start :: "kv_spec \<Rightarrow> (nat \<Rightarrow> operation) \<Rightarrow> store_sys" where
  "store_start A ops = \<lparr>st_vals = vals A, st_busy = - avail A, st_pc = (\<lambda>i. Asked (ops i))\<rparr>"

definition threads_start :: "proxy \<Rightarrow> 'd server \<Rightarrow> (nat \<Rightarrow> operation) \<Rightarrow> 'd psys" where
  "threads_start px sv ops = \<lparr>ps_px = px, ps_sv = sv, ps_mail = [], ps_pc = (\<lambda>i. Begin (ops i))\<rparr>"

lemma store_rel_start:
  assumes "rep S (kv_get K (db sv)) A px" and "running sv" and "\<And>i. length (op_value (ops i)) < 2 ^ 62"
  shows "store_rel S K (threads_start px sv ops) (store_start A ops)"
proof -
  have "holds_value S v (masterKeys (hlp px) key, valueSizes (hlp px) key, kv_get K (db sv) key)"
    if "vals A key = Some v" for key v
    using assms(1) that by (auto simp: rep_def key_rep_def holds_value_def)
  then show ?thesis
    using assms
    by (auto simp: store_rel_def threads_start_def store_start_def exclusive_def in_use_def locked_out_def rep_def
        key_state_def arrived_def fun_eq_iff)
qed

section \<open>A thread alone up to its access\<close>

text \<open>A thread that has the key of its operation and has built the entry, but not sent it.\<close>

lemma reach_asking:
  assumes S: "sodium_ok S" and F: "fresh_ok F" "F \<in> G" and pc: "ps_pc s i = Begin ope"
    and key: "op_key ope \<in> keySet (hlp (ps_px s))" "\<not> locked_out (hlp (ps_px s)) (op_key ope)"
    and mk: "masterKeys (hlp (ps_px s)) (op_key ope) = Some mk" "length mk = KEYBYTES"
    and put: "op_op ope \<noteq> ''GET'' \<Longrightarrow> length (op_value ope) \<le> VALUE_SIZE"
  shows "\<exists>s' e. (proxy_step S K G)\<^sup>*\<^sup>* s s' \<and> ps_pc s' i = Asking ope e \<and> ps_sv s' = ps_sv s \<and> ps_mail s' = ps_mail s \<and> keyName e = op_key ope \<and>
    keySet (hlp (ps_px s')) = keySet (hlp (ps_px s)) \<and>
    masterKeys (hlp (ps_px s')) = (masterKeys (hlp (ps_px s)))(op_key ope \<mapsto> keygen F)"
proof -
  define a where "a = goto i (Want ope False) (ps_px s) s"
  define st where "st = snd (exchange (op_key ope) False (hlp (ps_px s)))"
  define b where "b = goto i (Hold ope False) ((ps_px a)\<lparr>hlp := st\<rparr>) a"
  have "masterKeys st (op_key ope) = Some mk" using mk(1) by (simp add: st_def)
  from build_rekey [OF S F(1) this mk(2) put] obtain e st1 where build: "build S F ope False st = (Inr e, st1)"
    and e: "keyName e = op_key ope" and st1: "masterKeys st1 = (masterKeys st)(op_key ope \<mapsto> keygen F)" "keySet st1 = keySet st"
    by (auto simp: Let_def set_value_size_def)
  define d where "d = goto i (Asking ope e) ((ps_px b)\<lparr>hlp := st1\<rparr>) b"
  have "proxy_step S K G s a" using proxy_step.check_key [OF pc, of S K G] key(1) by (simp add: a_def)
  moreover have "proxy_step S K G a b"
    using proxy_step.lock [of a i ope False st S K G] key(2)
    by (simp add: a_def b_def st_def exchange_def locked_out_def)
  moreover have "proxy_step S K G b d"
    using proxy_step.built [of b i ope False F G S e st1 K] F(2) build by (simp add: d_def b_def)
  ultimately have "(proxy_step S K G)\<^sup>*\<^sup>* s d" by (meson converse_rtranclp_into_rtranclp rtranclp.rtrancl_refl)
  moreover have "ps_pc d i = Asking ope e" "ps_sv d = ps_sv s" "ps_mail d = ps_mail s" "keyName e = op_key ope" "keySet (hlp (ps_px d)) = keySet (hlp (ps_px s))"
    "masterKeys (hlp (ps_px d)) = (masterKeys (hlp (ps_px s)))(op_key ope \<mapsto> keygen F)"
    by (simp_all add: d_def b_def a_def st1 st_def e)
  ultimately show ?thesis by blast
qed

end
