(* ===== verification/LabelThreadProperties.thy ===== *)
theory LabelThreadProperties
  imports LabelProperties LabelStore
begin

text \<open>
  The properties of the proxy with its threads: they are a store whose operations take effect at
  once, one thread at a time has a key, a thread that nobody interrupts is \<open>handleOp\<close>, and what the
  oneway \<open>create\<close> allows.
\<close>

section \<open>A system of two threads\<close>

text \<open>Every thread starts a PUT, the thread 1 a GET, all for the key \<open>5\<close>.\<close>

definition toy_threads :: "(string \<rightharpoonup> bytes) psys" where
  "toy_threads = \<lparr>ps_px = fst (start_of toy_server), ps_sv = toy_server, ps_mail = [],
     ps_pc = (\<lambda>i. Begin (if i = 1 then get5 else put5 [104, 105]))\<rparr>"

lemma toy_threads_start:
  "\<not> locked_out (hlp (ps_px toy_threads)) ''5''" "''5'' \<notin> keySet (hlp (ps_px toy_threads))"
  "running (ps_sv toy_threads)" "kv_get toy_kvs (db (ps_sv toy_threads)) ''5'' = None"
  "ps_mail toy_threads = []"
  using toy_key
  by (simp_all add: toy_threads_def start_of_def proxy_start_def OpScureSetup_def helper0_def locked_out_def
      at_default_def setup_locks_key_names toy_server_def toy_kvs_def)

lemma toy_threads_pc:
  "ps_pc toy_threads 1 = Begin get5" "ps_pc toy_threads 0 = Begin (put5 [104, 105])"
  "ps_pc toy_threads 2 = Begin (put5 [104, 105])"
  by (simp_all add: toy_threads_def)

text \<open>Thread 0 takes the lock.\<close>

definition toy_locked :: "(string \<rightharpoonup> bytes) psys" where
  "toy_locked = goto 0 (Hold (put5 [104, 105]) True)
     ((ps_px toy_threads)\<lparr>hlp := snd (exchange ''5'' False (hlp (ps_px toy_threads)))\<rparr>)
     (goto 0 (Want (put5 [104, 105]) True) (ps_px toy_threads) toy_threads)"

lemma toy_locked_reached: "(proxy_step toy_sodium toy_kvs UNIV)\<^sup>*\<^sup>* toy_threads toy_locked"
proof -
  let ?s = "goto 0 (Want (put5 [104, 105]) True) (ps_px toy_threads) toy_threads"
  have 1: "proxy_step toy_sodium toy_kvs UNIV toy_threads ?s"
    using proxy_step.check_key [OF toy_threads_pc(2), of toy_sodium toy_kvs UNIV] toy_threads_start(2)
    by (simp add: put5_def)
  have 2: "proxy_step toy_sodium toy_kvs UNIV ?s toy_locked"
    using proxy_step.lock [of ?s 0 "put5 [104, 105]" True _ toy_sodium toy_kvs UNIV] toy_threads_start(1)
    by (simp add: toy_locked_def exchange_def locked_out_def put5_def)
  show ?thesis
    by (rule two_steps [where r = "proxy_step toy_sodium toy_kvs UNIV", OF rtranclp.rtrancl_refl 1 2])
qed

section \<open>The store\<close>

text \<open>
  C2: the proxy with any number of threads, interleaved in any way, is the abstract store.  Take any run
  of the threads, as the sequence of its states, on a proxy and a database that represent a store and
  a server that runs.  Either at some moment of the run a thread holds the lock of a key whose create
  is still on its way to the server, which nothing in the code excludes and which does go wrong
  (C29); or the run is a run of that store in which every operation takes effect in one step
  between its start and its answer, and with the same answers.
\<close>

theorem threads_implement_store:
  assumes "sodium_ok S" and "kvs_ok K" and "\<And>F. F \<in> G \<Longrightarrow> fresh_good S F"
    and "rep S (kv_get K (db sv)) A px" and "running sv" and "\<And>i. length (op_value (ops i)) < 2 ^ 62"
    and "run_of (proxy_step S K G) r k" and "r 0 = threads_start px sv ops"
  shows "(\<exists>j\<le>k. \<not> delivered (r j)) \<or>
    (\<exists>a. store_step\<^sup>*\<^sup>* (store_start A ops) a \<and> (\<forall>i. st_pc a i = abs_pc (ps_pc (r k) i)))"
proof (cases "\<forall>j\<le>k. delivered (r j)")
  case True
  from run_of_steps [OF run_of_timely [OF assms(7) True]] assms(8)
  have "(timely_step S K G)\<^sup>*\<^sup>* (threads_start px sv ops) (r k)" by simp
  from timely_steps_refine [OF assms(1-3) this store_rel_start [OF assms(4-6)]]
  obtain a where "store_step\<^sup>*\<^sup>* (store_start A ops) a" "store_rel S K (r k) a" by blast
  then show ?thesis using store_relD(6) by blast
qed blast

text \<open>Every thread asks for a key that nobody has put.\<close>

definition toy_asking :: "(string \<rightharpoonup> bytes) psys" where
  "toy_asking = threads_start (fst (start_of toy_server)) toy_server (\<lambda>i. get5)"

theorem threads_implement_store_witness:
  "\<exists>r a. run_of (proxy_step toy_sodium toy_kvs {toy_fresh 9}) r 1 \<and> r 0 = toy_asking \<and>
    ps_pc (r 1) 1 = Done (Inr []) \<and> store_step\<^sup>*\<^sup>* (store_start spec0 (\<lambda>i. get5)) a \<and> st_pc a 1 = Answer (Inr [])"
proof -
  let ?step = "proxy_step toy_sodium toy_kvs {toy_fresh 9}"
  let ?s = "goto 1 (Done (Inr [])) (count_abort (ps_px toy_asking)) toy_asking"
  define r where "r = (\<lambda>j :: nat. if j = 0 then toy_asking else ?s)"
  have "?step toy_asking ?s"
    by (rule proxy_step.missing [of _ _ get5])
      (simp_all add: toy_asking_def threads_start_def start_of_def proxy_start_def OpScureSetup_def helper0_def get5_def)
  then have run: "run_of ?step r 1" and start: "r 0 = toy_asking" by (simp_all add: run_of_def r_def)
  have del: "\<forall>j\<le>1. delivered (r j)" by (simp add: r_def delivered_def toy_asking_def threads_start_def)
  have rep: "rep toy_sodium (kv_get toy_kvs (db toy_server)) spec0 (fst (start_of toy_server))"
    unfolding start_of_def fst_conv by (rule rep_start)
  have small: "length (op_value get5) < 2 ^ 62" by (simp add: get5_def)
  have good: "\<And>F. F \<in> {toy_fresh 9} \<Longrightarrow> fresh_good toy_sodium F" by (simp add: toy_fresh_good)
  from threads_implement_store [OF toy_sodium_ok toy_kvs_ok good rep toy_running small run start [unfolded toy_asking_def]] del
  obtain a where "store_step\<^sup>*\<^sup>* (store_start spec0 (\<lambda>i. get5)) a" "\<forall>i. st_pc a i = abs_pc (ps_pc (r 1) i)" by blast
  with run start show ?thesis by (intro exI [of _ r] exI [of _ a]) (simp add: r_def)
qed

section \<open>Mutual exclusion\<close>

lemma exclusive_start: "(\<And>i. holds (ps_pc s i) = None) \<Longrightarrow> exclusive s"
  by (simp add: exclusive_def)

text \<open>
  C12: from a state in which no thread holds a key, whatever the threads do and whatever throws, at
  most one thread at a time is between the locking and the unlocking of a key, and that key's lock
  is taken.
\<close>

theorem one_thread_per_key:
  assumes "\<And>i. holds (ps_pc s i) = None" and "(proxy_step S K G)\<^sup>*\<^sup>* s s'"
    and "holds (ps_pc s' i) = Some key"
  shows "locks (hlp (ps_px s')) key \<noteq> Some True \<and> (\<forall>j \<noteq> i. holds (ps_pc s' j) \<noteq> Some key)"
proof -
  have "exclusive s'" by (rule proxy_steps_exclusive [OF assms(2) exclusive_start [OF assms(1)]])
  with assms(3) have "locked_out (hlp (ps_px s')) key" and "\<And>j. holds (ps_pc s' j) = Some key \<Longrightarrow> i = j"
    unfolding exclusive_def by blast+
  then show ?thesis by (auto simp: locked_out_def at_default_def)
qed

theorem one_thread_per_key_witness:
  "locks (hlp (ps_px toy_locked)) ''5'' \<noteq> Some True \<and> holds (ps_pc toy_locked 1) \<noteq> Some ''5''"
  using one_thread_per_key [of toy_threads toy_sodium toy_kvs UNIV toy_locked 0 "''5''", OF _ toy_locked_reached]
  by (simp add: toy_threads_def toy_locked_def put5_def)

text \<open>
  While a thread is between the locking and the unlocking of a key, whatever the other threads
  do leaves the key's master key and its recorded length alone: the thread decodes the server's
  labels under the master key it encrypted them with.
\<close>

lemma holder_undisturbed:
  assumes "\<And>i. holds (ps_pc s i) = None" and "(proxy_step S K G)\<^sup>*\<^sup>* s s1" and "holds (ps_pc s1 i) = Some key"
    and "(others_step S K G i)\<^sup>*\<^sup>* s1 s2"
  shows "masterKeys (hlp (ps_px s2)) key = masterKeys (hlp (ps_px s1)) key \<and>
    valueSizes (hlp (ps_px s2)) key = valueSizes (hlp (ps_px s1)) key"
proof -
  have "exclusive s1" by (rule proxy_steps_exclusive [OF assms(2) exclusive_start [OF assms(1)]])
  from others_steps_same_records [OF assms(4) this assms(3)] show ?thesis by (simp add: same_records_def)
qed

section \<open>A thread alone\<close>

text \<open>
  A thread that nobody interrupts, with no create on its way, goes through \<open>handleOp\<close>: there is
  a run of the steps that ends with its answer, its tables, counters and locks, and its server.
\<close>

lemma thread_alone:
  assumes "ps_pc s i = Begin ope" and "ps_mail s = []" and "F \<in> G"
  shows "\<exists>r px sv s'. handleOp S (kv_create K) (kv_access S K) F c ope (ps_px s, ps_sv s) = (r, px, sv) \<and>
    (proxy_step S K G)\<^sup>*\<^sup>* s s' \<and> ps_pc s' = (ps_pc s)(i := Done r) \<and> ps_px s' = px \<and> ps_sv s' = sv"
proof -
  obtain r px sv where h: "handleOp S (kv_create K) (kv_access S K) F c ope (ps_px s, ps_sv s) = (r, px, sv)"
    by (metis surj_pair)
  with reaches_handleOp [OF assms, of S K c] show ?thesis by (auto simp: reaches_def)
qed

section \<open>A create overtaken\<close>

text \<open>
  C29: the lock is given back when the create is sent, not when it has arrived.  Two threads suffice:
  the one's first PUT of a key returns, the other's GET of the key then reaches the server first,
  which reads out of the bounds of an empty string.
\<close>

theorem create_overtaken:
  assumes S: "sodium_ok S" and F: "fresh_ok F" "fresh_ok F'" and G: "F \<in> G" "F' \<in> G" and run: "running (ps_sv s)"
    and absent: "kv_get K (db (ps_sv s)) key = None"
    and free: "\<not> locked_out (hlp (ps_px s)) key" and new: "key \<notin> keySet (hlp (ps_px s))"
    and put: "ps_pc s i = Begin put" "op_op put \<noteq> ''GET''" "op_key put = key" "length (op_value put) \<le> VALUE_SIZE"
    and get: "ps_pc s j = Begin get" "op_op get = ''GET''" "op_key get = key" and "i \<noteq> j"
  shows "\<exists>s1 s2. (proxy_step S K G)\<^sup>*\<^sup>* s s1 \<and> ps_pc s1 i = Done (Inr []) \<and>
    (proxy_step S K G)\<^sup>*\<^sup>* s1 s2 \<and> ps_pc s2 j = Done (Inl Undefined)"
proof -
  let ?step = "proxy_step S K G"
  have i: "ps_pc s i = Begin put" by (rule put(1))
  define a where "a = goto i (Want put True) (ps_px s) s"
  define st where "st = snd (exchange key False (hlp (ps_px s)))"
  define b where "b = goto i (Hold put True) ((ps_px a)\<lparr>hlp := st\<rparr>) a"
  obtain e st1 where build: "build S F put True st = (Inr e, st1)" and
    mk: "masterKeys st1 key = Some (keygen F)" and ks: "keySet st1 = insert key (keySet st)"
    using constructCreateEntry_ok [OF S F(1) put(4), of key st]
    by (simp add: build_def put(3) insert_key_def set_value_size_def)
  define d where "d = goto i (Sending put e) ((ps_px b)\<lparr>hlp := st1\<rparr>) b"
  define f where "f = (goto i (Done (Inr [])) (finish key (ps_px d)) d)\<lparr>ps_mail := ps_mail d @ [e]\<rparr>"
  have "?step s a" using proxy_step.check_key [OF i, of S K G] put(2,3) new by (simp add: a_def)
  moreover have "?step a b"
    using proxy_step.lock [of a i put True st S K G] free put(3)
    by (simp add: a_def b_def st_def exchange_def locked_out_def)
  moreover have "?step b d"
    using proxy_step.built [of b i put True F G S e st1 K] G(1) build by (simp add: d_def b_def)
  moreover have "?step d f"
    using proxy_step.send [of d i put e S K G] put(3) by (simp add: f_def d_def)
  ultimately have sf: "?step\<^sup>*\<^sup>* s f" by (meson converse_rtranclp_into_rtranclp rtranclp.rtrancl_refl)
  have fi: "ps_pc f i = Done (Inr [])" by (simp add: f_def)
  have fj: "ps_pc f j = Begin get" using get(1) \<open>i \<noteq> j\<close> by (simp add: f_def d_def b_def a_def)
  have fh: "hlp (ps_px f) = snd (exchange key True st1)" by (simp add: f_def d_def hlp_finish)
  have known: "key \<in> keySet (hlp (ps_px f))" "\<not> locked_out (hlp (ps_px f)) key"
    "masterKeys (hlp (ps_px f)) key = Some (keygen F)"
    using mk ks by (simp_all add: fh exchange_def locked_out_def at_default_def)
  have "length (keygen F) = KEYBYTES" using F(1) by (simp add: fresh_ok_def)
  with reach_asking [OF S F(2) G(2) fj, where K = K and mk = "keygen F"] known get(2,3) obtain k e' where
    k: "?step\<^sup>*\<^sup>* f k" "ps_pc k j = Asking get e'" "ps_sv k = ps_sv f" "keyName e' = key" by auto
  have "ps_sv k = ps_sv s" using k(3) by (simp add: f_def d_def b_def a_def)
  then have "kv_access S K e' (ps_sv k) = (Inl Undefined, ps_sv k)"
    using kv_access_unknown [of "ps_sv s" K e' S] run absent k(4) by simp
  from proxy_step.ask_throws [OF k(2) this, of G] k(1)
  have "?step\<^sup>*\<^sup>* f ((goto j (Done (Inl Undefined)) (ps_px k) k)\<lparr>ps_sv := ps_sv k\<rparr>)" by (rule rtranclp.rtrancl_into_rtrancl [rotated])
  with sf fi show ?thesis by (intro exI [of _ f] exI [of _ "(goto j (Done (Inl Undefined)) (ps_px k) k)\<lparr>ps_sv := ps_sv k\<rparr>"]) simp
qed

theorem create_overtaken_witness:
  "\<exists>s1 s2. (proxy_step toy_sodium toy_kvs UNIV)\<^sup>*\<^sup>* toy_threads s1 \<and> ps_pc s1 0 = Done (Inr []) \<and>
    (proxy_step toy_sodium toy_kvs UNIV)\<^sup>*\<^sup>* s1 s2 \<and> ps_pc s2 1 = Done (Inl Undefined)"
  by (rule create_overtaken [OF toy_sodium_ok toy_fresh_ok [of 9] toy_fresh_ok [of 9] UNIV_I UNIV_I toy_threads_start(3,4,1,2)
        toy_threads_pc(2) _ _ _ toy_threads_pc(1)]) (simp_all add: put5_def get5_def layout)

end
