(* ===== verification/LabelClient.thy ===== *)
theory LabelClient
  imports LabelRefinement
begin

text \<open>
  The command-line client \<open>ortoa-lbl/client.cpp\<close>, which keeps the tables itself and talks to the
  server without the proxy: the parser of its commands, its loop over the standard input and \<open>main\<close>.
  Its commands are the proxy's operations with every lock free, so the refinement of the proxy
  carries over to it.
\<close>

section \<open>The command line\<close>

datatype OperationType = GET | PUT | EXIT

record command =
  c_type :: OperationType
  c_key :: string
  c_value :: bytes

text \<open>What is left of the standard input is a string; a failed extraction leaves its target empty.\<close>

definition parseOperation :: "string \<Rightarrow> command \<times> string" where
  "parseOperation cin =
    (let (tmp, cin) = next_word cin in
     if tmp = ''EXIT'' then (\<lparr>c_type = EXIT, c_key = [], c_value = []\<rparr>, cin)
     else
       let t = (if tmp = ''PUT'' then PUT else GET); (key, cin) = next_word cin in
       if t = PUT then let (v, cin) = next_word cin in (\<lparr>c_type = t, c_key = key, c_value = to_bytes v\<rparr>, cin)
       else (\<lparr>c_type = t, c_key = key, c_value = []\<rparr>, cin))"

text \<open>What the program prints: the prompt, the message for a missing key, a value.\<close>

datatype printed = Prompt | NoSuchKey | Shown bytes

definition cli_step :: "sodium \<Rightarrow> (entry \<Rightarrow> 's \<Rightarrow> 's) \<Rightarrow> (entry \<Rightarrow> 's \<Rightarrow> bytes res \<times> 's) \<Rightarrow> fresh \<Rightarrow> byte \<Rightarrow>
    command \<Rightarrow> helper \<times> 's \<Rightarrow> printed list res \<times> helper \<times> 's" where
  "cli_step S create access F c cmd = (\<lambda>(st, sv).
    if c_key cmd \<notin> keySet st then
      if c_type cmd = GET then (Inr [NoSuchKey], st, sv)
      else
        (case constructCreateEntry S F (c_key cmd) (c_value cmd) st of
           (Inl er, st) \<Rightarrow> (Inl er, st, sv)
         | (Inr createEntry, st) \<Rightarrow>
             let st = insert_key (c_key cmd) (set_value_size (c_key cmd) (c_value cmd) st)
             in (Inr [], st, create createEntry sv))
    else if c_type cmd = GET then
      (case constructGetEntry S F (c_key cmd) st of
         (Inl er, st) \<Rightarrow> (Inl er, st, sv)
       | (Inr getEntry, st) \<Rightarrow>
          (case access getEntry sv of
             (Inl er, sv) \<Rightarrow> (Inl er, st, sv)
           | (Inr labels, sv) \<Rightarrow>
              (case readValueFromLabels S c (c_key cmd) labels st of
                 (Inl er, st) \<Rightarrow> (Inl er, st, sv)
               | (Inr v, st) \<Rightarrow> (Inr [Shown v], st, sv))))
    else
      (case constructPutEntry S F (c_key cmd) (c_value cmd) st of
         (Inl er, st) \<Rightarrow> (Inl er, st, sv)
       | (Inr putEntry, st) \<Rightarrow>
          let st = set_value_size (c_key cmd) (c_value cmd) st in
          (case access putEntry sv of
             (Inl er, sv) \<Rightarrow> (Inl er, st, sv)
           | (Inr labels, sv) \<Rightarrow> (Inr [], st, sv))))"

text \<open>
  The loop ends with the command EXIT or an exception; \<open>None\<close> is a loop that never ends.  The
  randomness and the uninitialised byte of the \<open>n\<close>-th turn are \<open>rnd n\<close>.
\<close>

partial_function (option) cli_loop :: "sodium \<Rightarrow> (entry \<Rightarrow> 's \<Rightarrow> 's) \<Rightarrow> (entry \<Rightarrow> 's \<Rightarrow> bytes res \<times> 's) \<Rightarrow>
    (nat \<Rightarrow> fresh \<times> byte) \<Rightarrow> nat \<Rightarrow> string \<Rightarrow> helper \<times> 's \<Rightarrow> (printed list \<times> error option \<times> helper \<times> 's) option" where
  "cli_loop S create access rnd n cin w =
    (let (cmd, cin) = parseOperation cin in
     if c_type cmd = EXIT then Some ([Prompt], None, w)
     else case cli_step S create access (fst (rnd n)) (snd (rnd n)) cmd w of
       (Inl er, w) \<Rightarrow> Some ([Prompt], Some er, w)
     | (Inr out, w) \<Rightarrow>
         Option.bind (cli_loop S create access rnd (Suc n) cin w)
           (\<lambda>(rest, e, w). Some (Prompt # out @ rest, e, w)))"

text \<open>
  \<open>main\<close>: EXIT saves the tables; after an exception of Thrift the program ends, after any other it
  is terminated, and the file stays what it was.
\<close>

definition cli_main :: "('s \<Rightarrow> bool) \<Rightarrow> ('f \<Rightarrow> saved) \<Rightarrow> (saved \<Rightarrow> 'f) \<Rightarrow> sodium \<Rightarrow> (entry \<Rightarrow> 's \<Rightarrow> 's) \<Rightarrow>
    (entry \<Rightarrow> 's \<Rightarrow> bytes res \<times> 's) \<Rightarrow> (nat \<Rightarrow> fresh \<times> byte) \<Rightarrow> string \<Rightarrow> 'f option \<times> 's \<Rightarrow>
    (printed list \<times> error option \<times> 'f option \<times> 's) option" where
  "cli_main up load save S create access rnd cin = (\<lambda>(file, sv).
    (let st = OpScureSetup load file helper0 in
     if \<not> up sv then Some ([], Some TransportError, file, sv)
     else map_option (\<lambda>(out, e, st, sv). (out, e, (if e = None then Some (OpScureCleanup save st) else file), sv))
       (cli_loop S create access rnd 0 cin (st, sv))))"

section \<open>The client is the handler without locks\<close>

text \<open>A proxy with the client's tables and every lock free.\<close>

definition unlocked :: "helper \<Rightarrow> proxy" where
  "unlocked st = \<lparr>hlp = st\<lparr>locks := (\<lambda>_. Some True)\<rparr>, accesses = 0, aborted = 0\<rparr>"

definition command_op :: "command \<Rightarrow> operation" where
  "command_op cmd = \<lparr>op_op = (if c_type cmd = GET then ''GET'' else ''PUT''), op_key = c_key cmd, op_value = c_value cmd\<rparr>"

definition same_tables :: "helper \<Rightarrow> helper \<Rightarrow> bool" where
  "same_tables st st' \<longleftrightarrow> keySet st = keySet st' \<and> valueSizes st = valueSizes st' \<and> masterKeys st = masterKeys st'"

lemma construct_locks:
  "constructCreateEntry S F key v (st\<lparr>locks := l\<rparr>) = (let (r, st') = constructCreateEntry S F key v st in (r, st'\<lparr>locks := l\<rparr>))"
  "constructGetEntry S F key (st\<lparr>locks := l\<rparr>) = (let (r, st') = constructGetEntry S F key st in (r, st'\<lparr>locks := l\<rparr>))"
  "constructPutEntry S F key v (st\<lparr>locks := l\<rparr>) = (let (r, st') = constructPutEntry S F key v st in (r, st'\<lparr>locks := l\<rparr>))"
  by (simp_all add: constructCreateEntry_def constructGetEntry_def constructPutEntry_def Let_def split: sum.split)

lemma records_locks:
  "insert_key k (st\<lparr>locks := l\<rparr>) = (insert_key k st)\<lparr>locks := l\<rparr>"
  "set_value_size k v (st\<lparr>locks := l\<rparr>) = (set_value_size k v st)\<lparr>locks := l\<rparr>"
  "readValueFromLabels S c k labels (st\<lparr>locks := l\<rparr>) =
    (let (r, st') = readValueFromLabels S c k labels st in (r, st'\<lparr>locks := l\<rparr>))"
  by (simp_all add: insert_key_def set_value_size_def readValueFromLabels_def)

lemma unlocked_exchange:
  "exchange k False (hlp (unlocked st)) = (True, st\<lparr>locks := (\<lambda>_. Some True)(k \<mapsto> False)\<rparr>)"
  by (simp add: exchange_def unlocked_def at_default_def)

lemma unlocked_finish: "hlp (finish k (px\<lparr>hlp := st\<lparr>locks := (\<lambda>_. Some True)(k \<mapsto> False)\<rparr>\<rparr>)) = st\<lparr>locks := (\<lambda>_. Some True)\<rparr>"
proof -
  have "(\<lambda>_. Some True)(k \<mapsto> True) = (\<lambda>_. Some True)" by auto
  then show ?thesis by (simp add: finish_def exchange_def)
qed

definition out_of :: "command \<Rightarrow> bool \<Rightarrow> bytes \<Rightarrow> printed list" where
  "out_of cmd known v = (if c_type cmd = GET then if known then [Shown v] else [NoSuchKey] else [])"

lemma cli_step_handleOp:
  assumes "c_type cmd \<noteq> EXIT"
    and "handleOp S create access F c (command_op cmd) (unlocked st, sv) = (r, px', sv')"
  shows "\<exists>st'. case r of
      Inl er \<Rightarrow> cli_step S create access F c cmd (st, sv) = (Inl er, st', sv')
    | Inr v \<Rightarrow> cli_step S create access F c cmd (st, sv) = (Inr (out_of cmd (c_key cmd \<in> keySet st) v), st', sv') \<and>
        hlp px' = st'\<lparr>locks := (\<lambda>_. Some True)\<rparr>"
proof (cases "c_key cmd \<notin> keySet st \<and> c_type cmd = GET")
  case True
  with assms(2) show ?thesis
    by (auto simp: handleOp_def cli_step_def command_op_def unlocked_def out_of_def count_abort_def)
next
  case False
  note defs = handleOp_def cli_step_def command_op_def unlocked_exchange run_create_def run_get_def run_put_def
    construct_locks records_locks Let_def unlocked_finish out_of_def
  have ks: "keySet (hlp (unlocked st)) = keySet st" by (simp add: unlocked_def)
  show ?thesis
  proof (cases "c_key cmd \<in> keySet st")
    case new: False
    with assms(2) False show ?thesis
      by (cases "constructCreateEntry S F (c_key cmd) (c_value cmd) st")
        (auto simp: defs ks split: sum.splits)
  next
    case known: True
    show ?thesis
    proof (cases "c_type cmd = GET")
      case True
      with assms(2) known show ?thesis
        by (cases "constructGetEntry S F (c_key cmd) st")
          (auto simp: defs ks split: sum.splits prod.splits)
    next
      case False
      with assms(2) known show ?thesis
        by (cases "constructPutEntry S F (c_key cmd) (c_value cmd) st")
          (auto simp: defs ks split: sum.splits prod.splits)
    qed
  qed
qed

text \<open>The tables of the client represent a store.\<close>

definition free_spec :: "(string \<rightharpoonup> bytes) \<Rightarrow> kv_spec" where
  "free_spec V = \<lparr>vals = V, avail = UNIV, n_done = 0, n_aborted = 0\<rparr>"

definition cli_rep :: "sodium \<Rightarrow> (string \<rightharpoonup> bytes) \<Rightarrow> (string \<rightharpoonup> bytes) \<Rightarrow> helper \<Rightarrow> bool" where
  "cli_rep S stored V st \<longleftrightarrow> rep S stored (free_spec V) (unlocked st)"

text \<open>What a command prints and stores.\<close>

definition spec_cmd :: "command \<Rightarrow> (string \<rightharpoonup> bytes) \<Rightarrow> printed list \<times> (string \<rightharpoonup> bytes)" where
  "spec_cmd cmd V =
    (if c_type cmd = GET then (case V (c_key cmd) of None \<Rightarrow> ([NoSuchKey], V) | Some v \<Rightarrow> ([Shown (garble v)], V))
     else ([], V(c_key cmd \<mapsto> c_value cmd)))"

lemma cli_rep_of:
  "rep S stored A px \<Longrightarrow> hlp px = st\<lparr>locks := (\<lambda>_. Some True)\<rparr> \<Longrightarrow> cli_rep S stored (vals A) st"
  by (auto simp: cli_rep_def rep_def free_spec_def unlocked_def key_rep_def at_default_def)

lemma cli_step_refines:
  assumes S: "sodium_ok S" and K: "kvs_ok K" and sv: "running sv" and F: "fresh_good S F"
    and rep: "cli_rep S (kv_get K (db sv)) V st" and cmd: "c_type cmd \<noteq> EXIT" "length (c_value cmd) \<le> VALUE_SIZE"
  shows "\<exists>st' sv'. cli_step S (kv_create K) (kv_access S K) F c cmd (st, sv) = (Inr (fst (spec_cmd cmd V)), st', sv') \<and>
    running sv' \<and> cli_rep S (kv_get K (db sv')) (snd (spec_cmd cmd V)) st'"
proof -
  let ?ope = "command_op cmd" and ?A = "free_spec V"
  have len: "length (op_value ?ope) < 2 ^ 62" using cmd(2) by (simp add: command_op_def layout)
  have known: "c_key cmd \<in> keySet st \<longleftrightarrow> (\<exists>v. V (c_key cmd) = Some v)"
    using rep by (auto simp: cli_rep_def rep_def free_spec_def unlocked_def)
  obtain px' sv' where h: "handleOp S (kv_create K) (kv_access S K) F c ?ope (unlocked st, sv) =
      (fst (spec_op ?ope ?A), px', sv')" and sv': "running sv'"
    and rep': "rep S (kv_get K (db sv')) (snd (spec_op ?ope ?A)) px'"
    using kv.handleOp_refines [OF _ sv TrueI F rep [unfolded cli_rep_def] len, of c] S K by blast
  have ok: "\<exists>v. fst (spec_op ?ope ?A) = Inr v \<and> out_of cmd (c_key cmd \<in> keySet st) v = fst (spec_cmd cmd V)"
    "vals (snd (spec_op ?ope ?A)) = snd (spec_cmd cmd V)"
    using cmd known by (auto simp: spec_op_def free_spec_def command_op_def out_of_def spec_cmd_def Let_def split: option.splits)
  then obtain v where v: "fst (spec_op ?ope ?A) = Inr v" "out_of cmd (c_key cmd \<in> keySet st) v = fst (spec_cmd cmd V)" by blast
  from cli_step_handleOp [OF cmd(1) h] v obtain st' where
    "cli_step S (kv_create K) (kv_access S K) F c cmd (st, sv) = (Inr (fst (spec_cmd cmd V)), st', sv')"
    "hlp px' = st'\<lparr>locks := (\<lambda>_. Some True)\<rparr>" by auto
  with sv' cli_rep_of [OF rep', of st'] ok(2) show ?thesis by auto
qed

lemma cli_step_too_long:
  assumes "c_type cmd = PUT" and "VALUE_SIZE < length (c_value cmd)" and "length (c_value cmd) < 2 ^ 62"
  shows "cli_step S create access F c cmd (st, sv) = (Inl LengthError, st, sv)"
  using assms(1) padToLen_too_long [OF assms(2,3)]
  by (simp add: cli_step_def constructCreateEntry_def constructPutEntry_def)

section \<open>Commands as text\<close>

fun show_command :: "command \<Rightarrow> string \<Rightarrow> string" where
  "show_command cmd v = (if c_type cmd = PUT then ''PUT '' @ c_key cmd @ '' '' @ v @ [CHR 0x0A]
     else ''GET '' @ c_key cmd @ [CHR 0x0A])"

declare show_command.simps [simp del]

definition typed :: "command \<times> string \<Rightarrow> bool" where
  "typed = (\<lambda>(cmd, v). c_type cmd \<noteq> EXIT \<and> a_word (c_key cmd) \<and> length v \<le> VALUE_SIZE \<and>
     (if c_type cmd = PUT then a_word v \<and> c_value cmd = to_bytes v else c_value cmd = []))"

lemma parse_put:
  assumes "c_type cmd = PUT" and "a_word (c_key cmd)" and "a_word v" and "c_value cmd = to_bytes v"
  shows "parseOperation (show_command cmd v @ s) = (cmd, CHR 0x0A # s)"
proof -
  have put: "a_word ''PUT''" by (simp add: a_word_def is_space_def)
  have "parseOperation (show_command cmd v @ s) = (\<lparr>c_type = PUT, c_key = c_key cmd, c_value = to_bytes v\<rparr>, CHR 0x0A # s)"
    using assms(1) next_word_word [OF put, of "CHR '' '' # c_key cmd @ CHR '' '' # v @ CHR 0x0A # s"]
      next_word_word [OF assms(2), of "CHR '' '' # v @ CHR 0x0A # s"] next_word_word [OF assms(3), of "CHR 0x0A # s"]
    by (simp add: parseOperation_def show_command.simps next_word_space)
  then show ?thesis using assms(1,4) by (cases cmd) simp
qed

lemma parse_show:
  assumes "typed (cmd, v)"
  shows "parseOperation (show_command cmd v @ s) = (cmd, CHR 0x0A # s)"
proof (cases "c_type cmd = PUT")
  case True
  with assms show ?thesis by (intro parse_put) (simp_all add: typed_def)
next
  case False
  with assms have GET: "c_type cmd = GET" by (cases "c_type cmd") (simp_all add: typed_def)
  have get: "a_word ''GET''" by (simp add: a_word_def is_space_def)
  have "parseOperation (show_command cmd v @ s) = (\<lparr>c_type = GET, c_key = c_key cmd, c_value = []\<rparr>, CHR 0x0A # s)"
    using assms GET next_word_word [OF get, of "CHR '' '' # c_key cmd @ CHR 0x0A # s"]
      next_word_word [of "c_key cmd" "CHR 0x0A # s"]
    by (simp add: parseOperation_def show_command.simps typed_def next_word_space)
  then show ?thesis using assms GET by (cases cmd) (simp add: typed_def)
qed

lemma parse_newline: "parseOperation (CHR 0x0A # s) = parseOperation s"
  by (simp add: parseOperation_def next_word_space)

section \<open>The loop\<close>

lemma parse_exit: "parseOperation (''EXIT'' @ CHR 0x0A # s) = (\<lparr>c_type = EXIT, c_key = [], c_value = []\<rparr>, CHR 0x0A # s)"
proof -
  have "a_word ''EXIT''" by (simp add: a_word_def is_space_def)
  from next_word_word [OF this, of "CHR 0x0A # s"] show ?thesis by (simp add: parseOperation_def)
qed

lemma parse_end: "parseOperation [] = (\<lparr>c_type = GET, c_key = [], c_value = []\<rparr>, [])"
  by (simp add: parseOperation_def)

lemma cli_loop_newline: "cli_loop S create access rnd n (CHR 0x0A # s) w = cli_loop S create access rnd n s w"
  by (subst (1 2) cli_loop.simps) (simp only: parse_newline)

lemma cli_loop_exit: "cli_loop S create access rnd n (''EXIT'' @ CHR 0x0A # s) w = Some ([Prompt], None, w)"
  by (subst cli_loop.simps) (simp only: parse_exit prod.case command.simps Let_def simp_thms if_True)

text \<open>The commands before the end of the text run as on the abstract store.\<close>

fun spec_cmds :: "command list \<Rightarrow> (string \<rightharpoonup> bytes) \<Rightarrow> printed list \<times> (string \<rightharpoonup> bytes)" where
  "spec_cmds [] V = ([], V)"
| "spec_cmds (cmd # cmds) V = (let (out, V) = spec_cmd cmd V; (rest, V) = spec_cmds cmds V in (Prompt # out @ rest, V))"

definition script :: "(command \<times> string) list \<Rightarrow> string" where
  "script cmds = concat (map (\<lambda>(cmd, v). show_command cmd v) cmds)"

definition prefixed :: "printed list \<Rightarrow> (printed list \<times> 'r) option \<Rightarrow> (printed list \<times> 'r) option" where
  "prefixed out x = map_option (\<lambda>y. (out @ fst y, snd y)) x"

lemma prefixed_simps [simp]:
  "prefixed [] x = x" "prefixed out (prefixed out' x) = prefixed (out @ out') x"
  "prefixed out (Some (out', r)) = Some (out @ out', r)" "prefixed out None = None"
  by (cases x; simp add: prefixed_def)+

lemma bind_prefixed: "Option.bind x (\<lambda>(rest, e, w). Some (p # out @ rest, e, w)) = prefixed (p # out) x"
  by (cases x) (auto simp: prefixed_def)

lemma length_to_bytes [simp]: "length (to_bytes v) = length v"
  by (simp add: to_bytes_def)

lemma typed_length: "typed (cmd, v) \<Longrightarrow> length (c_value cmd) \<le> VALUE_SIZE"
  by (auto simp: typed_def split: if_splits)

lemma cli_loop_script:
  assumes "sodium_ok S" and "kvs_ok K" and "\<And>n. fresh_good S (fst (rnd n))"
  shows "\<forall>x \<in> set cmds. typed x \<Longrightarrow> running sv \<Longrightarrow> cli_rep S (kv_get K (db sv)) V st \<Longrightarrow>
    \<exists>st' sv'. running sv' \<and> cli_rep S (kv_get K (db sv')) (snd (spec_cmds (map fst cmds) V)) st' \<and>
      cli_loop S (kv_create K) (kv_access S K) rnd n (script cmds @ rest) (st, sv) =
        prefixed (fst (spec_cmds (map fst cmds) V))
          (cli_loop S (kv_create K) (kv_access S K) rnd (n + length cmds) rest (st', sv'))"
proof (induction cmds arbitrary: n st sv V)
  case Nil
  then show ?case by (intro exI [of _ st] exI [of _ sv]) (simp add: script_def)
next
  case (Cons x cmds)
  obtain cmd v where x: "x = (cmd, v)" by (cases x)
  with Cons.prems(1) have t: "typed (cmd, v)" by simp
  then have cmd: "c_type cmd \<noteq> EXIT" "length (c_value cmd) \<le> VALUE_SIZE" using typed_length by (auto simp: typed_def)
  from cli_step_refines [OF assms(1,2) Cons.prems(2) assms(3) Cons.prems(3) cmd, of n "snd (rnd n)"]
  obtain st1 sv1 where step: "cli_step S (kv_create K) (kv_access S K) (fst (rnd n)) (snd (rnd n)) cmd (st, sv) =
      (Inr (fst (spec_cmd cmd V)), st1, sv1)" and 1: "running sv1" "cli_rep S (kv_get K (db sv1)) (snd (spec_cmd cmd V)) st1"
    by blast
  from Cons.IH [OF _ 1, of "Suc n"] Cons.prems(1) obtain st' sv' where
    "running sv'" "cli_rep S (kv_get K (db sv')) (snd (spec_cmds (map fst cmds) (snd (spec_cmd cmd V)))) st'" and
    IH: "cli_loop S (kv_create K) (kv_access S K) rnd (Suc n) (script cmds @ rest) (st1, sv1) =
      prefixed (fst (spec_cmds (map fst cmds) (snd (spec_cmd cmd V))))
        (cli_loop S (kv_create K) (kv_access S K) rnd (Suc n + length cmds) rest (st', sv'))" by auto
  moreover have "parseOperation (script (x # cmds) @ rest) = (cmd, CHR 0x0A # script cmds @ rest)"
    using parse_show [OF t] by (simp add: script_def x)
  then have "cli_loop S (kv_create K) (kv_access S K) rnd n (script (x # cmds) @ rest) (st, sv) =
      prefixed (Prompt # fst (spec_cmd cmd V))
        (cli_loop S (kv_create K) (kv_access S K) rnd (Suc n) (script cmds @ rest) (st1, sv1))"
    by (subst cli_loop.simps) (simp add: step cmd(1) cli_loop_newline bind_prefixed)
  ultimately show ?case
    by (intro exI [of _ st'] exI [of _ sv'])
      (simp add: x case_prod_beta IH)
qed

text \<open>At the end of the input every further turn is a GET of the empty key: the loop never ends.\<close>

lemma cli_loop_never:
  assumes new: "[] \<notin> keySet (fst w)"
  shows "cli_loop S create access rnd n [] w = None"
proof (rule ccontr)
  assume "cli_loop S create access rnd n [] w \<noteq> None"
  then obtain r where r: "cli_loop S create access rnd n [] w = Some r" by blast
  have "[] = ([] :: string) \<longrightarrow> [] \<in> keySet (fst w)"
  proof (rule cli_loop.raw_induct [where P = "\<lambda>S create access rnd n cin w r. cin = [] \<longrightarrow> [] \<in> keySet (fst w)", OF _ r])
    fix loop S create access rnd n cin r and w :: "helper \<times> 'b"
    assume IH: "\<And>S create access rnd n cin (w :: helper \<times> 'b) r. loop S create access rnd n cin w = Some r \<Longrightarrow>
        cin = [] \<longrightarrow> [] \<in> keySet (fst w)"
      and eq: "(let (cmd, cin) = parseOperation cin in
         if c_type cmd = EXIT then Some ([Prompt], None, w)
         else case cli_step S create access (fst (rnd n)) (snd (rnd n)) cmd w of
           (Inl er, w) \<Rightarrow> Some ([Prompt], Some er, w)
         | (Inr out, w) \<Rightarrow> Option.bind (loop S create access rnd (Suc n) cin w)
             (\<lambda>(rest, e, w). Some (Prompt # out @ rest, e, w))) = Some r"
    show "cin = [] \<longrightarrow> [] \<in> keySet (fst w)"
    proof (intro impI, rule ccontr)
      assume cin: "cin = []" and "[] \<notin> keySet (fst w)"
      then have "cli_step S create access F c \<lparr>c_type = GET, c_key = [], c_value = []\<rparr> w = (Inr [NoSuchKey], w)" for F c
        by (cases w) (simp add: cli_step_def)
      with eq cin obtain r' where "loop S create access rnd (Suc n) [] w = Some r'"
        by (auto simp: parse_end bind_eq_Some_conv)
      from IH [OF this] \<open>[] \<notin> keySet (fst w)\<close> show False by simp
    qed
  qed
  with new show False by simp
qed

end
