(* ===== verification/LabelLoad.thy ===== *)
theory LabelLoad
  imports LabelClient
begin

text \<open>
  The load generators of ORTOA-LBL: the random operations and the client of \<open>clients.cpp\<close>, the
  handler and the client of \<open>concurrent_benchmark.cpp\<close>, and the loop of \<open>benchmark.cpp\<close>.  Latencies
  are counted, not measured.
\<close>

section \<open>Random operations\<close>

text \<open>\<open>below_half r\<close> is \<open>(float) r / RAND_MAX < 0.5\<close>; the draws of one operation are a record.\<close>

record draws =
  r_first :: nat
  r_second :: nat
  r_bytes :: bytes

definition randGenOperation :: "(nat \<Rightarrow> bool) \<Rightarrow> draws \<Rightarrow> operation res" where
  "randGenOperation below_half d =
    (let x = (if below_half (r_first d) then ''PUT'' else ''GET'');
         key = to_string (r_second d mod KEY_MAX) in
     if x = ''GET'' then
       bind_res (string_of_array (r_bytes d)) (\<lambda>v. Inr \<lparr>op_op = x, op_key = key, op_value = v\<rparr>)
     else Inr \<lparr>op_op = x, op_key = key, op_value = []\<rparr>)"

section \<open>clients.cpp\<close>

text \<open>
  One client: its operations go to the proxy until one throws; the result is the number of latencies
  and the error that ended the loop.
\<close>

fun client :: "('s \<Rightarrow> bool) \<Rightarrow> sodium \<Rightarrow> (entry \<Rightarrow> 's \<Rightarrow> 's) \<Rightarrow> (entry \<Rightarrow> 's \<Rightarrow> bytes res \<times> 's) \<Rightarrow>
    (nat \<Rightarrow> bool) \<Rightarrow> (fresh \<times> byte \<times> draws) list \<Rightarrow> proxy \<times> 's \<Rightarrow> (bytes list \<times> error option) \<times> proxy \<times> 's" where
  "client up S create access below_half [] w = (([], None), w)"
| "client up S create access below_half ((F, c, d) # ds) w =
    (case randGenOperation below_half d of
       Inl er \<Rightarrow> (([], Some er), w)
     | Inr ope \<Rightarrow>
        (case proxy_access up S create access F c ope w of
           (Inl er, w) \<Rightarrow> (([], Some er), w)
         | (Inr val, w) \<Rightarrow>
             let ((vals, e), w) = client up S create access below_half ds w in ((val # vals, e), w)))"

section \<open>concurrent_benchmark.cpp\<close>

text \<open>The handler of the proxy once more, with a latency per GET and PUT of a known key.\<close>

definition cb_handleOp :: "sodium \<Rightarrow> (entry \<Rightarrow> 's \<Rightarrow> 's) \<Rightarrow> (entry \<Rightarrow> 's \<Rightarrow> bytes res \<times> 's) \<Rightarrow>
    fresh \<Rightarrow> byte \<Rightarrow> operation \<Rightarrow> nat \<times> proxy \<times> 's \<Rightarrow> bytes res \<times> nat \<times> proxy \<times> 's" where
  "cb_handleOp S create access F c ope = (\<lambda>(stat, px, sv).
    if op_key ope \<notin> keySet (hlp px) then
      if op_op ope = ''GET'' then (Inr [], stat, count_abort px, sv)
      else
        let (got, st) = exchange (op_key ope) False (hlp px) in
        if got then
          (case constructCreateEntry S F (op_key ope) (op_value ope) st of
             (Inl er, st) \<Rightarrow> (Inl er, stat, px\<lparr>hlp := st\<rparr>, sv)
           | (Inr createEntry, st) \<Rightarrow>
               let st = insert_key (op_key ope) (set_value_size (op_key ope) (op_value ope) st)
               in (Inr [], stat, finish (op_key ope) (px\<lparr>hlp := st\<rparr>), create createEntry sv))
        else (Inr [], stat, count_abort (px\<lparr>hlp := st\<rparr>), sv)
    else
      let (got, st) = exchange (op_key ope) False (hlp px) in
      if got then
        if op_op ope = ''GET'' then
          (case constructGetEntry S F (op_key ope) st of
             (Inl er, st) \<Rightarrow> (Inl er, stat, px\<lparr>hlp := st\<rparr>, sv)
           | (Inr getEntry, st) \<Rightarrow>
              (case access getEntry sv of
                 (Inl er, sv) \<Rightarrow> (Inl er, stat, px\<lparr>hlp := st\<rparr>, sv)
               | (Inr labels, sv) \<Rightarrow>
                  (case readValueFromLabels S c (op_key ope) labels st of
                     (Inl er, st) \<Rightarrow> (Inl er, stat, px\<lparr>hlp := st\<rparr>, sv)
                   | (Inr v, st) \<Rightarrow> (Inr v, stat + 1, finish (op_key ope) (px\<lparr>hlp := st\<rparr>), sv))))
        else
          (case constructPutEntry S F (op_key ope) (op_value ope) st of
             (Inl er, st) \<Rightarrow> (Inl er, stat, px\<lparr>hlp := st\<rparr>, sv)
           | (Inr putEntry, st) \<Rightarrow>
              let st = set_value_size (op_key ope) (op_value ope) st in
              (case access putEntry sv of
                 (Inl er, sv) \<Rightarrow> (Inl er, stat, px\<lparr>hlp := st\<rparr>, sv)
               | (Inr labels, sv) \<Rightarrow> (Inr [], stat + 1, finish (op_key ope) (px\<lparr>hlp := st\<rparr>), sv)))
      else (Inr [], stat, count_abort (px\<lparr>hlp := st\<rparr>), sv))"

fun clientThread :: "sodium \<Rightarrow> (entry \<Rightarrow> 's \<Rightarrow> 's) \<Rightarrow> (entry \<Rightarrow> 's \<Rightarrow> bytes res \<times> 's) \<Rightarrow>
    (nat \<Rightarrow> bool) \<Rightarrow> (fresh \<times> byte \<times> draws) list \<Rightarrow> nat \<times> proxy \<times> 's \<Rightarrow> error option \<times> nat \<times> proxy \<times> 's" where
  "clientThread S create access below_half [] w = (None, w)"
| "clientThread S create access below_half ((F, c, d) # ds) w =
    (case randGenOperation below_half d of
       Inl er \<Rightarrow> (Some er, w)
     | Inr ope \<Rightarrow>
        (case cb_handleOp S create access F c ope w of
           (Inl er, w) \<Rightarrow> (Some er, w)
         | (Inr val, w) \<Rightarrow> clientThread S create access below_half ds w))"

text \<open>Whether an operation is measured: its key is known and free.\<close>

definition measured :: "operation \<Rightarrow> helper \<Rightarrow> bool" where
  "measured ope st \<longleftrightarrow> op_key ope \<in> keySet st \<and> at_default (locks st) False (op_key ope)"

lemma cb_handleOp_eq:
  "cb_handleOp S create access F c ope (stat, px, sv) =
    (let (r, w) = handleOp S create access F c ope (px, sv)
     in (r, (if measured ope (hlp px) \<and> (\<exists>v. r = Inr v) then stat + 1 else stat), w))"
  by (auto simp: cb_handleOp_def handleOp_def run_create_def run_get_def run_put_def measured_def exchange_def Let_def
      split: sum.split prod.split)

section \<open>benchmark.cpp\<close>

text \<open>One turn: a GET of a key, known or not, then a PUT of the empty value with a recorded length of 160.\<close>

definition bench_turn :: "sodium \<Rightarrow> (entry \<Rightarrow> 's \<Rightarrow> bytes res \<times> 's) \<Rightarrow> fresh \<Rightarrow> fresh \<Rightarrow> byte \<Rightarrow> nat \<Rightarrow>
    helper \<times> 's \<Rightarrow> bytes res \<times> helper \<times> 's" where
  "bench_turn S access F F' c r = (\<lambda>(st, sv).
    (let key = to_string (r mod KEY_MAX) in
     case constructGetEntry S F key st of
       (Inl er, st) \<Rightarrow> (Inl er, st, sv)
     | (Inr getEntry, st) \<Rightarrow>
        (case access getEntry sv of
           (Inl er, sv) \<Rightarrow> (Inl er, st, sv)
         | (Inr labels, sv) \<Rightarrow>
            (case readValueFromLabels S c key labels st of
               (Inl er, st) \<Rightarrow> (Inl er, st, sv)
             | (Inr val, st) \<Rightarrow>
                (case constructPutEntry S F' key [] st of
                   (Inl er, st) \<Rightarrow> (Inl er, st, sv)
                 | (Inr putEntry, st) \<Rightarrow>
                    let st = st\<lparr>valueSizes := (valueSizes st)(key \<mapsto> int VALUE_SIZE)\<rparr> in
                    (case access putEntry sv of
                       (Inl er, sv) \<Rightarrow> (Inl er, st, sv)
                     | (Inr labels, sv) \<Rightarrow> (Inr val, st, sv)))))))"

text \<open>A key that was never created: its master key reads as the empty string.\<close>

lemma get_entry_unknown:
  assumes "masterKeys st key = None"
  shows "constructGetEntry S F key st = (Inl Undefined, st)"
proof -
  have "derive S [] sid = Inl Undefined" for sid by (simp add: derive_def read_at_def KEYBYTES_def)
  then have body: "get_body S [] F ptr i j = Inl Undefined" for ptr i j
    by (simp add: get_body_def rekey_body_def Let_def)
  have loop: "label_loop (get_body S [] F) w ptr xs = Inl Undefined" if "xs \<noteq> []" for w ptr xs
    using that by (cases xs) (auto simp: body)
  have "getEntryParallel S 0 [] F = Inl Undefined"
    unfolding getEntryParallel_def Let_def
    by (rule loop) (simp add: part_start_def part_limit_def part_size_def layout upt_conv_Cons)
  then have "map_res (\<lambda>part. getEntryParallel S part [] F) (0 # [1..<PROXY_NUM_THREADS]) = Inl Undefined"
    by (rule map_res_first_error)
  moreover have "[0..<PROXY_NUM_THREADS] = 0 # [1..<PROXY_NUM_THREADS]"
    by (simp add: PROXY_NUM_THREADS_def upt_conv_Cons)
  ultimately show ?thesis using assms by (simp add: constructGetEntry_def at_default_def)
qed

lemma bench_turn_unknown:
  "masterKeys st (to_string (r mod KEY_MAX)) = None \<Longrightarrow> bench_turn S access F F' c r (st, sv) = (Inl Undefined, st, sv)"
  by (simp add: bench_turn_def get_entry_unknown)

text \<open>A known key: the turn of the benchmark is a GET and a PUT of 160 spaces on the command line.\<close>

definition spaces :: bytes where
  "spaces = replicate VALUE_SIZE 32"

lemma put_spaces: "constructPutEntry S F key [] st = constructPutEntry S F key spaces st"
proof -
  have "padToLen [] VALUE_SIZE = padToLen spaces VALUE_SIZE"
    using padToLen_pad [of "[]"] padToLen_pad [of spaces] by (simp add: pad_def spaces_def)
  then show ?thesis by (simp add: constructPutEntry_def)
qed

lemma spaces_size: "st\<lparr>valueSizes := (valueSizes st)(key \<mapsto> int VALUE_SIZE)\<rparr> = set_value_size key spaces st"
  using int_of_value_size [of spaces] by (simp add: set_value_size_def spaces_def)

lemma bench_turn_cli:
  assumes "key = to_string (r mod KEY_MAX)" and "key \<in> keySet st"
    and get: "cli_step S create access F c \<lparr>c_type = GET, c_key = key, c_value = []\<rparr> (st, sv) = (Inr [Shown v], st1, sv1)"
    and put: "cli_step S create access F' c' \<lparr>c_type = PUT, c_key = key, c_value = spaces\<rparr> (st1, sv1) = (Inr [], st2, sv2)"
    and "key \<in> keySet st1"
  shows "bench_turn S access F F' c r (st, sv) = (Inr v, st2, sv2)"
  using assms
  by (auto simp: cli_step_def bench_turn_def put_spaces spaces_size Let_def split: sum.splits prod.splits)

lemma bench_turn_refines:
  assumes S: "sodium_ok S" and K: "kvs_ok K" and sv: "running sv" and F: "fresh_good S F" "fresh_good S F'"
    and rep: "cli_rep S (kv_get K (db sv)) V st" and v: "V (to_string (r mod KEY_MAX)) = Some v"
  shows "\<exists>st' sv'. bench_turn S (kv_access S K) F F' c r (st, sv) = (Inr (garble v), st', sv') \<and> running sv' \<and>
    cli_rep S (kv_get K (db sv')) (V(to_string (r mod KEY_MAX) \<mapsto> spaces)) st'"
proof -
  let ?k = "to_string (r mod KEY_MAX)"
  let ?get = "\<lparr>c_type = GET, c_key = ?k, c_value = []\<rparr>" and ?put = "\<lparr>c_type = PUT, c_key = ?k, c_value = spaces\<rparr>"
  have known: "?k \<in> keySet st'" if "cli_rep S stored V st'" for stored st'
    using that v by (auto simp: cli_rep_def rep_def unlocked_def free_spec_def)
  from cli_step_refines [OF S K sv F(1) rep, of ?get c] v obtain st1 sv1 where
    get: "cli_step S (kv_create K) (kv_access S K) F c ?get (st, sv) = (Inr [Shown (garble v)], st1, sv1)"
    and 1: "running sv1" "cli_rep S (kv_get K (db sv1)) V st1" by (auto simp: spec_cmd_def)
  from cli_step_refines [OF S K 1(1) F(2) 1(2), of ?put c] obtain st2 sv2 where
    put: "cli_step S (kv_create K) (kv_access S K) F' c ?put (st1, sv1) = (Inr [], st2, sv2)"
    and 2: "running sv2" "cli_rep S (kv_get K (db sv2)) (V(?k \<mapsto> spaces)) st2"
    by (auto simp: spec_cmd_def spaces_def)
  from bench_turn_cli [OF refl known [OF rep] get put known [OF 1(2)]] 2 show ?thesis by blast
qed

section \<open>What the load measures\<close>

text \<open>No generated operation writes a value, so that a client that starts without values sees none.\<close>

definition no_values :: "kv_spec \<Rightarrow> bool" where
  "no_values A \<longleftrightarrow> (\<forall>key v. vals A key = Some v \<longrightarrow> v = []) \<and> key_names \<subseteq> avail A"

lemma rand_op:
  assumes "0 \<in> set (r_bytes d)"
  shows "\<exists>ope. randGenOperation below_half d = Inr ope \<and> op_key ope \<in> key_names \<and>
    (op_op ope \<noteq> ''GET'' \<longrightarrow> op_value ope = []) \<and> length (op_value ope) \<le> length (r_bytes d)"
  using assms length_takeWhile_le [of "\<lambda>b. b \<noteq> 0" "r_bytes d"]
  by (auto simp: randGenOperation_def Let_def string_of_array_def key_names_def KEY_MAX_def)

lemma no_values_op:
  assumes "no_values A" and "op_key ope \<in> key_names" and "op_op ope \<noteq> ''GET'' \<longrightarrow> op_value ope = []"
  shows "fst (spec_op ope A) = Inr [] \<and> no_values (snd (spec_op ope A))"
proof -
  have "garble [] = []" by (simp add: garble_def)
  moreover have "op_key ope \<in> avail A" using assms(1,2) by (auto simp: no_values_def)
  moreover have "vals A (op_key ope) = None \<or> vals A (op_key ope) = Some []"
    using assms(1) by (cases "vals A (op_key ope)") (auto simp: no_values_def)
  ultimately show ?thesis using assms(1,3) by (auto simp: spec_op_def no_values_def Let_def)
qed

lemma client_no_values:
  assumes S: "sodium_ok S" and K: "kvs_ok K"
  shows "\<forall>(F, c, d) \<in> set ds. fresh_good S F \<and> 0 \<in> set (r_bytes d) \<and> length (r_bytes d) = VALUE_SIZE \<Longrightarrow>
    running sv \<Longrightarrow> rep S (kv_get K (db sv)) A px \<Longrightarrow> no_values A \<Longrightarrow>
    \<exists>px' sv' A'. client running S (kv_create K) (kv_access S K) below_half ds (px, sv) =
      ((replicate (length ds) [], None), px', sv') \<and> running sv' \<and> rep S (kv_get K (db sv')) A' px' \<and> no_values A'"
proof (induction ds arbitrary: px sv A)
  case (Cons x ds)
  obtain F c d where x: "x = (F, c, d)" by (cases x)
  with Cons.prems(1) have d: "fresh_good S F" "0 \<in> set (r_bytes d)" "length (r_bytes d) = VALUE_SIZE" by auto
  from rand_op [OF d(2), of below_half] obtain ope where
    ope: "randGenOperation below_half d = Inr ope" "op_key ope \<in> key_names" "op_op ope \<noteq> ''GET'' \<longrightarrow> op_value ope = []"
      "length (op_value ope) \<le> VALUE_SIZE" using d(3) by auto
  have "length (op_value ope) < 2 ^ 62" using ope(4) by (simp add: layout)
  from kv.proxy_access_refines [OF _ Cons.prems(2) TrueI d(1) Cons.prems(3) this, of c] S K obtain px1 sv1 where
    one: "proxy_access running S (kv_create K) (kv_access S K) F c ope (px, sv) = (fst (spec_op ope A), px1, sv1)"
      "running sv1" "rep S (kv_get K (db sv1)) (snd (spec_op ope A)) px1" by blast
  note A = no_values_op [OF Cons.prems(4) ope(2,3)]
  from Cons.IH [OF _ one(2,3)] A Cons.prems(1) obtain px' sv' A' where
    "client running S (kv_create K) (kv_access S K) below_half ds (px1, sv1) = ((replicate (length ds) [], None), px', sv')"
    "running sv'" "rep S (kv_get K (db sv')) A' px'" "no_values A'" by auto
  with one(1) ope(1) A show ?case by (auto simp: x)
qed auto

end
