(* ===== verification/LabelClientProperties.thy ===== *)
theory LabelClientProperties
  imports LabelLoad LabelExamples
begin

text \<open>
  The properties of the programs in front of the library: the command-line client is a store that
  survives a restart, what it does at the end of its input and after an exception, and what the load
  generators store and measure.
\<close>

section \<open>The command line\<close>

text \<open>
  C10: a script of GET and PUT commands that ends with EXIT prints what the abstract store prints, and
  the file that is saved represents the store for the next start of the client.
\<close>

theorem cli_implements_store:
  assumes "sodium_ok S" and "kvs_ok K" and "running sv" and "\<And>n. fresh_good S (fst (rnd n))"
    and "\<forall>x \<in> set cmds. typed x" and "\<And>x. load (save x) = x"
    and "cli_rep S (kv_get K (db sv)) V (OpScureSetup load file helper0)"
  shows "\<exists>file' sv'. cli_main running load save S (kv_create K) (kv_access S K) rnd (script cmds @ ''EXIT'' @ [CHR 0x0A]) (file, sv) =
      Some (fst (spec_cmds (map fst cmds) V) @ [Prompt], None, Some file', sv') \<and> running sv' \<and>
    cli_rep S (kv_get K (db sv')) (snd (spec_cmds (map fst cmds) V)) (OpScureSetup load (Some file') helper0)"
proof -
  from cli_loop_script [where n = 0 and rnd = rnd and rest = "''EXIT'' @ [CHR 0x0A]", OF assms(1,2,4,5,3,7)] obtain st' sv' where
    1: "running sv'" "cli_rep S (kv_get K (db sv')) (snd (spec_cmds (map fst cmds) V)) st'" and
    loop: "cli_loop S (kv_create K) (kv_access S K) rnd 0 (script cmds @ ''EXIT'' @ [CHR 0x0A]) (OpScureSetup load file helper0, sv) =
      Some (fst (spec_cmds (map fst cmds) V) @ [Prompt], None, st', sv')"
    using cli_loop_exit [of S "kv_create K" "kv_access S K" rnd "length cmds" "[]"] by (auto simp: numeral_eq_Suc)
  have "cli_rep S (kv_get K (db sv')) (snd (spec_cmds (map fst cmds) V))
      (OpScureSetup load (Some (OpScureCleanup save st')) helper0)"
    using 1(2) assms(6)
    by (auto simp: OpScureSetup_def OpScureCleanup_def cli_rep_def rep_def unlocked_def free_spec_def key_rep_def)
  with 1(1) show ?thesis using loop assms(3) by (simp add: cli_main_def Let_def)
qed

text \<open>The key \<open>k\<close> in the examples.\<close>

definition toy_rnd :: "nat \<Rightarrow> fresh \<times> byte" where
  "toy_rnd n = (toy_fresh 9, 77)"

definition toy_cmds :: "(command \<times> string) list" where
  "toy_cmds = [(\<lparr>c_type = PUT, c_key = ''k'', c_value = to_bytes ''hi''\<rparr>, ''hi''), (\<lparr>c_type = GET, c_key = ''k'', c_value = []\<rparr>, [])]"

lemma toy_typed: "\<forall>x \<in> set toy_cmds. typed x"
  by (simp add: toy_cmds_def typed_def a_word_def is_space_def layout)

lemma toy_cli_start: "cli_rep S stored Map.empty (OpScureSetup load None helper0)"
  by (simp add: cli_rep_def rep_def free_spec_def unlocked_def OpScureSetup_def helper0_def at_default_def)

lemma toy_running_server: "running toy_server"
  by (simp add: toy_server_def)

theorem cli_implements_store_witness:
  "\<exists>file' sv'. cli_main running id id toy_sodium (kv_create toy_kvs) (kv_access toy_sodium toy_kvs) toy_rnd
      (script toy_cmds @ ''EXIT'' @ [CHR 0x0A]) (None, toy_server) =
    Some ([Prompt, Prompt, Shown (to_bytes ''hi''), Prompt], None, Some file', sv')"
  using cli_implements_store [OF toy_sodium_ok toy_kvs_ok toy_running_server _ toy_typed _ toy_cli_start, of toy_rnd id id]
  by (fastforce simp: toy_rnd_def toy_fresh_good toy_cmds_def spec_cmd_def garble_short layout)

text \<open>
  C30: a script that does not end with EXIT never lets the client end: at the end of the input the
  loop goes on for good and nothing is saved.
\<close>

theorem cli_never_ends:
  assumes "sodium_ok S" and "kvs_ok K" and "running sv" and "\<And>n. fresh_good S (fst (rnd n))"
    and "\<forall>x \<in> set cmds. typed x" and "cli_rep S (kv_get K (db sv)) V (OpScureSetup load file helper0)" and "V [] = None"
  shows "cli_main running load save S (kv_create K) (kv_access S K) rnd (script cmds) (file, sv) = None"
proof -
  from cli_loop_script [where n = 0 and rnd = rnd and rest = "[]", OF assms(1,2,4,5,3,6)] obtain st' sv' where
    1: "cli_rep S (kv_get K (db sv')) (snd (spec_cmds (map fst cmds) V)) st'" and
    loop: "cli_loop S (kv_create K) (kv_access S K) rnd 0 (script cmds) (OpScureSetup load file helper0, sv) =
      prefixed (fst (spec_cmds (map fst cmds) V)) (cli_loop S (kv_create K) (kv_access S K) rnd (length cmds) [] (st', sv'))"
    by auto
  have "snd (spec_cmds (map fst cmds) V) [] = None"
    using assms(5,7)
  proof (induction cmds arbitrary: V)
    case (Cons x cmds)
    then have "snd (spec_cmd (fst x) V) [] = None"
      by (cases x) (auto simp: spec_cmd_def typed_def a_word_def split: option.splits)
    with Cons show ?case by (auto simp: case_prod_beta Let_def)
  qed simp
  with 1 have "[] \<notin> keySet (fst (st', sv'))" by (auto simp: cli_rep_def rep_def unlocked_def free_spec_def)
  from cli_loop_never [OF this] loop assms(3) show ?thesis by (simp add: cli_main_def Let_def)
qed

theorem cli_never_ends_witness:
  "cli_main running id id toy_sodium (kv_create toy_kvs) (kv_access toy_sodium toy_kvs) toy_rnd (script toy_cmds) (None, toy_server) = None"
  by (rule cli_never_ends [OF toy_sodium_ok toy_kvs_ok toy_running_server _ toy_typed toy_cli_start])
    (simp_all add: toy_rnd_def toy_fresh_good)

text \<open>
  A value of more than 160 bytes ends the client with an exception, and the file stays what it
  was before: the master keys of every command before it are lost, while the server has the new
  labels.
\<close>

lemma cli_exception_loses_keys:
  assumes "sodium_ok S" and "kvs_ok K" and "running sv" and "\<And>n. fresh_good S (fst (rnd n))"
    and "\<forall>x \<in> set cmds. typed x" and "cli_rep S (kv_get K (db sv)) V (OpScureSetup load file helper0)"
    and "c_type cmd = PUT" and "a_word (c_key cmd)" and "a_word v" and "c_value cmd = to_bytes v"
    and "VALUE_SIZE < length v" and "length v < 2 ^ 62"
  shows "\<exists>sv' st'. cli_main running load save S (kv_create K) (kv_access S K) rnd (script cmds @ show_command cmd v @ rest) (file, sv) =
      Some (fst (spec_cmds (map fst cmds) V) @ [Prompt], Some LengthError, file, sv') \<and>
    cli_rep S (kv_get K (db sv')) (snd (spec_cmds (map fst cmds) V)) st'"
proof -
  from cli_loop_script [where n = 0 and rnd = rnd and rest = "show_command cmd v @ rest", OF assms(1,2,4,5,3,6)] obtain st' sv' where
    1: "cli_rep S (kv_get K (db sv')) (snd (spec_cmds (map fst cmds) V)) st'" and
    loop: "cli_loop S (kv_create K) (kv_access S K) rnd 0 (script cmds @ show_command cmd v @ rest) (OpScureSetup load file helper0, sv) =
      prefixed (fst (spec_cmds (map fst cmds) V))
        (cli_loop S (kv_create K) (kv_access S K) rnd (length cmds) (show_command cmd v @ rest) (st', sv'))"
    by auto
  have "cli_loop S (kv_create K) (kv_access S K) rnd (length cmds) (show_command cmd v @ rest) (st', sv') =
      Some ([Prompt], Some LengthError, st', sv')"
    using parse_put [OF assms(7-10), of rest] assms(7,10-12)
    by (subst cli_loop.simps) (simp add: cli_step_too_long [OF assms(7)])
  with loop assms(3) 1 show ?thesis by (auto simp: cli_main_def Let_def)
qed

definition toy_long :: string where
  "toy_long = replicate 161 (CHR ''x'')"

lemma cli_exception_loses_keys_example:
  "\<exists>sv' st'. cli_main running id id toy_sodium (kv_create toy_kvs) (kv_access toy_sodium toy_kvs) toy_rnd
      (script toy_cmds @ show_command \<lparr>c_type = PUT, c_key = ''k'', c_value = to_bytes toy_long\<rparr> toy_long @ []) (None, toy_server) =
    Some ([Prompt, Prompt, Shown (to_bytes ''hi''), Prompt], Some LengthError, None, sv') \<and>
    cli_rep toy_sodium (kv_get toy_kvs (db sv')) [''k'' \<mapsto> to_bytes ''hi''] st'"
  using cli_exception_loses_keys [OF toy_sodium_ok toy_kvs_ok toy_running_server _ toy_typed toy_cli_start,
      of toy_rnd "\<lparr>c_type = PUT, c_key = ''k'', c_value = to_bytes toy_long\<rparr>" toy_long id id "[]"]
  by (fastforce simp: toy_rnd_def toy_fresh_good toy_cmds_def spec_cmd_def garble_short layout toy_long_def a_word_def is_space_def)

section \<open>The load generators\<close>

text \<open>
  The random value is drawn for a GET and not for a PUT: a client that starts on a store without
  values gets an empty answer to every operation, and never an error, as long as each drawn array
  has a NUL byte.
\<close>

lemma load_stores_nothing:
  assumes "sodium_ok S" and "kvs_ok K" and "running sv" and "rep S (kv_get K (db sv)) A px" and "no_values A"
    and "\<forall>(F, c, d) \<in> set ds. fresh_good S F \<and> 0 \<in> set (r_bytes d) \<and> length (r_bytes d) = VALUE_SIZE"
  shows "fst (client running S (kv_create K) (kv_access S K) below_half ds (px, sv)) = (replicate (length ds) [], None)"
  using client_no_values [OF assms(1,2,6,3-5), of below_half] by auto

text \<open>
  A turn of the benchmark on a key that holds a value reads the value and leaves 160 spaces
  behind, not the empty value it puts: the recorded length is always 160.
\<close>

lemma benchmark_leaves_spaces:
  assumes "sodium_ok S" and "kvs_ok K" and "running sv" and "fresh_good S F" and "fresh_good S F'"
    and "cli_rep S (kv_get K (db sv)) V st" and "V (to_string (r mod KEY_MAX)) = Some v"
  shows "\<exists>st' sv'. bench_turn S (kv_access S K) F F' c r (st, sv) = (Inr (garble v), st', sv') \<and>
    cli_rep S (kv_get K (db sv')) (V(to_string (r mod KEY_MAX) \<mapsto> replicate 160 32)) st'"
  using bench_turn_refines [OF assms, of c] by (auto simp: spaces_def layout)

end
