(* ===== verification/LabelLoadThreads.thy ===== *)
theory LabelLoadThreads
  imports LabelStore LabelLoad
begin

text \<open>
  \<open>clients.cpp\<close> with the proxy behind it: \<open>main\<close> starts one thread for each client, every client
  sends its operations one after the other over its own connection and waits for each answer, and a
  thread of the proxy serves the connection.
\<close>

section \<open>State and steps\<close>

text \<open>
  \<open>Loop ds\<close> is at the head of the loop with the draws of the turns to come, \<open>Waiting ds\<close> in the call
  of \<open>access\<close>, \<open>Over e\<close> behind the \<open>try\<close> block.  Thread \<open>i\<close> of the proxy serves client \<open>i\<close>.
\<close>

datatype lclient = Loop "draws list" | Waiting "draws list" | Over "error option"

record 'd lsys =
  l_ps :: "'d psys"
  l_clients :: "lclient list"
  l_answers :: "bytes list list"

definition turn :: "nat \<Rightarrow> lclient \<Rightarrow> 'd lsys \<Rightarrow> 'd lsys" where
  "turn i c l = l\<lparr>l_clients := (l_clients l)[i := c]\<rparr>"

text \<open>
  \<open>step\<close> is what the proxy does.  A handler of the proxy that throws closes the connection; so does
  one that cannot reach the server.
\<close>

inductive load_step :: "(nat \<Rightarrow> bool) \<Rightarrow> ('d psys \<Rightarrow> 'd psys \<Rightarrow> bool) \<Rightarrow> 'd lsys \<Rightarrow> 'd lsys \<Rightarrow> bool"
  for below_half step where
  request: "i < length (l_clients l) \<Longrightarrow> l_clients l ! i = Loop (d # ds) \<Longrightarrow>
    randGenOperation below_half d = Inr ope \<Longrightarrow> running (ps_sv (l_ps l)) \<Longrightarrow>
    load_step below_half step l (turn i (Waiting ds) (l\<lparr>l_ps := goto i (Begin ope) (ps_px (l_ps l)) (l_ps l)\<rparr>))"
| refused: "i < length (l_clients l) \<Longrightarrow> l_clients l ! i = Loop (d # ds) \<Longrightarrow>
    randGenOperation below_half d = Inr ope \<Longrightarrow> \<not> running (ps_sv (l_ps l)) \<Longrightarrow>
    load_step below_half step l (turn i (Over (Some TransportError)) l)"
| no_operation: "i < length (l_clients l) \<Longrightarrow> l_clients l ! i = Loop (d # ds) \<Longrightarrow>
    randGenOperation below_half d = Inl er \<Longrightarrow> load_step below_half step l (turn i (Over (Some er)) l)"
| serve: "step (l_ps l) s \<Longrightarrow> load_step below_half step l (l\<lparr>l_ps := s\<rparr>)"
| answered: "i < length (l_clients l) \<Longrightarrow> l_clients l ! i = Waiting ds \<Longrightarrow> ps_pc (l_ps l) i = Done (Inr v) \<Longrightarrow>
    load_step below_half step l
      (turn i (Loop ds) (l\<lparr>l_answers := (l_answers l)[i := l_answers l ! i @ [v]]\<rparr>))"
| closed: "i < length (l_clients l) \<Longrightarrow> l_clients l ! i = Waiting ds \<Longrightarrow> ps_pc (l_ps l) i = Done (Inl er) \<Longrightarrow>
    load_step below_half step l (turn i (Over (Some TransportError)) l)"
| ready: "i < length (l_clients l) \<Longrightarrow> l_clients l ! i = Loop [] \<Longrightarrow>
    load_step below_half step l (turn i (Over None) l)"

text \<open>Before the threads start: nobody has asked the proxy for anything.\<close>

definition load_start :: "proxy \<Rightarrow> 'd server \<Rightarrow> draws list list \<Rightarrow> 'd lsys" where
  "load_start px sv dss = \<lparr>l_ps = \<lparr>ps_px = px, ps_sv = sv, ps_mail = [], ps_pc = (\<lambda>i. Done (Inr []))\<rparr>,
     l_clients = map Loop dss, l_answers = map (\<lambda>ds. []) dss\<rparr>"

text \<open>\<open>main\<close>: 64 clients with 100 turns each.\<close>

definition NUM_CLIENTS :: nat where
  "NUM_CLIENTS = 64"

definition clients_start :: "proxy \<Rightarrow> 'd server \<Rightarrow> (nat \<Rightarrow> nat \<Rightarrow> draws) \<Rightarrow> 'd lsys" where
  "clients_start px sv ds = load_start px sv (map (\<lambda>i. map (ds i) [0..<100]) [0..<NUM_CLIENTS])"

lemma turn_simps [simp]:
  "l_ps (turn i c l) = l_ps l" "l_clients (turn i c l) = (l_clients l)[i := c]" "l_answers (turn i c l) = l_answers l"
  by (simp_all add: turn_def)

section \<open>What a step of the proxy does to the counters\<close>

fun answers_with :: "pc \<Rightarrow> nat" where
  "answers_with (Done (Inr v)) = 1"
| "answers_with _ = 0"

fun pc_rank :: "pc \<Rightarrow> nat" where
  "pc_rank (Begin ope) = 5"
| "pc_rank (Want ope new) = 4"
| "pc_rank (Hold ope new) = 3"
| "pc_rank (Sending ope e) = 2"
| "pc_rank (Asking ope e) = 2"
| "pc_rank (Answered ope labels) = 1"
| "pc_rank (Done r) = 0"

definition counted :: "proxy \<Rightarrow> 32 word" where
  "counted px = accesses px + aborted px"

lemma counted_simps [simp]:
  "counted (count_abort px) = counted px + 1" "counted (finish k px) = counted px + 1"
  "counted (px\<lparr>hlp := st\<rparr>) = counted px"
  by (simp_all add: counted_def count_abort_def finish_def)

text \<open>
  Either a create arrives, or one thread goes on; it counts its operation when it ends without an
  exception.
\<close>

lemma proxy_step_thread:
  assumes "proxy_step S K G s s'"
  obtains (arrives) "ps_pc s' = ps_pc s" "counted (ps_px s') = counted (ps_px s)" "length (ps_mail s) = Suc (length (ps_mail s'))"
  | (thread) i p where "ps_pc s' = (ps_pc s)(i := p)"
      "length (ps_mail s') + pc_rank p < length (ps_mail s) + pc_rank (ps_pc s i)" "\<forall>r. ps_pc s i \<noteq> Done r"
      "counted (ps_px s') = counted (ps_px s) + of_nat (answers_with p)"
  using assms
proof cases
  case (built i ope new F e st)
  then show thesis by (cases new) (auto intro: thread [of i])
next
  case (send i ope e)
  then show thesis by (auto intro: thread [of i])
next
  case (deliver xs e ys)
  then show thesis by (auto intro: arrives)
qed (auto intro: thread)


section \<open>A run ends and counts every request\<close>

text \<open>Only a client that waits has a thread of the proxy at work.\<close>

definition load_inv :: "nat \<Rightarrow> 'd lsys \<Rightarrow> bool" where
  "load_inv n l \<longleftrightarrow> length (l_clients l) = n \<and> length (l_answers l) = n \<and>
    (\<forall>i. (\<exists>r. ps_pc (l_ps l) i = Done r) \<or> (i < n \<and> (\<exists>ds. l_clients l ! i = Waiting ds)))"

fun pending :: "lclient \<Rightarrow> pc \<Rightarrow> nat" where
  "pending (Waiting ds) p = answers_with p"
| "pending _ p = 0"

definition credit :: "'d lsys \<Rightarrow> nat \<Rightarrow> nat" where
  "credit l i = length (l_answers l ! i) + pending (l_clients l ! i) (ps_pc (l_ps l) i)"

fun client_rank :: "lclient \<Rightarrow> nat" where
  "client_rank (Loop ds) = 7 * length ds + 1"
| "client_rank (Waiting ds) = 7 * length ds + 2"
| "client_rank (Over e) = 0"

definition load_rank :: "nat \<Rightarrow> 'd lsys \<Rightarrow> nat" where
  "load_rank n l = length (ps_mail (l_ps l)) + (\<Sum>i<n. pc_rank (ps_pc (l_ps l) i) + client_rank (l_clients l ! i))"

text \<open>What changes in a step: the records of one client, or a create arrives.\<close>

definition one_client :: "nat \<Rightarrow> 'd lsys \<Rightarrow> 'd lsys \<Rightarrow> nat \<Rightarrow> bool" where
  "one_client n l l' i \<longleftrightarrow> i < n \<and> (\<forall>k. k \<noteq> i \<longrightarrow> ps_pc (l_ps l') k = ps_pc (l_ps l) k \<and>
     l_clients l' ! k = l_clients l ! k \<and> l_answers l' ! k = l_answers l ! k)"

definition create_arrives :: "'d lsys \<Rightarrow> 'd lsys \<Rightarrow> bool" where
  "create_arrives l l' \<longleftrightarrow> l_clients l' = l_clients l \<and> l_answers l' = l_answers l \<and> ps_pc (l_ps l') = ps_pc (l_ps l) \<and>
    counted (ps_px (l_ps l')) = counted (ps_px (l_ps l)) \<and> length (ps_mail (l_ps l')) < length (ps_mail (l_ps l))"

definition client_moves :: "nat \<Rightarrow> 'd lsys \<Rightarrow> 'd lsys \<Rightarrow> nat \<Rightarrow> bool" where
  "client_moves n l l' i \<longleftrightarrow> one_client n l l' i \<and>
    counted (ps_px (l_ps l')) + of_nat (credit l i) = counted (ps_px (l_ps l)) + of_nat (credit l' i) \<and>
    length (ps_mail (l_ps l')) + pc_rank (ps_pc (l_ps l') i) + client_rank (l_clients l' ! i) <
      length (ps_mail (l_ps l)) + pc_rank (ps_pc (l_ps l) i) + client_rank (l_clients l ! i)"

lemma load_step_cases:
  assumes "load_step below_half step l l'" and sub: "step \<le> proxy_step S K G" and inv: "load_inv n l"
  shows "load_inv n l' \<and> (create_arrives l l' \<or> (\<exists>i. client_moves n l l' i))"
proof -
  note D = inv [unfolded load_inv_def]
  have idle: "\<exists>r. ps_pc (l_ps l) i = Done r" if "\<And>ds. l_clients l ! i \<noteq> Waiting ds" for i using D that by blast
  have moved: ?thesis if "client_moves n l l' i" "load_inv n l'" for i using that by blast
  note defs = client_moves_def one_client_def load_inv_def credit_def
  from assms(1) show ?thesis
  proof cases
    case (request i d ds ope)
    then obtain r where "ps_pc (l_ps l) i = Done r" using idle by force
    with request D show ?thesis by (intro moved [of i]) (auto simp: defs nth_list_update)
  next
    case (refused i d ds ope)
    then show ?thesis using D idle [of i] by (intro moved [of i]) (auto simp: defs nth_list_update)
  next
    case (no_operation i d ds er)
    then show ?thesis using D idle [of i] by (intro moved [of i]) (auto simp: defs nth_list_update)
  next
    case (serve s)
    from predicate2D [OF sub serve(2)] show ?thesis
    proof (cases rule: proxy_step_thread)
      case arrives
      with D show ?thesis by (simp add: serve(1) load_inv_def create_arrives_def)
    next
      case (thread i p)
      from D thread(3) obtain ds where i: "i < n" "l_clients l ! i = Waiting ds" by blast
      have "answers_with (ps_pc (l_ps l) i) = 0" using thread(3) by (cases "ps_pc (l_ps l) i") auto
      with i thread(1,2,4) D show ?thesis
        by (intro moved [of i]) (auto simp: serve(1) defs)
    qed
  next
    case (answered i ds v)
    then show ?thesis using D by (intro moved [of i]) (auto simp: defs nth_list_update)
  next
    case (closed i ds er)
    then show ?thesis using D by (intro moved [of i]) (auto simp: defs nth_list_update)
  next
    case (ready i)
    then show ?thesis using D idle [of i] by (intro moved [of i]) (auto simp: defs nth_list_update)
  qed
qed

lemma load_step_rank:
  assumes "load_step below_half step l l'" and "step \<le> proxy_step S K G" and "load_inv n l"
  shows "load_rank n l' < load_rank n l"
proof -
  from load_step_cases [OF assms] show ?thesis
  proof (elim conjE disjE exE)
    assume "create_arrives l l'"
    then show ?thesis by (simp add: create_arrives_def load_rank_def)
  next
    fix i
    assume move: "client_moves n l l' i"
    let ?r = "\<lambda>l i. pc_rank (ps_pc (l_ps l) i) + client_rank (l_clients l ! i)"
    have "(\<Sum>k<n. ?r l' k) + ?r l i = (\<Sum>k<n. ?r l k) + ?r l' i"
      using move by (intro sum_change_one) (simp_all add: client_moves_def one_client_def)
    with move show ?thesis by (simp add: client_moves_def load_rank_def)
  qed
qed

text \<open>Every request that got its answer has been counted once, as an access or as aborted.\<close>

definition load_counts :: "nat \<Rightarrow> 32 word \<Rightarrow> 'd lsys \<Rightarrow> bool" where
  "load_counts n c l \<longleftrightarrow> counted (ps_px (l_ps l)) = c + of_nat (\<Sum>i<n. credit l i)"

lemma load_step_counts:
  assumes "load_step below_half step l l'" and "step \<le> proxy_step S K G" and "load_inv n l"
    and "load_counts n c l"
  shows "load_counts n c l'"
proof -
  from load_step_cases [OF assms(1-3)] show ?thesis
  proof (elim conjE disjE exE)
    assume arrives: "create_arrives l l'"
    then have "credit l' = credit l" by (simp add: create_arrives_def credit_def fun_eq_iff)
    with arrives assms(4) show ?thesis unfolding create_arrives_def load_counts_def by simp
  next
    fix i
    assume move: "client_moves n l l' i"
    have "(\<Sum>k<n. credit l' k) + credit l i = (\<Sum>k<n. credit l k) + credit l' i"
      using move by (intro sum_change_one) (simp_all add: client_moves_def one_client_def credit_def)
    then have "(of_nat (\<Sum>k<n. credit l' k) + of_nat (credit l i) :: 32 word) = of_nat (\<Sum>k<n. credit l k) + of_nat (credit l' i)"
      by (metis of_nat_add)
    with move assms(4) have "counted (ps_px (l_ps l')) + of_nat (credit l i) = c + of_nat (\<Sum>k<n. credit l' k) + of_nat (credit l i)"
      unfolding client_moves_def load_counts_def by (metis (no_types) add.assoc)
    then show ?thesis by (simp add: load_counts_def)
  qed
qed

lemma timely_le: "timely_step S K G \<le> proxy_step S K G"
  by (auto simp: timely_step_def)

interpretation load: ranked_steps "load_step below_half (proxy_step S K G)" "\<lambda>l. load_inv n l \<and> load_counts n c l" "load_rank n"
proof
  fix l l'
  assume step: "load_step below_half (proxy_step S K G) l l'" and inv: "load_inv n l \<and> load_counts n c l"
  then have "load_inv n l" "load_counts n c l" by simp_all
  with load_step_cases [OF step order.refl] load_step_counts [OF step order.refl] load_step_rank [OF step order.refl]
  show "load_inv n l' \<and> load_counts n c l'" "load_rank n l' < load_rank n l" by simp_all
qed

interpretation timely_load: ranked_steps "load_step below_half (timely_step S K G)" "\<lambda>l. load_inv n l \<and> load_counts n c l"
    "load_rank n"
proof
  fix l l'
  assume step: "load_step below_half (timely_step S K G) l l'" and inv: "load_inv n l \<and> load_counts n c l"
  then have "load_inv n l" "load_counts n c l" by simp_all
  with load_step_cases [OF step timely_le] load_step_counts [OF step timely_le] load_step_rank [OF step timely_le]
  show "load_inv n l' \<and> load_counts n c l'" "load_rank n l' < load_rank n l" by simp_all
qed

lemma load_start_inv:
  "load_inv (length dss) (load_start px sv dss)" "load_counts (length dss) (counted px) (load_start px sv dss)"
  by (auto simp: load_start_def load_inv_def load_counts_def credit_def)

lemma load_start_rank: "load_rank (length dss) (load_start px sv dss) = (\<Sum>ds \<leftarrow> dss. 7 * length ds + 1)"
  by (simp add: load_start_def load_rank_def sum_list_sum_nth atLeast0LessThan)


section \<open>Without creates in flight nothing fails\<close>

text \<open>
  The generated operations write no value.  \<open>E\<close> says that the store they meet holds none either; then
  every answer is empty.
\<close>

definition quiet_op :: "operation \<Rightarrow> bool" where
  "quiet_op ope \<longleftrightarrow> length (op_value ope) < 2 ^ 62 \<and> (op_op ope \<noteq> ''GET'' \<longrightarrow> op_value ope = [])"

fun quiet_pc :: "bool \<Rightarrow> spc \<Rightarrow> bool" where
  "quiet_pc E (Asked ope) \<longleftrightarrow> quiet_op ope"
| "quiet_pc E (Running ope) \<longleftrightarrow> quiet_op ope"
| "quiet_pc E (Answer (Inl er)) \<longleftrightarrow> False"
| "quiet_pc E (Answer (Inr v)) \<longleftrightarrow> (E \<longrightarrow> v = [])"

definition quiet :: "bool \<Rightarrow> store_sys \<Rightarrow> bool" where
  "quiet E a \<longleftrightarrow> (E \<longrightarrow> (\<forall>key v. st_vals a key = Some v \<longrightarrow> v = [])) \<and> (\<forall>i. quiet_pc E (st_pc a i))"

lemma store_step_quiet:
  assumes "store_step a a'" and "quiet E a"
  shows "quiet E a'"
proof -
  have pc: "quiet_pc E (st_pc a i)" and val: "E \<Longrightarrow> st_vals a key = Some v \<Longrightarrow> v = []" for i key v
    using assms(2) by (simp_all add: quiet_def)
  have "garble [] = []" by (simp add: garble_def)
  from assms(1) show ?thesis
  proof cases
    case (too_long i ope)
    with pc [of i] show ?thesis by (simp add: quiet_op_def)
  next
    case (get i ope v)
    with val [OF _ get(4)] pc assms(2) \<open>garble [] = []\<close> show ?thesis by (auto simp: quiet_def)
  next
    case (put i ope)
    with pc [of i] assms(2) show ?thesis by (auto simp: quiet_def quiet_op_def)
  next
    case (start i ope)
    with pc [of i] assms(2) show ?thesis by (auto simp: quiet_def)
  qed (use assms(2) in \<open>auto simp: quiet_def\<close>)
qed

lemma store_steps_quiet: "store_step\<^sup>*\<^sup>* a a' \<Longrightarrow> quiet E a \<Longrightarrow> quiet E a'"
  by (induction rule: rtranclp_induct) (auto intro: store_step_quiet)

text \<open>
  A draw gives an operation, or its array holds no zero byte and its conversion to a string reads
  beyond it.  A client can do its turns up to the first such draw.
\<close>

definition turns_of :: "(nat \<Rightarrow> bool) \<Rightarrow> draws list \<Rightarrow> nat" where
  "turns_of below_half ds = length (takeWhile (\<lambda>d. \<not> isl (randGenOperation below_half d)) ds)"

definition end_of :: "(nat \<Rightarrow> bool) \<Rightarrow> draws list \<Rightarrow> error option" where
  "end_of below_half ds = (if turns_of below_half ds = length ds then None else Some Undefined)"

lemma rand_op_quiet:
  assumes "length (r_bytes d) = VALUE_SIZE" and "randGenOperation below_half d = Inr ope"
  shows "quiet_op ope"
proof (cases "0 \<in> set (r_bytes d)")
  case True
  from rand_op [OF True, of below_half] assms show ?thesis by (auto simp: quiet_op_def layout)
next
  case False
  then have "string_of_array (r_bytes d) = Inl Undefined" by (simp add: string_of_array_def)
  with assms(2) show ?thesis by (auto simp: randGenOperation_def Let_def quiet_op_def split: if_splits)
qed

lemma rand_op_fails: "randGenOperation below_half d = Inl er \<Longrightarrow> er = Undefined"
  by (auto simp: randGenOperation_def string_of_array_def Let_def bind_res_def split: if_splits sum.splits)

lemma turns_of_le: "turns_of below_half ds \<le> length ds"
  unfolding turns_of_def by (rule length_takeWhile_le)

lemma turns_of_next:
  assumes "n \<le> turns_of below_half ds" and "drop n ds = d # ds'"
  shows "if isl (randGenOperation below_half d) then n = turns_of below_half ds else Suc n \<le> turns_of below_half ds"
  using takeWhile_next [OF assms(1) [unfolded turns_of_def] assms(2)] by (simp add: turns_of_def split: if_splits)

text \<open>
  The load generator on a proxy that represents a quiet store: a client has failed only by a draw
  that is no operation.
\<close>

fun client_fine :: "(nat \<Rightarrow> bool) \<Rightarrow> draws list \<Rightarrow> nat \<Rightarrow> lclient \<Rightarrow> bool" where
  "client_fine below_half ds0 n (Loop ds) \<longleftrightarrow> ds = drop n ds0 \<and> n \<le> turns_of below_half ds0"
| "client_fine below_half ds0 n (Waiting ds) \<longleftrightarrow> ds = drop (Suc n) ds0 \<and> Suc n \<le> turns_of below_half ds0"
| "client_fine below_half ds0 n (Over e) \<longleftrightarrow> e = end_of below_half ds0 \<and> n = turns_of below_half ds0"

definition load_fine :: "sodium \<Rightarrow> 'd kvs \<Rightarrow> (nat \<Rightarrow> bool) \<Rightarrow> bool \<Rightarrow> draws list list \<Rightarrow> 'd lsys \<Rightarrow> bool" where
  "load_fine S K below_half E dss l \<longleftrightarrow> load_inv (length dss) l \<and> (\<exists>a. store_rel S K (l_ps l) a \<and> quiet E a) \<and>
    (\<forall>i < length dss. client_fine below_half (dss ! i) (length (l_answers l ! i)) (l_clients l ! i) \<and>
      (E \<longrightarrow> set (l_answers l ! i) \<subseteq> {[]})) \<and>
    (\<forall>i < length dss. \<forall>d \<in> set (dss ! i). length (r_bytes d) = VALUE_SIZE)"

text \<open>A new request on a thread that has answered the last one.\<close>

lemma store_rel_request:
  assumes rel: "store_rel S K s a" and answered: "ps_pc s i = Done r" and ope: "length (op_value ope) < 2 ^ 62"
  shows "store_rel S K (goto i (Begin ope) (ps_px s) s) (a\<lparr>st_pc := (st_pc a)(i := Asked ope)\<rparr>)"
proof -
  let ?s = "goto i (Begin ope) (ps_px s) s"
  have "exclusive ?s" using exclusive_move [OF store_relD(1) [OF rel], of "Begin ope" i ?s] by simp
  from store_rel_outside [OF rel this, of i "Begin ope"] answered ope show ?thesis by simp
qed

lemma load_step_fine:
  assumes S: "sodium_ok S" and K: "kvs_ok K" and G: "\<And>F. F \<in> G \<Longrightarrow> fresh_good S F"
    and step: "load_step below_half (timely_step S K G) l l'" and fine: "load_fine S K below_half E dss l"
  shows "load_fine S K below_half E dss l'"
proof -
  let ?n = "length dss"
  let ?fine = "\<lambda>l i. client_fine below_half (dss ! i) (length (l_answers l ! i)) (l_clients l ! i) \<and>
    (E \<longrightarrow> set (l_answers l ! i) \<subseteq> {[]})"
  from fine obtain a where inv: "load_inv ?n l" and rel: "store_rel S K (l_ps l) a" and a: "quiet E a"
    and c: "\<And>i. i < ?n \<Longrightarrow> ?fine l i"
    and bytes: "\<And>i d. i < ?n \<Longrightarrow> d \<in> set (dss ! i) \<Longrightarrow> length (r_bytes d) = VALUE_SIZE"
    unfolding load_fine_def by blast
  have inv': "load_inv ?n l'" using load_step_cases [OF step timely_le inv] by blast
  have len: "length (l_clients l) = ?n" "length (l_answers l) = ?n" using inv by (simp_all add: load_inv_def)
  have r: "running (ps_sv (l_ps l))" by (rule store_relD(2) [OF rel])
  have answer: "quiet_pc E (Answer r)" if "ps_pc (l_ps l) i = Done r" for i r
  proof -
    from a store_relD(6) [OF rel, of i] have "quiet_pc E (abs_pc (ps_pc (l_ps l) i))" by (metis quiet_def)
    with that show ?thesis by simp
  qed
  have keep: ?thesis if "store_rel S K (l_ps l') a'" "quiet E a'" "\<And>i. i < ?n \<Longrightarrow> ?fine l' i" for a'
    using that inv' bytes unfolding load_fine_def by blast
  from step show ?thesis
  proof cases
    case (request i d ds ope)
    have i: "i < ?n" using request(2) len by simp
    have ds: "drop (length (l_answers l ! i)) (dss ! i) = d # ds" "length (l_answers l ! i) \<le> turns_of below_half (dss ! i)"
      using c [OF i] request(3) by auto
    then have "d \<in> set (dss ! i)" by (metis in_set_dropD list.set_intros(1))
    from rand_op_quiet [OF bytes [OF i this] request(4)] have ope: "quiet_op ope" .
    from inv request(2,3) len obtain r where pc: "ps_pc (l_ps l) i = Done r" unfolding load_inv_def by force
    have "Suc (length (l_answers l ! i)) \<le> turns_of below_half (dss ! i)"
      using turns_of_next [OF ds(2,1)] request(4) by simp
    moreover have "ds = drop (Suc (length (l_answers l ! i))) (dss ! i)"
      using ds(1) by (metis drop_Suc list.sel(3) tl_drop)
    ultimately have "?fine l' k" if "k < ?n" for k
      using c [OF that] request(1,2) by (auto simp: nth_list_update)
    then show ?thesis
      using store_rel_request [OF rel pc, of ope] ope a
      by (intro keep [of "a\<lparr>st_pc := (st_pc a)(i := Asked ope)\<rparr>"]) (simp_all add: request(1) quiet_op_def quiet_def)
  next
    case (refused i d ds ope)
    with r show ?thesis by simp
  next
    case (no_operation i d ds er)
    have i: "i < ?n" using no_operation(2) len by simp
    have ds: "drop (length (l_answers l ! i)) (dss ! i) = d # ds" "length (l_answers l ! i) \<le> turns_of below_half (dss ! i)"
      using c [OF i] no_operation(3) by auto
    have "length (l_answers l ! i) = turns_of below_half (dss ! i)"
      using turns_of_next [OF ds(2,1)] no_operation(4) by simp
    moreover have "length (l_answers l ! i) < length (dss ! i)" using ds(1) by (metis drop_eq_Nil list.distinct(1) not_le)
    ultimately have "end_of below_half (dss ! i) = Some er"
      using rand_op_fails [OF no_operation(4)] by (simp add: end_of_def)
    then have "?fine l' k" if "k < ?n" for k
      using c [OF that] c [OF i] no_operation(1,2) \<open>length (l_answers l ! i) = turns_of below_half (dss ! i)\<close>
      by (auto simp: nth_list_update)
    then show ?thesis using rel a by (intro keep [of a]) (simp_all add: no_operation(1))
  next
    case (serve s)
    from timely_step_refines [OF S K G serve(2) rel] obtain a' where "store_step\<^sup>*\<^sup>* a a'" "store_rel S K s a'" by blast
    with store_steps_quiet [OF _ a] c show ?thesis by (intro keep [of a']) (auto simp: serve(1))
  next
    case (answered i ds v)
    have i: "i < ?n" using answered(2) len by simp
    have "E \<Longrightarrow> v = []" using answer [OF answered(4)] by simp
    then have "?fine l' k" if "k < ?n" for k
      using c [OF that] c [OF i] answered(1-3) len by (auto simp: nth_list_update)
    then show ?thesis using rel a by (intro keep [of a]) (simp_all add: answered(1))
  next
    case (closed i ds er)
    with answer [of i "Inl er"] show ?thesis by simp
  next
    case (ready i)
    have i: "i < ?n" using ready(2) len by simp
    have "drop (length (l_answers l ! i)) (dss ! i) = []" "length (l_answers l ! i) \<le> turns_of below_half (dss ! i)"
      using c [OF i] ready(3) by auto
    then have "length (l_answers l ! i) = turns_of below_half (dss ! i) \<and> turns_of below_half (dss ! i) = length (dss ! i)"
      using turns_of_le [of below_half "dss ! i"] by simp
    then have "?fine l' k" if "k < ?n" for k
      using c [OF that] ready by (auto simp: nth_list_update end_of_def)
    then show ?thesis using rel a by (intro keep [of a]) (simp_all add: ready(1))
  qed
qed

lemma load_steps_fine:
  assumes "sodium_ok S" and "kvs_ok K" and "\<And>F. F \<in> G \<Longrightarrow> fresh_good S F"
  shows "(load_step below_half (timely_step S K G))\<^sup>*\<^sup>* l l' \<Longrightarrow> load_fine S K below_half E dss l \<Longrightarrow>
    load_fine S K below_half E dss l'"
  by (induction rule: rtranclp_induct) (blast intro: load_step_fine [OF assms])+

text \<open>A run in which every create arrives in time is one of the timely steps.\<close>

lemma timely_load_step:
  assumes "load_step below_half (proxy_step S K G) l l'" and "delivered (l_ps l')"
  shows "load_step below_half (timely_step S K G) l l'"
  using assms(1)
proof cases
  case (serve s)
  with assms(2) load_step.serve [of "timely_step S K G" l s below_half] show ?thesis by (simp add: timely_step_def)
next
  case (request i d ds ope)
  then show ?thesis unfolding request(1) by (intro load_step.request [of i l d ds])
next
  case (refused i d ds ope)
  then show ?thesis unfolding refused(1) by (intro load_step.refused [of i l d ds])
next
  case (no_operation i d ds er)
  then show ?thesis unfolding no_operation(1) by (intro load_step.no_operation [of i l d ds])
next
  case (answered i ds v)
  then show ?thesis unfolding answered(1) by (intro load_step.answered)
next
  case (closed i ds er)
  then show ?thesis unfolding closed(1) by (intro load_step.closed [of i l ds])
next
  case (ready i)
  then show ?thesis unfolding ready(1) by (intro load_step.ready)
qed

lemma timely_load_le: "load_step below_half (timely_step S K G) l l' \<Longrightarrow> load_step below_half (proxy_step S K G) l l'"
proof (induction rule: load_step.induct)
  case (serve l s)
  then show ?case by (intro load_step.serve) (simp add: timely_step_def)
qed (auto intro: load_step.intros)

lemma delivered_load_step:
  "load_step below_half (timely_step S K G) l l' \<Longrightarrow> delivered (l_ps l) \<Longrightarrow> delivered (l_ps l')"
  by (erule load_step.cases) (auto simp: delivered_def timely_step_def)

lemma run_of_timely_load:
  "run_of (load_step below_half (proxy_step S K G)) r k \<Longrightarrow> \<forall>j\<le>k. delivered (l_ps (r j)) \<Longrightarrow>
    run_of (load_step below_half (timely_step S K G)) r k"
  by (simp add: run_of_def timely_load_step)

section \<open>Something can always go on\<close>

lemma timely_deliver:
  assumes rel: "store_rel S K s a" and "ps_mail s = e # ys"
  shows "\<exists>s'. timely_step S K G s s'"
proof -
  let ?s = "s\<lparr>ps_mail := ys, ps_sv := kv_create K e (ps_sv s)\<rparr>"
  have "proxy_step S K G s ?s" using proxy_step.deliver [of s "[]" e ys S K G] assms(2) by simp
  moreover have "delivered ?s"
  proof -
    have "op_key ope \<in> in_use s" if "ps_pc s i = Hold ope new" for i ope new
      using that unfolding in_use_def by (metis (mono_tags, lifting) holds.simps(1) mem_Collect_eq)
    moreover have "keyName x \<notin> in_use s" if "x \<in> set ys" for x
      using store_relD(4) [OF rel] assms(2) that by auto
    ultimately show ?thesis by (fastforce simp: delivered_def)
  qed
  ultimately show ?thesis by (auto simp: timely_step_def)
qed

text \<open>With no create on its way, every thread at work has a step that leaves none behind, or sends its create.\<close>

lemma timely_progress:
  assumes rel: "store_rel S K s a" and F: "F \<in> G" and work: "\<forall>r. ps_pc s i \<noteq> Done r"
  shows "\<exists>s'. timely_step S K G s s'"
proof (cases "ps_mail s")
  case (Cons e ys)
  then show ?thesis by (rule timely_deliver [OF rel])
next
  case Nil
  have timely: ?thesis if "proxy_step S K G s s'" "ps_mail s' = []" for s'
    using that by (auto simp: timely_step_def delivered_def)
  show ?thesis
  proof (cases "ps_pc s i")
    case (Begin ope)
    show ?thesis
    proof (cases "op_key ope \<notin> keySet (hlp (ps_px s)) \<and> op_op ope = ''GET''")
      case True
      then show ?thesis using timely [OF proxy_step.missing [OF Begin]] Nil by simp
    next
      case False
      then show ?thesis using timely [OF proxy_step.check_key [OF Begin]] Nil by simp
    qed
  next
    case (Want ope new)
    obtain got st where "exchange (op_key ope) False (hlp (ps_px s)) = (got, st)" by fastforce
    then show ?thesis
      using timely [OF proxy_step.lock [OF Want, of st]] timely [OF proxy_step.locked [OF Want, of st]] Nil by (cases got) simp_all
  next
    case (Hold ope new)
    obtain r st where "build S F ope new (hlp (ps_px s)) = (r, st)" by fastforce
    then show ?thesis
      using timely [OF proxy_step.built [OF Hold F]] timely [OF proxy_step.build_throws [OF Hold F]] Nil by (cases r) simp_all
  next
    case (Sending ope e)
    let ?s = "(goto i (Done (Inr [])) (finish (op_key ope) (ps_px s)) s)\<lparr>ps_mail := ps_mail s @ [e]\<rparr>"
    have key: "keyName e = op_key ope" using store_relD(7) [OF rel, of i] Sending by simp
    have "op_key ope' \<noteq> op_key ope" if "ps_pc s j = Hold ope' new" "j \<noteq> i" for j ope' new
      using store_relD(1) [OF rel] that Sending unfolding exclusive_def by (metis holds.simps(1,2))
    with key have "delivered ?s" by (auto simp: delivered_def Nil)
    with proxy_step.send [OF Sending] show ?thesis by (auto simp: timely_step_def)
  next
    case (Asking ope e)
    obtain r sv where "kv_access S K e (ps_sv s) = (r, sv)" by fastforce
    then show ?thesis
      using timely [OF proxy_step.ask [OF Asking]] timely [OF proxy_step.ask_throws [OF Asking]] Nil by (cases r) simp_all
  next
    case (Answered ope labels)
    obtain r st where "decode S 0 ope labels (hlp (ps_px s)) = (r, st)" by fastforce
    then show ?thesis
      using timely [OF proxy_step.answer [OF Answered]] timely [OF proxy_step.answer_throws [OF Answered]] Nil
      by (cases r) simp_all
  qed (use work in simp)
qed

lemma load_progress:
  assumes fine: "load_fine S K below_half E dss l" and F: "F \<in> G" and i: "i < length dss" "\<forall>e. l_clients l ! i \<noteq> Over e"
  shows "\<exists>l'. load_step below_half (timely_step S K G) l l'"
proof -
  let ?step = "load_step below_half (timely_step S K G)"
  from fine obtain a where inv: "load_inv (length dss) l" and rel: "store_rel S K (l_ps l) a" unfolding load_fine_def by blast
  have len: "i < length (l_clients l)" using i inv by (simp add: load_inv_def)
  show ?thesis
  proof (cases "l_clients l ! i")
    case (Loop ds)
    show ?thesis
    proof (cases ds)
      case Nil
      with Loop load_step.ready [OF len] show ?thesis by blast
    next
      case (Cons d ds')
      with Loop store_relD(2) [OF rel] load_step.request [OF len] load_step.no_operation [OF len] show ?thesis
        by (cases "randGenOperation below_half d") blast+
    qed
  next
    case (Waiting ds)
    show ?thesis
    proof (cases "\<exists>r. ps_pc (l_ps l) i = Done r")
      case True
      then obtain r where "ps_pc (l_ps l) i = Done r" ..
      with Waiting load_step.answered [OF len] load_step.closed [OF len] show ?thesis by (cases r) blast+
    next
      case False
      with timely_progress [OF rel F, of i] load_step.serve show ?thesis by blast
    qed
  qed (use i in simp)
qed

text \<open>A client that is over asks for nothing any more.\<close>

lemma over_stuck:
  assumes inv: "load_inv n l" and over: "\<And>i. i < n \<Longrightarrow> \<exists>e. l_clients l ! i = Over e" and mail: "ps_mail (l_ps l) = []"
  shows "\<not> load_step below_half (proxy_step S K G) l l'"
proof
  assume "load_step below_half (proxy_step S K G) l l'"
  moreover have over': "\<exists>e. l_clients l ! i = Over e" if "i < length (l_clients l)" for i
    using over that inv by (simp add: load_inv_def)
  ultimately show False
  proof cases
    case (serve s)
    have "\<forall>i. \<exists>r. ps_pc (l_ps l) i = Done r" using inv over unfolding load_inv_def by (metis lclient.distinct(5))
    with serve(2) mail show False using idle_proxy_step by blast
  qed (use over' in \<open>metis lclient.distinct(3,5)\<close>)+
qed

lemma load_start_fine:
  assumes "rep S (kv_get K (db sv)) A px" and "running sv" and "E \<Longrightarrow> \<forall>key v. vals A key = Some v \<longrightarrow> v = []"
    and "\<forall>ds \<in> set dss. \<forall>d \<in> set ds. length (r_bytes d) = VALUE_SIZE"
  shows "load_fine S K below_half E dss (load_start px sv dss)"
proof -
  let ?a = "\<lparr>st_vals = vals A, st_busy = - avail A, st_pc = (\<lambda>i. Answer (Inr []))\<rparr>"
  have "holds_value S v (masterKeys (hlp px) key, valueSizes (hlp px) key, kv_get K (db sv) key)"
    if "vals A key = Some v" for key v
    using assms(1) that by (auto simp: rep_def key_rep_def holds_value_def)
  then have "store_rel S K (l_ps (load_start px sv dss)) ?a"
    using assms(1,2)
    by (auto simp: store_rel_def load_start_def exclusive_def in_use_def locked_out_def rep_def key_state_def arrived_def fun_eq_iff)
  moreover have "quiet E ?a" using assms(3) by (simp add: quiet_def)
  moreover have "client_fine below_half (dss ! i) (length (l_answers (load_start px sv dss) ! i)) (l_clients (load_start px sv dss) ! i) \<and>
      (E \<longrightarrow> set (l_answers (load_start px sv dss) ! i) \<subseteq> {[]})" if "i < length dss" for i
    using that by (simp add: load_start_def)
  ultimately show ?thesis using load_start_inv(1) [of dss px sv] assms(4) unfolding load_fine_def by (blast intro: nth_mem)
qed

text \<open>A timely run that cannot go on in time cannot go on at all.\<close>

lemma timely_end_stuck:
  assumes "sodium_ok S" and "kvs_ok K" and "\<And>F. F \<in> G \<Longrightarrow> fresh_good S F" and "F0 \<in> G"
    and run: "run_of (load_step below_half (timely_step S K G)) r k" and "delivered (l_ps (r 0))"
    and stuck: "\<forall>l. \<not> load_step below_half (timely_step S K G) (r k) l"
    and fine: "load_fine S K below_half E dss (r 0)"
  shows "\<forall>j\<le>k. delivered (l_ps (r j))" and "\<forall>l. \<not> load_step below_half (proxy_step S K G) (r k) l"
proof -
  show "\<forall>j\<le>k. delivered (l_ps (r j))"
  proof (intro allI impI)
    fix j assume j: "j \<le> k"
    show "delivered (l_ps (r j))"
      by (rule run_of_inv [where I = "\<lambda>l. delivered (l_ps l)", OF run assms(6) _ j]) (rule delivered_load_step)
  qed
  from load_steps_fine [OF assms(1-3) run_of_steps [OF run] fine] have fine': "load_fine S K below_half E dss (r k)" .
  then obtain a where inv: "load_inv (length dss) (r k)" and rel: "store_rel S K (l_ps (r k)) a" unfolding load_fine_def by blast
  have over: "\<exists>e. l_clients (r k) ! i = Over e" if "i < length dss" for i
    using load_progress [OF fine' assms(4) that] stuck by blast
  have "ps_mail (l_ps (r k)) = []"
  proof (cases "ps_mail (l_ps (r k))")
    case (Cons e ys)
    from timely_deliver [OF rel this] stuck load_step.serve [of "timely_step S K G" "r k" _ below_half] show ?thesis by blast
  qed
  from over_stuck [OF inv over this] show "\<forall>l. \<not> load_step below_half (proxy_step S K G) (r k) l" by blast
qed

end
