(* ===== verification/LabelLoadProperties.thy ===== *)
theory LabelLoadProperties
  imports LabelLoadThreads LabelThreadProperties LabelClientProperties
begin

text \<open>The properties of the load generator together with the threads of the proxy.\<close>

section \<open>All requests are answered\<close>

text \<open>
  C4: the 64 clients of \<open>clients.cpp\<close> with 100 draws of 160 random bytes each, on a proxy whose tables and
  database represent a store and a server that runs.  Take any run of the clients, the threads of the
  proxy and the messages between them, as the sequence of its states.  It has at most 44864 steps.
  Either at some moment a thread holds the lock of a key whose create is still on its way (C29 shows
  what goes wrong then); or no request has failed, all answers are empty if the store held no value at the start, and where
  nothing can go on each client has stopped for one of two reasons: its 100 turns are answered, or
  its next draw is a GET whose random bytes hold no zero, so that their conversion to a string reads beyond
  the array (\<open>clients.cpp:63\<close>).  Every answer has then been counted once, as an access or as aborted.
\<close>

theorem clients_get_answers:
  assumes "sodium_ok S" and "kvs_ok K" and "\<And>F. F \<in> G \<Longrightarrow> fresh_good S F" and "F0 \<in> G"
    and "rep S (kv_get K (db sv)) A px" and "running sv" and "\<And>i j. length (r_bytes (ds i j)) = VALUE_SIZE"
    and "run_of (load_step below_half (proxy_step S K G)) r k" and "r 0 = clients_start px sv ds"
  shows "k \<le> 44864 \<and> ((\<exists>j\<le>k. \<not> delivered (l_ps (r j))) \<or>
    ((\<forall>i < NUM_CLIENTS. \<forall>e. l_clients (r k) ! i = Over e \<longrightarrow> e = end_of below_half (map (ds i) [0..<100])) \<and>
     ((\<forall>key v. vals A key = Some v \<longrightarrow> v = []) \<longrightarrow> (\<forall>i < NUM_CLIENTS. set (l_answers (r k) ! i) \<subseteq> {[]})) \<and>
     ((\<forall>l. \<not> load_step below_half (proxy_step S K G) (r k) l) \<longrightarrow>
       (\<forall>i < NUM_CLIENTS. l_clients (r k) ! i = Over (end_of below_half (map (ds i) [0..<100])) \<and>
         length (l_answers (r k) ! i) = turns_of below_half (map (ds i) [0..<100])) \<and>
       accesses (ps_px (l_ps (r k))) + aborted (ps_px (l_ps (r k))) =
         accesses px + aborted px + of_nat (\<Sum>i < NUM_CLIENTS. turns_of below_half (map (ds i) [0..<100])))))"
proof -
  let ?dss = "map (\<lambda>i. map (ds i) [0..<100]) [0..<NUM_CLIENTS]"
  let ?start = "load_start px sv ?dss" and ?l = "r k"
  let ?E = "\<forall>key v. vals A key = Some v \<longrightarrow> v = []"
  have start: "r 0 = ?start" and n: "length ?dss = NUM_CLIENTS" using assms(9) by (simp_all add: clients_start_def)
  have dss: "?dss ! i = map (ds i) [0..<100]" if "i < NUM_CLIENTS" for i using that by simp
  have inv: "load_inv NUM_CLIENTS ?start \<and> load_counts NUM_CLIENTS (counted px) ?start"
    using load_start_inv [of ?dss px sv] by simp
  have "k \<le> load_rank NUM_CLIENTS ?start"
    using load.bounded [OF run_of_relpow [OF assms(8)] inv [folded start]] start by simp
  also have "\<dots> = 44864"
    using load_start_rank [of ?dss px sv] by (simp add: n comp_def sum_list_triv) (simp add: NUM_CLIENTS_def)
  finally have bound: "k \<le> 44864" .
  show ?thesis
  proof (cases "\<forall>j\<le>k. delivered (l_ps (r j))")
    case True
    have steps: "(load_step below_half (timely_step S K G))\<^sup>*\<^sup>* ?start ?l"
      using run_of_steps [OF run_of_timely_load [OF assms(8) True]] by (simp only: start)
    have "load_fine S K below_half ?E ?dss ?start"
      by (rule load_start_fine [OF assms(5,6)]) (use assms(7) in auto)
    from load_steps_fine [OF assms(1-3) steps this] have fine: "load_fine S K below_half ?E ?dss ?l" .
    have client: "client_fine below_half (map (ds i) [0..<100]) (length (l_answers ?l ! i)) (l_clients ?l ! i) \<and>
        (?E \<longrightarrow> set (l_answers ?l ! i) \<subseteq> {[]})" if "i < NUM_CLIENTS" for i
      using fine that dss [OF that] unfolding load_fine_def n by metis
    have failed: "e = end_of below_half (map (ds i) [0..<100])"
      if "i < NUM_CLIENTS" "l_clients ?l ! i = Over e" for i e
      using client [OF that(1)] that(2) by simp
    have "(\<forall>i < NUM_CLIENTS. l_clients ?l ! i = Over (end_of below_half (map (ds i) [0..<100])) \<and>
         length (l_answers ?l ! i) = turns_of below_half (map (ds i) [0..<100])) \<and>
       accesses (ps_px (l_ps ?l)) + aborted (ps_px (l_ps ?l)) =
         accesses px + aborted px + of_nat (\<Sum>i < NUM_CLIENTS. turns_of below_half (map (ds i) [0..<100]))"
      if stuck: "\<forall>l'. \<not> load_step below_half (proxy_step S K G) ?l l'"
    proof -
      have over: "l_clients ?l ! i = Over (end_of below_half (map (ds i) [0..<100])) \<and>
          length (l_answers ?l ! i) = turns_of below_half (map (ds i) [0..<100])" if i: "i < NUM_CLIENTS" for i
      proof -
        have "i < length ?dss" using i by (simp only: n)
        with load_progress [OF fine assms(4)] stuck timely_load_le [of below_half S K G] obtain e where
          "l_clients ?l ! i = Over e" by blast
        with client [OF i] show ?thesis by simp
      qed
      then have "credit ?l i = turns_of below_half (map (ds i) [0..<100])" if "i < NUM_CLIENTS" for i
        using that by (simp add: credit_def)
      then have "(\<Sum>i < NUM_CLIENTS. credit ?l i) = (\<Sum>i < NUM_CLIENTS. turns_of below_half (map (ds i) [0..<100]))"
        by (intro sum.cong) simp_all
      with timely_load.inv_steps [OF steps inv] over show ?thesis by (simp add: load_counts_def counted_def)
    qed
    with bound client failed show ?thesis by blast
  qed (use bound in blast)
qed

definition toy_draws :: "nat \<Rightarrow> nat \<Rightarrow> draws" where
  "toy_draws i j = \<lparr>r_first = i, r_second = j, r_bytes = replicate 160 0\<rparr>"

lemma toy_draws_turns: "i < n \<Longrightarrow> turns_of f (map (toy_draws i) [0..<100]) = 100" "end_of f (map (toy_draws i) [0..<100]) = None"
proof -
  have "turns_of f (map (toy_draws i) [0..<m]) = m" for m i
  proof -
    have "\<forall>d \<in> set (map (toy_draws i) [0..<m]). \<not> isl (randGenOperation f d)"
      by (simp add: toy_draws_def randGenOperation_def string_of_array_def Let_def)
    then have "takeWhile (\<lambda>d. \<not> isl (randGenOperation f d)) (map (toy_draws i) [0..<m]) = map (toy_draws i) [0..<m]"
      by (simp only: takeWhile_eq_all_conv)
    then show ?thesis by (simp only: turns_of_def length_map length_upt diff_zero)
  qed
  then show "i < n \<Longrightarrow> turns_of f (map (toy_draws i) [0..<100]) = 100" "end_of f (map (toy_draws i) [0..<100]) = None"
    by (simp_all add: end_of_def)
qed

theorem clients_get_answers_witness:
  "\<exists>l. (load_step even (proxy_step toy_sodium toy_kvs {toy_fresh 9}))\<^sup>*\<^sup>*
      (clients_start (fst (start_of toy_server)) toy_server toy_draws) l \<and>
    (\<forall>i < 64. l_clients l ! i = Over None \<and> length (l_answers l ! i) = 100 \<and> set (l_answers l ! i) \<subseteq> {[]})"
proof -
  let ?step = "load_step even (timely_step toy_sodium toy_kvs {toy_fresh 9})"
  let ?px = "fst (start_of toy_server)" and ?dss = "map (\<lambda>i. map (toy_draws i) [0..<100]) [0..<NUM_CLIENTS]"
  let ?start = "clients_start ?px toy_server toy_draws"
  have start: "?start = load_start ?px toy_server ?dss" and n: "length ?dss = NUM_CLIENTS" by (simp_all add: clients_start_def)
  have rep: "rep toy_sodium (kv_get toy_kvs (db toy_server)) spec0 ?px"
    unfolding start_of_def fst_conv by (rule rep_start)
  have bytes: "length (r_bytes (toy_draws i j)) = VALUE_SIZE" for i j by (simp add: toy_draws_def layout)
  have good: "\<And>F. F \<in> {toy_fresh 9} \<Longrightarrow> fresh_good toy_sodium F" by (simp add: toy_fresh_good)
  have "load_inv NUM_CLIENTS ?start \<and> load_counts NUM_CLIENTS (counted ?px) ?start"
    using load_start_inv [of ?dss ?px toy_server] by (simp add: start)
  from timely_load.run_to_end [OF this] obtain k l where run: "(?step ^^ k) ?start l" "\<forall>l'. \<not> ?step l l'" by blast
  from relpow_run_of [OF run(1)] obtain r where r: "run_of ?step r k" "r 0 = ?start" "r k = l" by blast
  have full: "run_of (load_step even (proxy_step toy_sodium toy_kvs {toy_fresh 9})) r k"
    by (rule run_of_mono [OF r(1)]) (rule timely_load_le)
  have "load_fine toy_sodium toy_kvs even True ?dss ?start"
    unfolding start by (rule load_start_fine [OF rep toy_running_server]) (use bytes in \<open>auto simp: spec0_def\<close>)
  from timely_end_stuck [OF toy_sodium_ok toy_kvs_ok good singletonI r(1) _ _ this [folded r(2)]] r run(2)
  have ends: "\<forall>j\<le>k. delivered (l_ps (r j))" "\<forall>l'. \<not> load_step even (proxy_step toy_sodium toy_kvs {toy_fresh 9}) l l'"
    by (simp_all add: start load_start_def delivered_def)
  note all = clients_get_answers [OF toy_sodium_ok toy_kvs_ok good singletonI rep toy_running_server bytes full r(2)]
  from all ends have "(\<forall>i < 64. l_clients l ! i = Over None \<and> length (l_answers l ! i) = 100 \<and> set (l_answers l ! i) \<subseteq> {[]})"
    unfolding r(3) by (simp add: toy_draws_turns spec0_def NUM_CLIENTS_def) blast
  moreover have "(load_step even (proxy_step toy_sodium toy_kvs {toy_fresh 9}))\<^sup>*\<^sup>* ?start l"
    using run_of_steps [OF full] r(2,3) by simp
  ultimately show ?thesis by blast
qed

end
