(* ===== verification/LabelBench.thy ===== *)
theory LabelBench
  imports LabelLoadThreads
begin

text \<open>
  \<open>concurrent_benchmark.cpp\<close> as a program: its clients are threads of one process that call \<open>handleOp\<close>
  themselves, on the tables of the helper, each over its own connection to the server; \<open>main\<close> waits for
  all of them, computes averages and saves the tables.
\<close>

section \<open>State and steps\<close>

text \<open>
  A client opens its connection, is at the head of its loop, in \<open>handleOp\<close>, or behind the loop.
  \<open>handleOp\<close> is the one of the proxy (\<open>cb_handleOp_eq\<close>), so that its steps are \<open>proxy_step\<close>'s.  \<open>c_rets\<close> are
  the values the turns of a client read, \<open>client_stats\<close> the numbers of its latencies.
  Once the server has gone \<open>proxy_step\<close> lets an operation fail before it has touched anything, too, which a client
  with an open connection does not do: the model has more runs than the program.
\<close>

datatype cclient = Starting "draws list" | Turning "draws list" | Handling "draws list" | Ended "error option"

record 'd csys =
  c_ps :: "'d psys"
  c_clients :: "cclient list"
  c_rets :: "bytes list list"
  client_stats :: "nat list"

definition cturn :: "nat \<Rightarrow> cclient \<Rightarrow> 'd csys \<Rightarrow> 'd csys" where
  "cturn i x c = c\<lparr>c_clients := (c_clients c)[i := x]\<rparr>"

text \<open>A latency is recorded by a GET or PUT of a known key that has come to its end.\<close>

fun latency :: "pc \<Rightarrow> pc \<Rightarrow> nat" where
  "latency (Answered ope labels) (Done (Inr v)) = 1"
| "latency _ _ = 0"

inductive cb_step :: "(nat \<Rightarrow> bool) \<Rightarrow> ('d psys \<Rightarrow> 'd psys \<Rightarrow> bool) \<Rightarrow> 'd csys \<Rightarrow> 'd csys \<Rightarrow> bool"
  for below_half step where
  connect: "i < length (c_clients c) \<Longrightarrow> c_clients c ! i = Starting ds \<Longrightarrow> running (ps_sv (c_ps c)) \<Longrightarrow>
    cb_step below_half step c (cturn i (Turning ds) c)"
| no_connection: "i < length (c_clients c) \<Longrightarrow> c_clients c ! i = Starting ds \<Longrightarrow> \<not> running (ps_sv (c_ps c)) \<Longrightarrow>
    cb_step below_half step c (cturn i (Ended (Some TransportError)) c)"
| begin_op: "i < length (c_clients c) \<Longrightarrow> c_clients c ! i = Turning (d # ds) \<Longrightarrow>
    randGenOperation below_half d = Inr ope \<Longrightarrow>
    cb_step below_half step c (cturn i (Handling ds) (c\<lparr>c_ps := goto i (Begin ope) (ps_px (c_ps c)) (c_ps c)\<rparr>))"
| no_operation: "i < length (c_clients c) \<Longrightarrow> c_clients c ! i = Turning (d # ds) \<Longrightarrow>
    randGenOperation below_half d = Inl er \<Longrightarrow> cb_step below_half step c (cturn i (Ended (Some er)) c)"
| handle: "step (c_ps c) s \<Longrightarrow>
    cb_step below_half step c (c\<lparr>c_ps := s, client_stats := map (\<lambda>i. client_stats c ! i +
      latency (ps_pc (c_ps c) i) (ps_pc s i)) [0..<length (client_stats c)]\<rparr>)"
| handled: "i < length (c_clients c) \<Longrightarrow> c_clients c ! i = Handling ds \<Longrightarrow> ps_pc (c_ps c) i = Done (Inr v) \<Longrightarrow>
    cb_step below_half step c (cturn i (Turning ds) (c\<lparr>c_rets := (c_rets c)[i := c_rets c ! i @ [v]]\<rparr>))"
| throws: "i < length (c_clients c) \<Longrightarrow> c_clients c ! i = Handling ds \<Longrightarrow> ps_pc (c_ps c) i = Done (Inl er) \<Longrightarrow>
    cb_step below_half step c (cturn i (Ended (Some er)) c)"
| all_turns: "i < length (c_clients c) \<Longrightarrow> c_clients c ! i = Turning [] \<Longrightarrow>
    cb_step below_half step c (cturn i (Ended None) c)"

text \<open>\<open>main\<close> up to the start of the threads.\<close>

definition cb_begin :: "proxy \<Rightarrow> 'd server \<Rightarrow> draws list list \<Rightarrow> 'd csys" where
  "cb_begin px sv dss = \<lparr>c_ps = \<lparr>ps_px = px, ps_sv = sv, ps_mail = [], ps_pc = (\<lambda>i. Done (Inr []))\<rparr>,
     c_clients = map Starting dss, c_rets = map (\<lambda>ds. []) dss, client_stats = map (\<lambda>ds. 0) dss\<rparr>"

definition cb_start :: "('f \<Rightarrow> saved) \<Rightarrow> 'f option \<Rightarrow> 'd server \<Rightarrow> (nat \<Rightarrow> nat \<Rightarrow> draws) \<Rightarrow> 'd csys" where
  "cb_start load file sv ds =
    cb_begin (proxy_start load file) sv (map (\<lambda>i. map (ds i) [0..<100]) [0..<NUM_CLIENTS])"

text \<open>
  \<open>main\<close> after the last \<open>join\<close>: \<open>avg_encrypt / total_ops\<close> divides integers, which is undefined for 0 (and
  stops the process); then the tables are saved.
\<close>

definition total_ops :: "'d csys \<Rightarrow> nat" where
  "total_ops c = sum_list (client_stats c)"

definition cb_finish :: "(saved \<Rightarrow> 'f) \<Rightarrow> 'f option \<Rightarrow> 'd csys \<Rightarrow> error option \<times> 'f option" where
  "cb_finish save file c =
    (if total_ops c = 0 then (Some Undefined, file)
     else (None, Some (OpScureCleanup save (hlp (ps_px (c_ps c))))))"

lemma cturn_simps [simp]:
  "c_ps (cturn i x c) = c_ps c" "c_clients (cturn i x c) = (c_clients c)[i := x]" "c_rets (cturn i x c) = c_rets c"
  "client_stats (cturn i x c) = client_stats c"
  by (simp_all add: cturn_def)

section \<open>The clients of clients.cpp\<close>

text \<open>Seen from the tables, the clients do what those of \<open>clients.cpp\<close> do through the proxy.\<close>

fun lclient_of :: "cclient \<Rightarrow> lclient" where
  "lclient_of (Starting ds) = Loop ds"
| "lclient_of (Turning ds) = Loop ds"
| "lclient_of (Handling ds) = Waiting ds"
| "lclient_of (Ended e) = Over e"

definition load_of :: "'d csys \<Rightarrow> 'd lsys" where
  "load_of c = \<lparr>l_ps = c_ps c, l_clients = map lclient_of (c_clients c), l_answers = c_rets c\<rparr>"

definition starting :: "'d csys \<Rightarrow> nat set" where
  "starting c = {i. i < length (c_clients c) \<and> (\<exists>ds. c_clients c ! i = Starting ds)}"

lemma load_of_simps [simp]:
  "l_ps (load_of c) = c_ps c" "l_clients (load_of c) = map lclient_of (c_clients c)" "l_answers (load_of c) = c_rets c"
  by (simp_all add: load_of_def)

lemma load_of_turn:
  "load_of (cturn i x c) = turn i (lclient_of x) (load_of c)"
  by (simp add: load_of_def cturn_def turn_def map_update)

lemma load_of_cong: "c_ps c' = c_ps c \<Longrightarrow> c_clients c' = c_clients c \<Longrightarrow> c_rets c' = c_rets c \<Longrightarrow> load_of c' = load_of c"
  by (simp add: load_of_def)

lemma load_of_begin: "load_of (cb_begin px sv dss) = load_start px sv dss"
  by (simp add: load_of_def cb_begin_def load_start_def)

lemma starting_begin: "starting (cb_begin px sv dss) = {..<length dss}"
  by (auto simp: starting_def cb_begin_def)

lemma starting_turn:
  "i < length (c_clients c) \<Longrightarrow> starting (cturn i x c) =
    (if \<exists>ds. x = Starting ds then insert i (starting c) else starting c - {i})"
  by (auto simp: starting_def nth_list_update)

lemma starting_cong: "c_clients c' = c_clients c \<Longrightarrow> starting c' = starting c"
  by (simp add: starting_def)

lemma finite_starting [simp]: "finite (starting c)"
  by (simp add: starting_def)

text \<open>While nothing has failed a step is one of the load generator or opens a connection.\<close>

lemma cb_step_load:
  assumes S: "sodium_ok S" and K: "kvs_ok K" and G: "\<And>F. F \<in> G \<Longrightarrow> fresh_good S F"
    and step: "cb_step below_half (timely_step S K G) c c'" and fine: "load_fine S K below_half E dss (load_of c)"
  shows "load_step below_half (timely_step S K G) (load_of c) (load_of c') \<and> starting c' = starting c \<or>
    load_of c' = load_of c \<and> card (starting c') < card (starting c)"
proof -
  let ?step = "load_step below_half (timely_step S K G)"
  have sv: "running (ps_sv (c_ps c))" using fine store_relD(2) unfolding load_fine_def by fastforce
  have not_failed: False
    if "?step (load_of c) (turn i (Over (Some er)) (load_of c))" "i < length (c_clients c)" "er \<noteq> Undefined" for i er
  proof -
    from load_step_fine [OF S K G that(1) fine] have fine': "load_fine S K below_half E dss (turn i (Over (Some er)) (load_of c))" .
    have i: "i < length dss" using fine that(2) by (simp add: load_fine_def load_inv_def)
    with fine' have "client_fine below_half (dss ! i) (length (c_rets c ! i)) ((map lclient_of (c_clients c))[i := Over (Some er)] ! i)"
      by (simp add: load_fine_def)
    with that(2,3) show False by (simp add: end_of_def split: if_splits)
  qed
  have same: "starting (cturn i x c) = starting c"
    if "i < length (c_clients c)" "\<And>ds. c_clients c ! i \<noteq> Starting ds" "\<And>ds. x \<noteq> Starting ds" for i x
    using that by (auto simp: starting_turn) (auto simp: starting_def)
  from step show ?thesis
  proof cases
    case (connect i ds)
    then have "i \<in> starting c" by (simp add: starting_def)
    moreover have "starting c' = starting c - {i}" using connect by (simp add: starting_turn)
    ultimately have "card (starting c') < card (starting c)" by (metis card_Diff1_less finite_starting)
    moreover have "load_of c' = load_of c"
      using connect by (simp add: load_of_def cturn_def map_update list_update_same_conv)
    ultimately show ?thesis by simp
  next
    case (no_connection i ds)
    with sv show ?thesis by simp
  next
    case (begin_op i d ds ope)
    let ?c = "c\<lparr>c_ps := goto i (Begin ope) (ps_px (c_ps c)) (c_ps c)\<rparr>"
    have c: "load_of ?c = (load_of c)\<lparr>l_ps := goto i (Begin ope) (ps_px (c_ps c)) (c_ps c)\<rparr>" by (simp add: load_of_def)
    have "?step (load_of c) (load_of c')"
      using load_step.request [of i "load_of c" d ds below_half ope "timely_step S K G"] begin_op sv by (simp add: load_of_turn c)
    moreover have "starting c' = starting c"
      using begin_op same [of i "Handling ds"] starting_cong [of "cturn i (Handling ds) ?c" "cturn i (Handling ds) c"] by simp
    ultimately show ?thesis by simp
  next
    case (no_operation i d ds er)
    then have "?step (load_of c) (load_of c')"
      using load_step.no_operation [of i "load_of c" d ds below_half er "timely_step S K G"] by (simp add: load_of_turn)
    with no_operation same [of i "Ended (Some er)"] show ?thesis by simp
  next
    case (handle s)
    have "load_of c' = (load_of c)\<lparr>l_ps := s\<rparr>" by (simp add: handle(1) load_of_def)
    moreover have "starting c' = starting c" by (simp add: handle(1) starting_def)
    ultimately show ?thesis using load_step.serve [of "timely_step S K G" "load_of c" s below_half] handle(2) by simp
  next
    case (handled i ds v)
    let ?c = "c\<lparr>c_rets := (c_rets c)[i := c_rets c ! i @ [v]]\<rparr>"
    have c: "load_of ?c = (load_of c)\<lparr>l_answers := (l_answers (load_of c))[i := l_answers (load_of c) ! i @ [v]]\<rparr>"
      by (simp add: load_of_def)
    have "?step (load_of c) (load_of c')"
      using load_step.answered [of i "load_of c" ds v below_half "timely_step S K G"] handled by (simp add: load_of_turn c)
    moreover have "starting c' = starting c"
      using handled same [of i "Turning ds"] starting_cong [of "cturn i (Turning ds) ?c" "cturn i (Turning ds) c"] by simp
    ultimately show ?thesis by simp
  next
    case (throws i ds er)
    then have "?step (load_of c) (turn i (Over (Some TransportError)) (load_of c))"
      by (intro load_step.closed [of i _ ds er]) simp_all
    with not_failed [of i TransportError] throws show ?thesis by blast
  next
    case (all_turns i)
    then have "?step (load_of c) (load_of c')"
      using load_step.ready [of i "load_of c" below_half "timely_step S K G"] by (simp add: load_of_turn)
    with all_turns same [of i "Ended None"] show ?thesis by simp
  qed
qed

section \<open>A run ends\<close>

text \<open>The latencies of a client are among the operations it has done.\<close>

definition cb_inv :: "sodium \<Rightarrow> 'd kvs \<Rightarrow> (nat \<Rightarrow> bool) \<Rightarrow> bool \<Rightarrow> draws list list \<Rightarrow> 32 word \<Rightarrow> 'd csys \<Rightarrow> bool" where
  "cb_inv S K below_half E dss w c \<longleftrightarrow> load_fine S K below_half E dss (load_of c) \<and> load_counts (length dss) w (load_of c) \<and>
    length (client_stats c) = length dss \<and> (\<forall>i < length dss. client_stats c ! i \<le> credit (load_of c) i)"

definition cb_rank :: "nat \<Rightarrow> 'd csys \<Rightarrow> nat" where
  "cb_rank n c = load_rank n (load_of c) + card (starting c)"

lemma latency_answers: "latency p q \<le> answers_with q"
  by (cases "(p, q)" rule: latency.cases) simp_all

lemma latency_same [simp]: "latency p p = 0"
  by (cases p) simp_all

lemma cb_step_stats:
  assumes "cb_step below_half step c c'" and sub: "step \<le> proxy_step S K G" and inv: "load_inv n (load_of c)"
    and len: "length (client_stats c) = n" and stats: "\<forall>i < n. client_stats c ! i \<le> credit (load_of c) i"
  shows "length (client_stats c') = n \<and> (\<forall>i < n. client_stats c' ! i \<le> credit (load_of c') i)"
proof -
  note D = inv [unfolded load_inv_def]
  have moved: "\<forall>k < n. client_stats c' ! k \<le> credit (load_of c') k"
    if "client_stats c' = client_stats c" "\<And>k. k < n \<Longrightarrow> credit (load_of c) k \<le> credit (load_of c') k"
    using that stats by (metis le_trans)
  from assms(1) show ?thesis
  proof cases
    case (connect i ds)
    then show ?thesis using len D by (intro conjI moved) (auto simp: credit_def nth_list_update)
  next
    case (no_connection i ds)
    then show ?thesis using len D by (intro conjI moved) (auto simp: credit_def nth_list_update)
  next
    case (begin_op i d ds ope)
    then show ?thesis using len D by (intro conjI moved) (auto simp: credit_def nth_list_update)
  next
    case (no_operation i d ds er)
    then show ?thesis using len D by (intro conjI moved) (auto simp: credit_def nth_list_update)
  next
    case (handle s)
    have "client_stats c' ! k \<le> credit (load_of c') k" if k: "k < n" for k
    proof -
      have new: "client_stats c' ! k = client_stats c ! k + latency (ps_pc (c_ps c) k) (ps_pc s k)"
        using k len by (simp add: handle(1))
      have cr: "credit (load_of c') k = length (c_rets c ! k) + pending (map lclient_of (c_clients c) ! k) (ps_pc s k)"
        by (simp add: handle(1) credit_def)
      from predicate2D [OF sub handle(2)] show ?thesis
      proof (cases rule: proxy_step_thread)
        case arrives
        then show ?thesis using stats k unfolding new cr by (simp add: credit_def)
      next
        case (thread i p)
        from D thread(3) obtain ds where i: "i < n" "lclient_of (c_clients c ! i) = Waiting ds" by fastforce
        have "answers_with (ps_pc (c_ps c) i) = 0" using thread(3) by (cases "ps_pc (c_ps c) i") auto
        then show ?thesis
          using stats k i D latency_answers [of "ps_pc (c_ps c) i" p]
          unfolding new cr thread(1) by (cases "k = i") (auto simp: credit_def)
      qed
    qed
    then show ?thesis using len by (simp add: handle(1))
  next
    case (handled i ds v)
    then show ?thesis using len D by (intro conjI moved) (auto simp: credit_def nth_list_update)
  next
    case (throws i ds er)
    then show ?thesis using len D by (intro conjI moved) (auto simp: credit_def nth_list_update)
  next
    case (all_turns i)
    then show ?thesis using len D by (intro conjI moved) (auto simp: credit_def nth_list_update)
  qed
qed

lemma cb_ranked:
  assumes S: "sodium_ok S" and K: "kvs_ok K" and G: "\<And>F. F \<in> G \<Longrightarrow> fresh_good S F"
  shows "ranked_steps (cb_step below_half (timely_step S K G)) (cb_inv S K below_half E dss w) (cb_rank (length dss))"
proof
  fix c c'
  assume step: "cb_step below_half (timely_step S K G) c c'" and "cb_inv S K below_half E dss w c"
  then have inv: "load_fine S K below_half E dss (load_of c)" "load_counts (length dss) w (load_of c)" "length (client_stats c) = length dss"
    "\<forall>i < length dss. client_stats c ! i \<le> credit (load_of c) i" by (simp_all add: cb_inv_def)
  then have load: "load_inv (length dss) (load_of c)" by (simp add: load_fine_def)
  note stats = cb_step_stats [OF step timely_le load inv(3,4)]
  have "load_step below_half (timely_step S K G) (load_of c) (load_of c') \<and> starting c' = starting c \<or>
      load_of c' = load_of c \<and> card (starting c') < card (starting c)"
    by (rule cb_step_load [OF S K G step inv(1)])
  then have "cb_inv S K below_half E dss w c' \<and> cb_rank (length dss) c' < cb_rank (length dss) c"
  proof (elim disjE conjE)
    assume one: "load_step below_half (timely_step S K G) (load_of c) (load_of c')" "starting c' = starting c"
    from load_step_fine [OF S K G one(1) inv(1)] load_step_counts [OF one(1) timely_le load inv(2)]
      load_step_rank [OF one(1) timely_le load] stats one(2)
    show ?thesis by (simp add: cb_inv_def cb_rank_def)
  next
    assume "load_of c' = load_of c" "card (starting c') < card (starting c)"
    with inv stats show ?thesis by (simp add: cb_inv_def cb_rank_def)
  qed
  then show "cb_inv S K below_half E dss w c'" "cb_rank (length dss) c' < cb_rank (length dss) c" by simp_all
qed

text \<open>As long as a client has not ended or a create is on its way, something goes on.\<close>

lemma cb_progress:
  assumes fine: "load_fine S K below_half E dss (load_of c)" and F: "F \<in> G"
    and left: "ps_mail (c_ps c) \<noteq> [] \<or> i < length dss \<and> (\<forall>e. c_clients c ! i \<noteq> Ended e)"
  shows "\<exists>c'. cb_step below_half (timely_step S K G) c c'"
proof -
  from fine obtain a where inv: "load_inv (length dss) (load_of c)" and rel: "store_rel S K (c_ps c) a" unfolding load_fine_def by auto
  note sv = store_relD(2) [OF rel]
  show ?thesis
  proof (cases "ps_mail (c_ps c)")
    case (Cons e ys)
    from timely_deliver [OF rel this] cb_step.handle show ?thesis by blast
  next
    case Nil
    with left inv have i: "i < length (c_clients c)" "\<forall>e. c_clients c ! i \<noteq> Ended e" by (simp_all add: load_inv_def)
    show ?thesis
    proof (cases "c_clients c ! i")
      case (Starting ds)
      with cb_step.connect [OF i(1) this sv] show ?thesis by blast
    next
      case (Turning ds)
      show ?thesis
      proof (cases ds)
        case Nil
        with Turning cb_step.all_turns [OF i(1)] show ?thesis by blast
      next
        case (Cons d ds')
        with Turning cb_step.begin_op [OF i(1)] cb_step.no_operation [OF i(1)] show ?thesis
          by (cases "randGenOperation below_half d") blast+
      qed
    next
      case (Handling ds)
      show ?thesis
      proof (cases "\<exists>r. ps_pc (c_ps c) i = Done r")
        case True
        then obtain r where "ps_pc (c_ps c) i = Done r" ..
        with Handling cb_step.handled [OF i(1)] cb_step.throws [OF i(1)] show ?thesis by (cases r) blast+
      next
        case False
        with timely_progress [OF rel F, of i] cb_step.handle show ?thesis by blast
      qed
    qed (use i in simp)
  qed
qed

text \<open>A run in which every create arrives in time is one of the timely steps.\<close>

lemma timely_cb_step:
  assumes "cb_step below_half (proxy_step S K G) c c'" and "delivered (c_ps c')"
  shows "cb_step below_half (timely_step S K G) c c'"
  using assms(1)
proof cases
  case (handle s)
  with assms(2) cb_step.handle [of "timely_step S K G" c s below_half] show ?thesis by (simp add: timely_step_def)
next
  case (connect i ds)
  then show ?thesis unfolding connect(1) by (intro cb_step.connect)
next
  case (no_connection i ds)
  then show ?thesis unfolding no_connection(1) by (intro cb_step.no_connection [of i c ds])
next
  case (begin_op i d ds ope)
  then show ?thesis unfolding begin_op(1) by (intro cb_step.begin_op [of i c d ds])
next
  case (no_operation i d ds er)
  then show ?thesis unfolding no_operation(1) by (intro cb_step.no_operation [of i c d ds])
next
  case (handled i ds v)
  then show ?thesis unfolding handled(1) by (intro cb_step.handled)
next
  case (throws i ds er)
  then show ?thesis unfolding throws(1) by (intro cb_step.throws [of i c ds])
next
  case (all_turns i)
  then show ?thesis unfolding all_turns(1) by (intro cb_step.all_turns)
qed

lemma timely_cb_le: "cb_step below_half (timely_step S K G) c c' \<Longrightarrow> cb_step below_half (proxy_step S K G) c c'"
proof (induction rule: cb_step.induct)
  case (handle c s)
  then show ?case by (intro cb_step.handle) (simp add: timely_step_def)
qed (auto intro: cb_step.intros)

lemma delivered_cb_step:
  "cb_step below_half (timely_step S K G) c c' \<Longrightarrow> delivered (c_ps c) \<Longrightarrow> delivered (c_ps c')"
  by (erule cb_step.cases) (auto simp: delivered_def timely_step_def)

lemma run_of_timely_cb:
  "run_of (cb_step below_half (proxy_step S K G)) r k \<Longrightarrow> \<forall>j\<le>k. delivered (c_ps (r j)) \<Longrightarrow>
    run_of (cb_step below_half (timely_step S K G)) r k"
  by (simp add: run_of_def timely_cb_step)

section \<open>What is saved\<close>

lemma keySet_build: "build S F ope new st = (r, st') \<Longrightarrow> keySet st \<subseteq> keySet st'"
  by (auto simp: build_def constructCreateEntry_def constructGetEntry_def constructPutEntry_def insert_key_def
      set_value_size_def Let_def split: if_splits sum.splits prod.splits)

lemma keySet_decode: "decode S x ope labels st = (r, st') \<Longrightarrow> keySet st' = keySet st"
  by (auto simp: decode_def readValueFromLabels_def split: if_splits)

lemma keySet_exchange: "exchange key b st = (r, st') \<Longrightarrow> keySet st' = keySet st"
  by (auto simp: exchange_def)

lemma keySet_counts [simp]:
  "keySet (hlp (count_abort px)) = keySet (hlp px)" "keySet (hlp (finish k px)) = keySet (hlp px)"
  by (simp_all add: count_abort_def finish_def exchange_def)

lemma proxy_step_keys: "proxy_step S K G s s' \<Longrightarrow> keySet (hlp (ps_px s)) \<subseteq> keySet (hlp (ps_px s'))"
  by (erule proxy_stepE) (auto dest: keySet_build keySet_decode keySet_exchange)

lemma cb_steps_keys:
  "(cb_step below_half (timely_step S K G))\<^sup>*\<^sup>* c c' \<Longrightarrow>
    keySet (hlp (ps_px (c_ps c))) \<subseteq> keySet (hlp (ps_px (c_ps c')))"
proof (induction rule: rtranclp_induct)
  case (step y z)
  from step(2) have "keySet (hlp (ps_px (c_ps y))) \<subseteq> keySet (hlp (ps_px (c_ps z)))"
  proof cases
    case (handle s)
    then show ?thesis using proxy_step_keys [of S K G "c_ps y" s] by (simp add: timely_step_def)
  qed simp_all
  with step(3) show ?case by simp
qed simp

text \<open>When nobody is at work and no create on its way, the tables are those of a store.\<close>

lemma store_rel_idle:
  assumes "store_rel S K s a" and "\<And>i. \<exists>r. ps_pc s i = Done r" and "ps_mail s = []"
  shows "rep S (kv_get K (db (ps_sv s))) \<lparr>vals = st_vals a, avail = - st_busy a, n_done = accesses (ps_px s),
    n_aborted = aborted (ps_px s)\<rparr> (ps_px s)"
proof -
  have "holds (ps_pc s i) = None" for i using assms(2) [of i] by auto
  then have "in_use s = {}" by (simp add: in_use_def)
  then show ?thesis
    using assms(1,3) by (auto simp: store_rel_def rep_def key_rep_def holds_value_def key_state_def arrived_def locked_out_def)
qed

text \<open>Where nothing can go on, every client has done what it can, and the tables are those of a store.\<close>

lemma cb_end:
  assumes inv: "cb_inv S K below_half E dss w c" and F: "F \<in> G"
    and stuck: "\<forall>c'. \<not> cb_step below_half (timely_step S K G) c c'"
  defines "n \<equiv> \<Sum>i < length dss. turns_of below_half (dss ! i)"
  shows "\<forall>i < length dss. c_clients c ! i = Ended (end_of below_half (dss ! i))"
    and "counted (ps_px (c_ps c)) = w + of_nat n" and "total_ops c \<le> n" and "ps_mail (c_ps c) = []"
    and "\<exists>V free. rep S (kv_get K (db (ps_sv (c_ps c)))) \<lparr>vals = V, avail = free, n_done = accesses (ps_px (c_ps c)),
      n_aborted = aborted (ps_px (c_ps c))\<rparr> (ps_px (c_ps c))"
proof -
  let ?n = "length dss"
  from inv have fine: "load_fine S K below_half E dss (load_of c)" by (simp add: cb_inv_def)
  then obtain a where rel: "store_rel S K (c_ps c) a" and load: "load_inv ?n (load_of c)" unfolding load_fine_def by auto
  have len: "length (c_clients c) = ?n" using load by (simp add: load_inv_def)
  show mail: "ps_mail (c_ps c) = []" using cb_progress [OF fine F] stuck by blast
  have over: "c_clients c ! i = Ended (end_of below_half (dss ! i)) \<and> length (c_rets c ! i) = turns_of below_half (dss ! i)"
    if i: "i < ?n" for i
  proof -
    from cb_progress [OF fine F, where i = i] stuck i obtain e where e: "c_clients c ! i = Ended e" by blast
    have "client_fine below_half (dss ! i) (length (c_rets c ! i)) (map lclient_of (c_clients c) ! i)"
      using fine i by (simp add: load_fine_def)
    with e i len show ?thesis by simp
  qed
  then show "\<forall>i < ?n. c_clients c ! i = Ended (end_of below_half (dss ! i))" by blast
  have credit: "credit (load_of c) i = turns_of below_half (dss ! i)" if "i < ?n" for i
    using over [OF that] that len by (simp add: credit_def)
  then have "(\<Sum>i < ?n. credit (load_of c) i) = n" unfolding n_def by (intro sum.cong) simp_all
  with inv show "counted (ps_px (c_ps c)) = w + of_nat n" unfolding cb_inv_def load_counts_def by simp
  have "total_ops c = (\<Sum>i < ?n. client_stats c ! i)"
    using inv by (simp add: cb_inv_def total_ops_def sum_list_sum_nth atLeast0LessThan)
  also have "\<dots> \<le> n" using inv credit unfolding cb_inv_def n_def by (intro sum_mono) fastforce
  finally show "total_ops c \<le> n" .
  have "\<exists>r. ps_pc (c_ps c) i = Done r" for i
    using load over len unfolding load_inv_def by (cases "i < ?n") fastforce+
  from store_rel_idle [OF rel this mail] show "\<exists>V free. rep S (kv_get K (db (ps_sv (c_ps c)))) \<lparr>vals = V, avail = free,
      n_done = accesses (ps_px (c_ps c)), n_aborted = aborted (ps_px (c_ps c))\<rparr> (ps_px (c_ps c))" by blast
qed

text \<open>A timely run that cannot go on in time cannot go on at all.\<close>

lemma ended_stuck:
  assumes inv: "load_inv n (load_of c)" and over: "\<And>i. i < n \<Longrightarrow> \<exists>e. c_clients c ! i = Ended e" and mail: "ps_mail (c_ps c) = []"
  shows "\<not> cb_step below_half (proxy_step S K G) c c'"
proof
  have len: "length (c_clients c) = n" using inv by (simp add: load_inv_def)
  assume "cb_step below_half (proxy_step S K G) c c'"
  moreover have over': "\<exists>e. c_clients c ! i = Ended e" if "i < length (c_clients c)" for i
    using over that len by simp
  ultimately show False
  proof cases
    case (handle s)
    have "\<exists>r. ps_pc (c_ps c) i = Done r" for i
      using inv over len unfolding load_inv_def by (cases "i < n") fastforce+
    with handle(2) mail show False using idle_proxy_step by blast
  qed (use over' in \<open>metis cclient.distinct(5,9,11)\<close>)+
qed

lemma timely_cb_stuck:
  assumes S: "sodium_ok S" and K: "kvs_ok K" and G: "\<And>F. F \<in> G \<Longrightarrow> fresh_good S F" and F: "F0 \<in> G"
    and run: "run_of (cb_step below_half (timely_step S K G)) r k" and "delivered (c_ps (r 0))"
    and stuck: "\<forall>c. \<not> cb_step below_half (timely_step S K G) (r k) c"
    and inv: "cb_inv S K below_half E dss w (r 0)"
  shows "\<forall>j\<le>k. delivered (c_ps (r j))" and "\<forall>c. \<not> cb_step below_half (proxy_step S K G) (r k) c"
proof -
  show "\<forall>j\<le>k. delivered (c_ps (r j))"
  proof (intro allI impI)
    fix j assume j: "j \<le> k"
    show "delivered (c_ps (r j))"
      by (rule run_of_inv [where I = "\<lambda>c. delivered (c_ps c)", OF run assms(6) _ j]) (rule delivered_cb_step)
  qed
  from ranked_steps.inv_steps [OF cb_ranked [OF S K G] run_of_steps [OF run] inv] have inv': "cb_inv S K below_half E dss w (r k)" .
  note ended = cb_end [OF inv' F stuck]
  have "load_inv (length dss) (load_of (r k))" using inv' by (simp add: cb_inv_def load_fine_def)
  from ended_stuck [OF this _ ended(4)] ended(1) show "\<forall>c. \<not> cb_step below_half (proxy_step S K G) (r k) c" by blast
qed

section \<open>Without a server\<close>

text \<open>No client gets a connection, nobody does anything.\<close>

definition no_work :: "'d psys \<Rightarrow> nat \<Rightarrow> 'd csys \<Rightarrow> bool" where
  "no_work s n c \<longleftrightarrow> c_ps c = s \<and> \<not> running (ps_sv s) \<and> ps_mail s = [] \<and> (\<forall>i. \<exists>r. ps_pc s i = Done r) \<and>
    client_stats c = replicate n 0 \<and> length (c_clients c) = n \<and>
    (\<forall>i < n. (\<exists>ds. c_clients c ! i = Starting ds) \<or> c_clients c ! i = Ended (Some TransportError))"

lemma no_work_step: "cb_step below_half (proxy_step S K G) c c' \<Longrightarrow> no_work s n c \<Longrightarrow> no_work s n c'"
proof (induction rule: cb_step.induct)
  case (handle c t)
  then show ?case using idle_proxy_step [of S K G "c_ps c" t] by (simp add: no_work_def)
qed (auto simp: no_work_def nth_list_update)

lemma no_work_steps: "(cb_step below_half (proxy_step S K G))\<^sup>*\<^sup>* c c' \<Longrightarrow> no_work s n c \<Longrightarrow> no_work s n c'"
  by (induction rule: rtranclp_induct) (auto intro: no_work_step)

end
