(* ===== verification/LabelBenchProperties.thy ===== *)
theory LabelBenchProperties
  imports LabelBench LabelLoadProperties
begin

text \<open>The properties of \<open>concurrent_benchmark.cpp\<close>.\<close>

section \<open>The benchmark saves a store\<close>

lemma cb_begin_inv:
  assumes "load_fine S K below_half E dss (load_start px sv dss)"
  shows "cb_inv S K below_half E dss (counted px) (cb_begin px sv dss)"
  using assms load_start_inv(2) [of dss px sv] by (simp add: cb_inv_def load_of_begin) (simp add: cb_begin_def)

text \<open>
  C5: \<open>concurrent_benchmark.cpp\<close>, its 64 clients with 100 draws of 160 random bytes each, on tables and a
  database that represent a store and a server that runs.  Take any run, as the sequence of its states.
  Either at some moment a client holds the lock of a key whose create is still on its way (C29); or
  the run has at most 44928 steps, and where nothing can go on every create has arrived, each client
  has done its 100 turns or has stopped at a GET whose random bytes hold no zero (undefined in the
  code), and each operation done has been counted once, with at most as many latencies.
  If moreover every client has done its turns and there is at least one latency (\<open>main\<close> divides by
  their number), \<open>main\<close> saves tables from which the next program reads a store with all the
  keys of before, and all locks free.
\<close>

theorem benchmark_saves_store:
  assumes "sodium_ok S" and "kvs_ok K" and "\<And>F. F \<in> G \<Longrightarrow> fresh_good S F" and "F0 \<in> G"
    and "rep S (kv_get K (db sv)) A (proxy_start load file)" and "running sv"
    and "\<And>x. load (save x) = x" and "\<And>i j. length (r_bytes (ds i j)) = VALUE_SIZE"
    and "run_of (cb_step below_half (proxy_step S K G)) r k" and "r 0 = cb_start load file sv ds"
  defines "n \<equiv> \<Sum>i < NUM_CLIENTS. turns_of below_half (map (ds i) [0..<100])"
  shows "(\<exists>j\<le>k. \<not> delivered (c_ps (r j))) \<or>
    k \<le> 44928 \<and> ((\<forall>c. \<not> cb_step below_half (proxy_step S K G) (r k) c) \<longrightarrow>
      ps_mail (c_ps (r k)) = [] \<and>
      (\<forall>i < NUM_CLIENTS. c_clients (r k) ! i = Ended (end_of below_half (map (ds i) [0..<100]))) \<and>
      accesses (ps_px (c_ps (r k))) + aborted (ps_px (c_ps (r k))) = of_nat n \<and> total_ops (r k) \<le> n \<and>
      ((\<forall>i < NUM_CLIENTS. c_clients (r k) ! i = Ended None) \<and> 0 < total_ops (r k) \<longrightarrow>
        (\<exists>file' A'. cb_finish save file (r k) = (None, Some file') \<and>
          rep S (kv_get K (db (ps_sv (c_ps (r k))))) A' (proxy_start load (Some file')) \<and>
          dom (vals A) \<subseteq> dom (vals A') \<and> avail A' = key_names)))"
proof (cases "\<forall>j\<le>k. delivered (c_ps (r j))")
  case True
  let ?dss = "map (\<lambda>i. map (ds i) [0..<100]) [0..<NUM_CLIENTS]"
  let ?px = "proxy_start load file"
  let ?start = "cb_begin ?px sv ?dss" and ?step = "cb_step below_half (timely_step S K G)" and ?c = "r k"
  have start: "r 0 = ?start" and len: "length ?dss = NUM_CLIENTS" using assms(10) by (simp_all add: cb_start_def)
  have dss: "?dss ! i = map (ds i) [0..<100]" if "i < NUM_CLIENTS" for i using that by simp
  have "load_fine S K below_half False ?dss (load_start ?px sv ?dss)"
    by (rule load_start_fine [OF assms(5,6)]) (use assms(8) in auto)
  from cb_begin_inv [OF this] have inv0: "cb_inv S K below_half False ?dss (counted ?px) ?start" .
  have counted0: "counted ?px = 0" by (simp add: counted_def proxy_start_def)
  have ranked: "ranked_steps ?step (cb_inv S K below_half False ?dss (counted ?px)) (cb_rank (length ?dss))"
    by (rule cb_ranked [OF assms(1-3)])
  have "cb_rank (length ?dss) ?start = load_rank NUM_CLIENTS (load_start ?px sv ?dss) + NUM_CLIENTS"
    unfolding cb_rank_def load_of_begin starting_begin len by simp
  also have "\<dots> = 44928"
    using load_start_rank [of ?dss ?px sv] by (simp add: len comp_def sum_list_triv) (simp add: NUM_CLIENTS_def)
  finally have rank: "cb_rank (length ?dss) ?start = 44928" .
  have timely: "run_of ?step r k" by (rule run_of_timely_cb [OF assms(9) True])
  have bound: "k \<le> 44928"
    using ranked_steps.bounded [OF ranked run_of_relpow [OF timely], unfolded start, OF inv0] rank by simp
  have steps: "?step\<^sup>*\<^sup>* ?start ?c" using run_of_steps [OF timely] unfolding start .
  note inv = ranked_steps.inv_steps [OF ranked steps inv0]
  have total: "(\<Sum>i < length ?dss. turns_of below_half (?dss ! i)) = n" unfolding n_def len by (intro sum.cong) simp_all
  have "ps_mail (c_ps ?c) = [] \<and>
      (\<forall>i < NUM_CLIENTS. c_clients ?c ! i = Ended (end_of below_half (map (ds i) [0..<100]))) \<and>
      accesses (ps_px (c_ps ?c)) + aborted (ps_px (c_ps ?c)) = of_nat n \<and> total_ops ?c \<le> n \<and>
      (0 < total_ops ?c \<longrightarrow> (\<exists>file' A'. cb_finish save file ?c = (None, Some file') \<and>
        rep S (kv_get K (db (ps_sv (c_ps ?c)))) A' (proxy_start load (Some file')) \<and>
        dom (vals A) \<subseteq> dom (vals A') \<and> avail A' = key_names))"
    if "\<forall>c. \<not> cb_step below_half (proxy_step S K G) ?c c"
  proof -
    from that timely_cb_le have "\<forall>c. \<not> ?step ?c c" by blast
    note ended = cb_end [OF inv assms(4) this, unfolded total]
    from ended(5) obtain V free where saved: "rep S (kv_get K (db (ps_sv (c_ps ?c)))) \<lparr>vals = V, avail = free,
      n_done = accesses (ps_px (c_ps ?c)), n_aborted = aborted (ps_px (c_ps ?c))\<rparr> (ps_px (c_ps ?c))" by blast
    have "dom (vals A) \<subseteq> dom V"
      using cb_steps_keys [OF steps] assms(5) saved by (simp add: rep_def cb_begin_def)
    moreover have "c_clients ?c ! i = Ended (end_of below_half (map (ds i) [0..<100]))" if "i < NUM_CLIENTS" for i
      using ended(1) that dss [OF that] unfolding len by metis
    ultimately show ?thesis using ended(2-4) rep_restart [where load = load and save = save, OF saved assms(7)]
      by (force simp: cb_finish_def counted0 counted_def [of "ps_px (c_ps ?c)"])
  qed
  with bound show ?thesis by blast
qed blast

theorem benchmark_saves_store_witness:
  "\<exists>c. (cb_step even (proxy_step toy_sodium toy_kvs {toy_fresh 9}))\<^sup>*\<^sup>* (cb_start id None toy_server toy_draws) c \<and>
    (\<forall>i < 64. c_clients c ! i = Ended None) \<and> accesses (ps_px (c_ps c)) + aborted (ps_px (c_ps c)) = 6400"
proof -
  let ?step = "cb_step even (timely_step toy_sodium toy_kvs {toy_fresh 9})" and ?px = "proxy_start id None"
  let ?dss = "map (\<lambda>i. map (toy_draws i) [0..<100]) [0..<NUM_CLIENTS]"
  let ?start = "cb_start id None toy_server toy_draws"
  have start: "?start = cb_begin ?px toy_server ?dss" by (simp add: cb_start_def)
  have rep: "rep toy_sodium (kv_get toy_kvs (db toy_server)) spec0 ?px" by (rule rep_start)
  have bytes: "length (r_bytes (toy_draws i j)) = VALUE_SIZE" for i j by (simp add: toy_draws_def layout)
  have good: "\<And>F. F \<in> {toy_fresh 9} \<Longrightarrow> fresh_good toy_sodium F" by (simp add: toy_fresh_good)
  have "load_fine toy_sodium toy_kvs even False ?dss (load_start ?px toy_server ?dss)"
    by (rule load_start_fine [OF rep toy_running_server]) (use bytes in auto)
  from cb_begin_inv [OF this] have inv: "cb_inv toy_sodium toy_kvs even False ?dss (counted ?px) ?start" unfolding start .
  from ranked_steps.run_to_end [OF cb_ranked [OF toy_sodium_ok toy_kvs_ok good] inv] obtain k c where
    run: "(?step ^^ k) ?start c" "\<forall>c'. \<not> ?step c c'" by blast
  from relpow_run_of [OF run(1)] obtain r where r: "run_of ?step r k" "r 0 = ?start" "r k = c" by blast
  have full: "run_of (cb_step even (proxy_step toy_sodium toy_kvs {toy_fresh 9})) r k"
    by (rule run_of_mono [OF r(1)]) (rule timely_cb_le)
  from timely_cb_stuck [OF toy_sodium_ok toy_kvs_ok good singletonI r(1) _ _ inv [folded r(2)]] r run(2)
  have ends: "\<forall>j\<le>k. delivered (c_ps (r j))" "\<forall>c'. \<not> cb_step even (proxy_step toy_sodium toy_kvs {toy_fresh 9}) c c'"
    by (simp_all add: start cb_begin_def delivered_def)
  from benchmark_saves_store [where load = id and save = id, OF toy_sodium_ok toy_kvs_ok good singletonI rep toy_running_server
      _ bytes full r(2)] ends
  have "(\<forall>i < 64. c_clients c ! i = Ended None) \<and> accesses (ps_px (c_ps c)) + aborted (ps_px (c_ps c)) = 6400"
    unfolding r(3) by (simp add: toy_draws_turns NUM_CLIENTS_def) blast
  moreover have "(cb_step even (proxy_step toy_sodium toy_kvs {toy_fresh 9}))\<^sup>*\<^sup>* ?start c"
    using run_of_steps [OF full] r(2,3) by simp
  ultimately show ?thesis by blast
qed

section \<open>Without a server\<close>

text \<open>
  Without a server no client of \<open>concurrent_benchmark.cpp\<close> does an operation, and \<open>main\<close> divides
  the sums of the times by 0 operations, which is undefined for its integers, before it has saved the
  tables.
\<close>

lemma benchmark_divides_by_zero:
  assumes "\<not> running sv" and "(cb_step below_half (proxy_step S K G))\<^sup>*\<^sup>* (cb_start load file sv ds) c"
  shows "cb_finish save file c = (Some Undefined, file) \<and>
    ((\<forall>c'. \<not> cb_step below_half (proxy_step S K G) c c') \<longrightarrow>
      (\<forall>i < NUM_CLIENTS. c_clients c ! i = Ended (Some TransportError)))"
proof -
  let ?s = "\<lparr>ps_px = proxy_start load file, ps_sv = sv, ps_mail = [], ps_pc = (\<lambda>i. Done (Inr []))\<rparr>"
  have "no_work ?s NUM_CLIENTS (cb_start load file sv ds)"
    using assms(1) by (simp add: no_work_def cb_start_def cb_begin_def map_replicate_const)
  from no_work_steps [OF assms(2) this] have c: "no_work ?s NUM_CLIENTS c" .
  then have "total_ops c = 0" by (simp add: no_work_def total_ops_def sum_list_replicate)
  moreover have "c_clients c ! i = Ended (Some TransportError)"
    if "\<forall>c'. \<not> cb_step below_half (proxy_step S K G) c c'" "i < NUM_CLIENTS" for i
  proof (rule ccontr)
    assume "c_clients c ! i \<noteq> Ended (Some TransportError)"
    with c that(2) obtain ds' where "c_clients c ! i = Starting ds'" unfolding no_work_def by blast
    with c that cb_step.no_connection [of i c ds' below_half "proxy_step S K G"] show False by (simp add: no_work_def)
  qed
  ultimately show ?thesis by (simp add: cb_finish_def)
qed

end
