(* ===== verification/LabelStale.thy ===== *)
theory LabelStale
  imports LabelStore LabelLoad
begin

text \<open>
  What happens when the saved master keys and the labels of the server are not of the same age: the
  tables are written only by the signal handlers and by the EXIT of the command line, and the server
  re-keys a record at every access.
\<close>

section \<open>Master keys of another age\<close>

text \<open>
  The boxes sealed under subkeys of one master key do not open under those of another.  (No length of
  tags can give this for all keys at once, so it is stated for the two.)
\<close>

definition keys_apart :: "sodium \<Rightarrow> bytes \<Rightarrow> bytes \<Rightarrow> bool" where
  "keys_apart S mk mk' \<longleftrightarrow> (\<forall>i < 5 * POSITIONS. \<forall>j < 5 * POSITIONS. \<forall>m n.
     secretbox_open_easy S (secretbox_easy S m n (sub S mk i)) n (sub S mk' j) = None)"

lemma decrypt_at_foreign:
  assumes S: "sodium_ok S" and F: "fresh_ok F" and plain: "\<And>l p. length (plain l p) = 1 + KEYBYTES"
    and p: "p < POSITIONS" and len: "length lab = BLOCK_SIZE"
    and slot: "slot lab p = label S mk p b" and b: "b \<in> {0, 1, 2, 3}" and apart: "keys_apart S old mk"
  shows "decrypt_at S (block_mem POSITIONS (rekey_lanes plain S F old)) lab p = Inl ProcessExit"
proof -
  let ?l = "lane_at (aux S mk p XOR b)"
  have head: "read_at lab ((1 + KEYBYTES) * p) 1 = Inr [aux S mk p XOR b]"
    using read_slot [OF len p, of 0 1] by (simp add: slot label_def)
  have key: "read_at lab ((1 + KEYBYTES) * p + 1) KEYBYTES = Inr (sub S mk (5 * p + 1 + unat b))"
    using read_slot [OF len p, of 1 KEYBYTES] by (simp add: slot label_def S)
  have f: "\<And>q. q < POSITIONS \<Longrightarrow> length (rekey_lanes plain S F old ?l q) = BLOCK_LEN"
    by (rule length_rekey_lanes [OF S F plain])
  note read = read_block [where f = "rekey_lanes plain S F old ?l", OF p f]
  have nonce: "read_at (blocks (rekey_lanes plain S F old ?l) POSITIONS) (BLOCK_LEN * p) NONCEBYTES =
      Inr (nonces F (p div 4) (p mod 4) ?l)"
    using read [of 0 NONCEBYTES] by (simp add: rekey_lanes_def BLOCK_LEN_def length_nonce [OF F])
  have cipher: "read_at (blocks (rekey_lanes plain S F old ?l) POSITIONS)
      (BLOCK_LEN * p + NONCEBYTES) CIPHERTEXT_LEN = Inr (rekey_cipher plain S F old ?l p)"
    using read [of NONCEBYTES CIPHERTEXT_LEN]
    by (simp add: rekey_lanes_def BLOCK_LEN_def length_nonce [OF F] length_rekey_cipher [OF S] plain)
  have index: "5 * p + 1 + unat c < 5 * POSITIONS" if "c \<in> {0, 1, 2, 3}" for c :: byte using that p by auto
  have "secretbox_open_easy S (secretbox_easy S (plain ?l p) (nonces F (p div 4) (p mod 4) ?l)
      (sub S old (5 * p + 1 + unat (lane_bits S old ?l p)))) (nonces F (p div 4) (p mod 4) ?l)
      (sub S mk (5 * p + 1 + unat b)) = None"
    using apart index [OF b] index [OF lane_bits_cases] unfolding keys_apart_def by (metis (no_types))
  then have "secretbox_open_easy S (rekey_cipher plain S F old ?l p) (nonces F (p div 4) (p mod 4) ?l)
      (sub S mk (5 * p + 1 + unat b)) = None" by (simp add: rekey_cipher_def)
  moreover have "hd [aux S mk p XOR b] AND 3 = aux S mk p XOR b"
    using and_3_small [OF xor_cases [OF aux_cases b]] by simp
  ultimately show ?thesis
    unfolding decrypt_at_def head bind_res_simps Let_def
    by (simp only: block_mem_def nonce cipher key bind_res_simps option.case)
qed

text \<open>An entry made with such a key stops the server.\<close>

lemma entry_foreign_stops:
  assumes S: "sodium_ok S" and F: "fresh_ok F" and plain: "\<And>l p. length (plain l p) = 1 + KEYBYTES"
    and run: "running sv" and stored: "kv_get K (db sv) key = Some lab" and enc: "encodes S mk (pair w) lab"
    and apart: "keys_apart S old mk"
  shows "kv_access S K (entry_of key (block_mem POSITIONS (rekey_lanes plain S F old))) sv =
    (Inl TransportError, sv\<lparr>running := False\<rparr>)"
proof (rule kv_access_exit [OF run, where p = 0])
  let ?e = "entry_of key (block_mem POSITIONS (rekey_lanes plain S F old))"
  have lanes: "lane_of ?e = block_mem POSITIONS (rekey_lanes plain S F old)" by (rule ext) simp
  show "kv_get K (db sv) (keyName ?e) = Some lab" using stored by simp
  show "length lab = BLOCK_SIZE" using enc by (simp add: encodes_def)
  show "entry_sized ?e"
  proof -
    have "length (blocks (rekey_lanes plain S F old l) POSITIONS) = BLOCK_LEN * POSITIONS" for l
      by (rule length_blocks) (rule length_rekey_lanes [OF S F plain])
    then show ?thesis by (simp add: entry_sized_def block_mem_def)
  qed
  show "decrypt_at S (lane_of ?e) lab 0 = Inl ProcessExit"
    unfolding lanes using enc
    by (intro decrypt_at_foreign [OF S F plain _ _ _ pair_cases apart]) (auto simp: encodes_def layout)
qed (simp add: layout)


definition stale_key :: "sodium \<Rightarrow> 'd kvs \<Rightarrow> 'd server \<Rightarrow> helper \<Rightarrow> string \<Rightarrow> bool" where
  "stale_key S K sv st key \<longleftrightarrow> (\<exists>old mk w lab. masterKeys st key = Some old \<and> length old = KEYBYTES \<and>
     kv_get K (db sv) key = Some lab \<and> encodes S mk (pair w) lab \<and> keys_apart S old mk)"

lemma length_plain_of: "sodium_ok S \<Longrightarrow> length (plain_of S ope old new l p) = 1 + KEYBYTES"
  by (simp add: plain_of_def length_get_plain length_put_plain)

lemma stale_access:
  assumes S: "sodium_ok S" and F: "fresh_ok F" and run: "running sv" and stale: "stale_key S K sv st (op_key ope)"
    and put: "op_op ope \<noteq> ''GET'' \<Longrightarrow> length (op_value ope) \<le> VALUE_SIZE"
  shows "\<exists>e st'. build S F ope False st = (Inr e, st') \<and> kv_access S K e sv = (Inl TransportError, sv\<lparr>running := False\<rparr>)"
proof -
  from stale obtain old mk w lab where old: "masterKeys st (op_key ope) = Some old" "length old = KEYBYTES"
    and lab: "kv_get K (db sv) (op_key ope) = Some lab" "encodes S mk (pair w) lab" and apart: "keys_apart S old mk"
    unfolding stale_key_def by blast
  from build_rekey [OF S F old put] entry_foreign_stops [OF S F length_plain_of [OF S] run lab apart] show ?thesis
    by (auto simp: Let_def)
qed

lemma stale_handleOp:
  assumes S: "sodium_ok S" and F: "fresh_ok F" and run: "running sv" and stale: "stale_key S K sv (hlp px) (op_key ope)"
    and put: "op_op ope \<noteq> ''GET'' \<Longrightarrow> length (op_value ope) \<le> VALUE_SIZE"
    and key: "op_key ope \<in> keySet (hlp px)" "at_default (locks (hlp px)) False (op_key ope)"
  shows "\<exists>px'. handleOp S (kv_create K) (kv_access S K) F c ope (px, sv) = (Inl TransportError, px', sv\<lparr>running := False\<rparr>)"
proof -
  let ?st = "snd (exchange (op_key ope) False (hlp px))"
  have "stale_key S K sv ?st (op_key ope)" using stale by (simp add: stale_key_def)
  from stale_access [OF S F run this put] obtain e st' where
    "build S F ope False ?st = (Inr e, st')" "kv_access S K e sv = (Inl TransportError, sv\<lparr>running := False\<rparr>)" by blast
  with key build_run_access [of ope S "kv_access S K" F c "px\<lparr>hlp := ?st\<rparr>" sv] show ?thesis
    by (auto simp: handleOp_def exchange_def)
qed

lemma stale_cli_step:
  assumes S: "sodium_ok S" and F: "fresh_ok F" and run: "running sv" and stale: "stale_key S K sv st key"
    and key: "key \<in> keySet st"
  shows "\<exists>st'. cli_step S (kv_create K) (kv_access S K) F c \<lparr>c_type = GET, c_key = key, c_value = v\<rparr> (st, sv) =
    (Inl TransportError, st', sv\<lparr>running := False\<rparr>)"
  using stale_access [OF S F run, of K st "\<lparr>op_op = ''GET'', op_key = key, op_value = v\<rparr>"] stale key
  by (auto simp: cli_step_def build_def)

section \<open>A signal between the tables and the server\<close>

text \<open>
  \<open>signal_callback_handler\<close> of the proxy writes the tables as they are at that moment, whatever the
  threads are doing.
\<close>

definition sigint :: "(saved \<Rightarrow> 'f) \<Rightarrow> 'd psys \<Rightarrow> 'f \<times> 'd server" where
  "sigint save s = (OpScureCleanup save (hlp (ps_px s)), ps_sv s)"

lemma proxy_start_saved:
  assumes "\<And>x. load (save x) = x"
  shows "keySet (hlp (proxy_start load (Some (OpScureCleanup save st)))) = keySet st"
    "masterKeys (hlp (proxy_start load (Some (OpScureCleanup save st)))) = masterKeys st"
    "at_default (locks (hlp (proxy_start load (Some (OpScureCleanup save st))))) False key \<longleftrightarrow> key \<in> key_names"
  using assms by (simp_all add: proxy_start_def OpScureSetup_def OpScureCleanup_def helper0_def at_default_def setup_locks_key_names)


section \<open>benchmark.cpp as a program\<close>

text \<open>The loop of \<open>main\<close>, one element for the randomness of each turn, up to an exception.\<close>

fun bench_loop :: "sodium \<Rightarrow> (entry \<Rightarrow> 's \<Rightarrow> bytes res \<times> 's) \<Rightarrow> (fresh \<times> fresh \<times> byte \<times> nat) list \<Rightarrow> helper \<times> 's \<Rightarrow>
    error option \<times> helper \<times> 's" where
  "bench_loop S access [] w = (None, w)"
| "bench_loop S access ((F, F', c, r) # turns) w =
    (case bench_turn S access F F' c r w of (Inl er, w) \<Rightarrow> (Some er, w) | (Inr v, w) \<Rightarrow> bench_loop S access turns w)"

text \<open>\<open>main\<close>, 100 turns, reads the file and does not write it: only the handler of SIGINT does.\<close>

definition bench_main :: "('s \<Rightarrow> bool) \<Rightarrow> ('f \<Rightarrow> saved) \<Rightarrow> sodium \<Rightarrow> (entry \<Rightarrow> 's \<Rightarrow> bytes res \<times> 's) \<Rightarrow>
    (nat \<Rightarrow> fresh \<times> fresh \<times> byte \<times> nat) \<Rightarrow> 'f option \<times> 's \<Rightarrow> error option \<times> 'f option \<times> 's" where
  "bench_main up load S access turns = (\<lambda>(file, sv).
    (let st = OpScureSetup load file helper0 in
     if \<not> up sv then (Some TransportError, file, sv)
     else let (e, st, sv) = bench_loop S access (map turns [0..<100]) (st, sv) in (e, file, sv)))"

abbreviation turn_key :: "fresh \<times> fresh \<times> byte \<times> nat \<Rightarrow> string" where
  "turn_key t \<equiv> to_string (snd (snd (snd t)) mod KEY_MAX)"

lemma constructPutEntry_keys:
  "constructPutEntry S F key v st = (Inr e, st') \<Longrightarrow> masterKeys st' = (masterKeys st)(key \<mapsto> keygen F)"
  "constructGetEntry S F key st = (Inr e, st') \<Longrightarrow> masterKeys st' = (masterKeys st)(key \<mapsto> keygen F)"
  by (auto simp: constructPutEntry_def constructGetEntry_def Let_def split: sum.splits)

lemma bench_turn_keys:
  assumes "bench_turn S access F F' c r (st, sv) = (Inr v, st', sv')"
  shows "masterKeys st' = (masterKeys st)(to_string (r mod KEY_MAX) \<mapsto> keygen F')"
  using assms
  by (auto simp: bench_turn_def readValueFromLabels_def Let_def split: sum.splits prod.splits dest!: constructPutEntry_keys)

text \<open>
  A run over keys with values ends without an error; the master key of a key it has touched is one
  that the run has drawn.
\<close>

lemma bench_loop_run:
  assumes S: "sodium_ok S" and K: "kvs_ok K"
  shows "\<forall>(F, F', c, r) \<in> set turns. fresh_good S F \<and> fresh_good S F' \<and> V (to_string (r mod KEY_MAX)) \<noteq> None \<Longrightarrow>
    running sv \<Longrightarrow> cli_rep S (kv_get K (db sv)) V st \<Longrightarrow>
    \<exists>st' sv' V'. bench_loop S (kv_access S K) turns (st, sv) = (None, st', sv') \<and> running sv' \<and>
      cli_rep S (kv_get K (db sv')) V' st' \<and> dom V' = dom V \<and>
      (\<forall>key. masterKeys st' key = masterKeys st key \<and> key \<notin> turn_key ` set turns \<or>
        (\<exists>t \<in> set turns. turn_key t = key \<and> masterKeys st' key = Some (keygen (fst (snd t)))))"
proof (induction turns arbitrary: V st sv)
  case (Cons t turns)
  obtain F F' c r where t: "t = (F, F', c, r)" by (cases t)
  let ?k = "to_string (r mod KEY_MAX)"
  from Cons.prems(1) t have F: "fresh_good S F" "fresh_good S F'" and "V ?k \<noteq> None" by auto
  then obtain v where v: "V ?k = Some v" by blast
  from bench_turn_refines [OF S K Cons.prems(2) F Cons.prems(3) v, of c] obtain st1 sv1 where
    turn: "bench_turn S (kv_access S K) F F' c r (st, sv) = (Inr (garble v), st1, sv1)" and sv1: "running sv1"
    and rep1: "cli_rep S (kv_get K (db sv1)) (V(?k \<mapsto> spaces)) st1" by blast
  have "\<forall>(F, F', c, r) \<in> set turns. fresh_good S F \<and> fresh_good S F' \<and> (V(?k \<mapsto> spaces)) (to_string (r mod KEY_MAX)) \<noteq> None"
    using Cons.prems(1) by auto
  from Cons.IH [OF this sv1 rep1] obtain st' sv' V' where
    IH: "bench_loop S (kv_access S K) turns (st1, sv1) = (None, st', sv')" "running sv'" "cli_rep S (kv_get K (db sv')) V' st'"
      "dom V' = dom (V(?k \<mapsto> spaces))"
      "\<forall>key. masterKeys st' key = masterKeys st1 key \<and> key \<notin> turn_key ` set turns \<or>
        (\<exists>t \<in> set turns. turn_key t = key \<and> masterKeys st' key = Some (keygen (fst (snd t))))" by blast
  have "dom V' = dom V" using IH(4) v by auto
  moreover have "\<forall>key. masterKeys st' key = masterKeys st key \<and> key \<notin> turn_key ` set (t # turns) \<or>
      (\<exists>t \<in> set (t # turns). turn_key t = key \<and> masterKeys st' key = Some (keygen (fst (snd t))))"
  proof
    fix key
    from IH(5) [rule_format, of key] bench_turn_keys [OF turn]
    show "masterKeys st' key = masterKeys st key \<and> key \<notin> turn_key ` set (t # turns) \<or>
        (\<exists>t \<in> set (t # turns). turn_key t = key \<and> masterKeys st' key = Some (keygen (fst (snd t))))"
      by (cases "key = ?k") (auto simp: t)
  qed
  ultimately show ?case using IH(1-3) turn by (auto simp: t)
qed auto

lemma cli_repD:
  assumes "cli_rep S stored V st" and "V key = Some v"
  shows "key \<in> keySet st" "\<exists>mk lab. masterKeys st key = Some mk \<and> length mk = KEYBYTES \<and> stored key = Some lab \<and>
    encodes S mk (pair (pad v)) lab"
  using assms by (auto simp: cli_rep_def rep_def unlocked_def free_spec_def key_rep_def)

text \<open>After the run the file's master key of a touched key is stale.\<close>

lemma bench_main_stale:
  assumes S: "sodium_ok S" and K: "kvs_ok K" and sv: "running sv"
    and rep: "cli_rep S (kv_get K (db sv)) V (OpScureSetup load file helper0)"
    and turns: "\<forall>(F, F', c, r) \<in> set (map turns [0..<100]). fresh_good S F \<and> fresh_good S F' \<and> V (to_string (r mod KEY_MAX)) \<noteq> None"
    and key: "key \<in> turn_key ` set (map turns [0..<100])"
    and apart: "\<And>t mk. t \<in> set (map turns [0..<100]) \<Longrightarrow> masterKeys (OpScureSetup load file helper0) key = Some mk \<Longrightarrow>
      keys_apart S mk (keygen (fst (snd t)))"
  shows "\<exists>sv'. bench_main running load S (kv_access S K) turns (file, sv) = (None, file, sv') \<and> running sv' \<and>
    stale_key S K sv' (OpScureSetup load file helper0) key \<and> key \<in> keySet (OpScureSetup load file helper0)"
proof -
  let ?st = "OpScureSetup load file helper0" and ?turns = "map turns [0..<100]"
  from bench_loop_run [OF S K turns sv rep] obtain st' sv' V' where
    run: "bench_loop S (kv_access S K) ?turns (?st, sv) = (None, st', sv')" "running sv'"
    and rep': "cli_rep S (kv_get K (db sv')) V' st'" "dom V' = dom V"
    and keys: "\<forall>key. masterKeys st' key = masterKeys ?st key \<and> key \<notin> turn_key ` set ?turns \<or>
        (\<exists>t \<in> set ?turns. turn_key t = key \<and> masterKeys st' key = Some (keygen (fst (snd t))))" by blast
  from keys key obtain t where t: "t \<in> set ?turns" "masterKeys st' key = Some (keygen (fst (snd t)))" by blast
  from key turns have "key \<in> dom V" by auto
  then obtain v v' where v: "V key = Some v" "V' key = Some v'" using rep'(2) by blast
  from cli_repD [OF rep v(1)] obtain mk where mk: "key \<in> keySet ?st" "masterKeys ?st key = Some mk" "length mk = KEYBYTES" by blast
  from cli_repD(2) [OF rep'(1) v(2)] t(2) obtain lab where
    "kv_get K (db sv') key = Some lab" "encodes S (keygen (fst (snd t))) (pair (pad v')) lab" by auto
  with mk apart [OF t(1) mk(2)] have "stale_key S K sv' ?st key" unfolding stale_key_def by blast
  with run mk(1) sv show ?thesis by (simp add: bench_main_def)
qed

end
