(* ===== verification/LabelStaleProperties.thy ===== *)
theory LabelStaleProperties
  imports LabelStale LabelThreadProperties LabelClientProperties
begin

text \<open>
  Two ways to lose a key for good: a signal to the proxy in the middle of an access, and the
  benchmark, which does not save the keys it has drawn.
\<close>

lemma toy_keys_apart:
  assumes "x \<noteq> y"
  shows "keys_apart toy_sodium (replicate KEYBYTES x) (replicate KEYBYTES y)"
proof -
  have tag: "take MACBYTES (sub toy_sodium (replicate KEYBYTES z) i @ replicate MACBYTES 0) ! 3 = z" for z i
    by (simp add: sub_def toy_sodium_def layout nth_append)
  have "take MACBYTES (sub toy_sodium (replicate KEYBYTES x) i @ replicate MACBYTES 0) \<noteq>
      take MACBYTES (sub toy_sodium (replicate KEYBYTES y) j @ replicate MACBYTES 0)" for i j
    using tag [of x i] tag [of y j] assms by metis
  moreover have "secretbox_open_easy toy_sodium (secretbox_easy toy_sodium m n k) n k' = None"
    if "take MACBYTES (k @ replicate MACBYTES 0) \<noteq> take MACBYTES (k' @ replicate MACBYTES 0)" for m n k k'
  proof -
    have "take MACBYTES (take MACBYTES (k @ replicate MACBYTES 0) @ m) = take MACBYTES (k @ replicate MACBYTES 0)"
      by (subst take_append) simp
    with that show ?thesis by (simp add: toy_sodium_def del: take_append)
  qed
  ultimately show ?thesis unfolding keys_apart_def by blast
qed

text \<open>The key \<open>5\<close> has the value \<open>hi\<close>.\<close>

definition toy_tables :: helper where
  "toy_tables = \<lparr>keySet = {''5''}, valueSizes = [''5'' \<mapsto> 2], masterKeys = [''5'' \<mapsto> replicate KEYBYTES 9],
     locks = setup_locks KEY_MAX Map.empty\<rparr>"

definition toy_labelled :: "(string \<rightharpoonup> bytes) server" where
  "toy_labelled = toy_server\<lparr>db :=
     [''5'' \<mapsto> answer (\<lambda>p. label toy_sodium (replicate KEYBYTES 9) p (pair (pad [104, 105]) p))]\<rparr>"

lemma toy_labelled_simps [simp]: "running toy_labelled"
  by (simp add: toy_labelled_def)

lemma toy_key_rep: "key_rep toy_sodium (kv_get toy_kvs (db toy_labelled)) (toy_tables\<lparr>locks := l\<rparr>) ''5'' [104, 105]"
  using encodes_answer [OF toy_sodium_ok, of "replicate KEYBYTES 9" "pair (pad [104, 105])"]
  by (simp add: key_rep_def toy_tables_def toy_labelled_def toy_kvs_def layout)

lemma toy_tables_rep:
  "rep toy_sodium (kv_get toy_kvs (db toy_labelled))
    \<lparr>vals = [''5'' \<mapsto> [104, 105]], avail = key_names, n_done = 0, n_aborted = 0\<rparr> \<lparr>hlp = toy_tables, accesses = 0, aborted = 0\<rparr>"
  using toy_key_rep [of "locks toy_tables"]
  by (simp add: rep_def at_default_def) (simp add: toy_tables_def setup_locks_key_names)

lemma toy_tables_cli: "cli_rep toy_sodium (kv_get toy_kvs (db toy_labelled)) [''5'' \<mapsto> [104, 105]] toy_tables"
  using toy_key_rep [of "\<lambda>_. Some True"]
  by (simp add: cli_rep_def rep_def at_default_def free_spec_def unlocked_def) (simp add: toy_tables_def)

section \<open>A signal in the middle of an access\<close>

text \<open>
  C14: SIGINT stops the proxy and saves the tables at any moment.  On tables and a database that represent a
  store, with a server that runs and a thread whose GET, or PUT of at most 160 bytes, is of a known key with a free lock,
  there is a moment at which the saved file has a master key that the server has
  not seen: when the first access of that key after the restart is a GET or a PUT of at most 160 bytes, it
  stops the server.
\<close>

theorem signal_breaks_key:
  assumes "sodium_ok S" and "fresh_ok F" and "F \<in> G"
    and "rep S (kv_get K (db sv)) A px" and "running sv" and "vals A (op_key (ops i)) = Some v" and "op_key (ops i) \<in> avail A"
    and "op_key (ops i) \<in> key_names" and "\<And>x. load (save x) = x"
    and "op_op (ops i) \<noteq> ''GET'' \<Longrightarrow> length (op_value (ops i)) \<le> VALUE_SIZE"
    and "\<And>mk. masterKeys (hlp px) (op_key (ops i)) = Some mk \<Longrightarrow> keys_apart S (keygen F) mk"
  shows "\<exists>s e file. (proxy_step S K G)\<^sup>*\<^sup>* (threads_start px sv ops) s \<and> ps_pc s i = Asking (ops i) e \<and>
    sigint save s = (file, sv) \<and>
    (\<forall>F' c ope. fresh_ok F' \<and> op_key ope = op_key (ops i) \<and> (op_op ope \<noteq> ''GET'' \<longrightarrow> length (op_value ope) \<le> VALUE_SIZE) \<longrightarrow>
      (\<exists>px'. proxy_access running S (kv_create K) (kv_access S K) F' c ope (proxy_start load (Some file), sv) =
        (Inl TransportError, px', sv\<lparr>running := False\<rparr>)))"
proof -
  let ?k = "op_key (ops i)" and ?s0 = "threads_start px sv ops"
  from assms(4,6) obtain mk lab where mk: "masterKeys (hlp px) ?k = Some mk" "length mk = KEYBYTES"
    and lab: "kv_get K (db sv) ?k = Some lab" "encodes S mk (pair (pad v)) lab"
    unfolding rep_def key_rep_def by blast
  have known: "?k \<in> keySet (hlp px)" "\<not> locked_out (hlp px) ?k"
    using assms(4,6,7) by (auto simp: rep_def locked_out_def)
  from reach_asking [OF assms(1-3), of ?s0 i "ops i"] known mk assms(10) obtain s e where
    s: "(proxy_step S K G)\<^sup>*\<^sup>* ?s0 s" "ps_pc s i = Asking (ops i) e" "ps_sv s = sv" "keySet (hlp (ps_px s)) = keySet (hlp px)"
      "masterKeys (hlp (ps_px s)) = (masterKeys (hlp px))(?k \<mapsto> keygen F)"
    by (fastforce simp: threads_start_def)
  let ?file = "OpScureCleanup save (hlp (ps_px s))"
  let ?px = "proxy_start load (Some ?file)"
  note saved = proxy_start_saved [where load = load and save = save, OF assms(9)]
  have "length (keygen F) = KEYBYTES" using assms(2) by (simp add: fresh_ok_def)
  then have stale: "stale_key S K sv (hlp ?px) ?k"
    using lab assms(11) [OF mk(1)] by (auto simp: stale_key_def saved s(5))
  have "\<exists>px'. proxy_access running S (kv_create K) (kv_access S K) F' c ope (?px, sv) =
      (Inl TransportError, px', sv\<lparr>running := False\<rparr>)"
    if "fresh_ok F'" "op_key ope = ?k" "op_op ope \<noteq> ''GET'' \<longrightarrow> length (op_value ope) \<le> VALUE_SIZE" for F' c ope
    using stale_handleOp [OF assms(1) that(1) assms(5), of K ?px ope c] stale that known(1) assms(5,8)
    by (simp add: saved s(4) proxy_access_def)
  with s show ?thesis by (auto simp: sigint_def)
qed

text \<open>Every thread asks for the key \<open>5\<close>.\<close>

theorem signal_breaks_key_witness:
  "\<exists>s e file. (proxy_step toy_sodium toy_kvs UNIV)\<^sup>*\<^sup>*
      (threads_start \<lparr>hlp = toy_tables, accesses = 0, aborted = 0\<rparr> toy_labelled (\<lambda>i. get5)) s \<and> ps_pc s 0 = Asking get5 e \<and>
    sigint id s = (file, toy_labelled) \<and>
    (\<exists>px'. proxy_access running toy_sodium (kv_create toy_kvs) (kv_access toy_sodium toy_kvs) (toy_fresh 8) 77 get5
      (proxy_start id (Some file), toy_labelled) = (Inl TransportError, px', toy_labelled\<lparr>running := False\<rparr>))"
proof -
  have get5: "op_key get5 = ''5''" "op_op get5 = ''GET''" by (simp_all add: get5_def)
  have "\<exists>s e file. (proxy_step toy_sodium toy_kvs UNIV)\<^sup>*\<^sup>*
      (threads_start \<lparr>hlp = toy_tables, accesses = 0, aborted = 0\<rparr> toy_labelled (\<lambda>i. get5)) s \<and> ps_pc s 0 = Asking get5 e \<and>
    sigint id s = (file, toy_labelled) \<and>
    (\<forall>F' c ope. fresh_ok F' \<and> op_key ope = op_key get5 \<and> (op_op ope \<noteq> ''GET'' \<longrightarrow> length (op_value ope) \<le> VALUE_SIZE) \<longrightarrow>
      (\<exists>px'. proxy_access running toy_sodium (kv_create toy_kvs) (kv_access toy_sodium toy_kvs) F' c ope
        (proxy_start id (Some file), toy_labelled) = (Inl TransportError, px', toy_labelled\<lparr>running := False\<rparr>)))"
    by (rule signal_breaks_key [where F = "toy_fresh 7" and v = "[104, 105]", OF toy_sodium_ok toy_fresh_ok UNIV_I toy_tables_rep])
      (use toy_key get5 in \<open>simp_all add: toy_tables_def toy_keys_apart\<close>)
  with toy_fresh_ok [of 8] get5 show ?thesis by metis
qed

section \<open>The benchmark does not save its keys\<close>

text \<open>
  C16: \<open>benchmark.cpp\<close> reads the file of the tables, runs its 100 turns over keys that have values without
  an error, and leaves the file as it was: every key it has touched has a stale master key there, and
  the next program that reads the file and gets the key stops the server.
\<close>

theorem benchmark_loses_keys:
  assumes "sodium_ok S" and "kvs_ok K" and "running sv" and "cli_rep S (kv_get K (db sv)) V (OpScureSetup load file helper0)"
    and "\<forall>(F, F', c, r) \<in> set (map turns [0..<100]). fresh_good S F \<and> fresh_good S F' \<and> V (to_string (r mod KEY_MAX)) \<noteq> None"
    and "key \<in> turn_key ` set (map turns [0..<100])"
    and "\<forall>t \<in> set (map turns [0..<100]). \<forall>mk. masterKeys (OpScureSetup load file helper0) key = Some mk \<longrightarrow>
      keys_apart S mk (keygen (fst (snd t)))"
  shows "\<exists>sv'. bench_main running load S (kv_access S K) turns (file, sv) = (None, file, sv') \<and> running sv' \<and>
    (\<forall>F c. fresh_ok F \<longrightarrow> (\<exists>st. cli_step S (kv_create K) (kv_access S K) F c \<lparr>c_type = GET, c_key = key, c_value = []\<rparr>
      (OpScureSetup load file helper0, sv') = (Inl TransportError, st, sv'\<lparr>running := False\<rparr>)))"
proof -
  from bench_main_stale [OF assms(1-6)] assms(7) obtain sv' where
    run: "bench_main running load S (kv_access S K) turns (file, sv) = (None, file, sv')" "running sv'"
    and stale: "stale_key S K sv' (OpScureSetup load file helper0) key" "key \<in> keySet (OpScureSetup load file helper0)" by blast
  from stale_cli_step [OF assms(1) _ run(2) stale] run show ?thesis by blast
qed

definition toy_saved :: saved where
  "toy_saved = ({''5''}, [''5'' \<mapsto> 2], [''5'' \<mapsto> replicate KEYBYTES 9])"

theorem benchmark_loses_keys_witness:
  "\<exists>sv st. bench_main running id toy_sodium (kv_access toy_sodium toy_kvs) (\<lambda>i. (toy_fresh 7, toy_fresh 8, 77, 5))
      (Some toy_saved, toy_labelled) = (None, Some toy_saved, sv) \<and>
    cli_step toy_sodium (kv_create toy_kvs) (kv_access toy_sodium toy_kvs) (toy_fresh 3) 77
      \<lparr>c_type = GET, c_key = ''5'', c_value = []\<rparr> (OpScureSetup id (Some toy_saved) helper0, sv) =
    (Inl TransportError, st, sv\<lparr>running := False\<rparr>)"
proof -
  have tables: "OpScureSetup id (Some toy_saved) helper0 = toy_tables"
    by (simp add: OpScureSetup_def toy_saved_def helper0_def toy_tables_def)
  have key: "to_string (5 mod KEY_MAX) = ''5''"
    by (simp add: KEY_MAX_def to_string.simps digit_char_def char_of_def bit_0)
  have rep: "cli_rep toy_sodium (kv_get toy_kvs (db toy_labelled)) [''5'' \<mapsto> [104, 105]] (OpScureSetup id (Some toy_saved) helper0)"
    unfolding tables by (rule toy_tables_cli)
  let ?turns = "\<lambda>i :: nat. (toy_fresh 7, toy_fresh 8, 77 :: byte, 5 :: nat)"
  have turns: "\<forall>(F, F', c, r) \<in> set (map ?turns [0..<100]). fresh_good toy_sodium F \<and> fresh_good toy_sodium F' \<and>
      [''5'' \<mapsto> [104, 105]] (to_string (r mod KEY_MAX)) \<noteq> None"
    using key by (simp add: toy_fresh_good)
  have touched: "''5'' \<in> turn_key ` set (map ?turns [0..<100])" using key by (simp add: image_image image_constant_conv)
  have apart: "\<forall>t \<in> set (map ?turns [0..<100]). \<forall>mk. masterKeys (OpScureSetup id (Some toy_saved) helper0) ''5'' = Some mk \<longrightarrow>
      keys_apart toy_sodium mk (keygen (fst (snd t)))"
    using toy_keys_apart [of 9 8] unfolding tables by (auto simp: toy_tables_def)
  from benchmark_loses_keys [where load = id,
      OF toy_sodium_ok toy_kvs_ok toy_labelled_simps rep turns touched apart]
  obtain sv where run: "bench_main running id toy_sodium (kv_access toy_sodium toy_kvs) ?turns (Some toy_saved, toy_labelled) =
      (None, Some toy_saved, sv)"
    and get: "\<forall>F c. fresh_ok F \<longrightarrow> (\<exists>st. cli_step toy_sodium (kv_create toy_kvs) (kv_access toy_sodium toy_kvs) F c
      \<lparr>c_type = GET, c_key = ''5'', c_value = []\<rparr> (OpScureSetup id (Some toy_saved) helper0, sv) =
        (Inl TransportError, st, sv\<lparr>running := False\<rparr>))" by (elim exE conjE)
  show ?thesis
    by (rule exI [of _ sv]) (use run get [rule_format, OF toy_fresh_ok [of 3], of 77] in simp)
qed

end
