(* ===== verification/ThreadPool.thy ===== *)
theory ThreadPool
  imports Prelude "HOL-Library.Multiset" "HOL-Library.Sublist"
begin

text \<open>
  \<open>ortoa-lbl/BS_thread_pool.hpp\<close>: the pool that runs the parts of an entry and of an access.  Its
  workers, the threads that push tasks and the thread that destroys it take steps in any order; a
  step is what one of them does between two points where another can come in.  Who sleeps goes on when
  it is notified; wake-ups without a notification are left out.  A task is its
  name: \<open>submit\<close> wraps it so that an exception goes to its future and none leaves the worker.
\<close>

section \<open>State and steps\<close>

text \<open>
  A worker is about to test \<open>running\<close> and to lock, has seen an empty queue and still holds the
  mutex, sleeps on \<open>task_available_cv\<close>, runs a task, or has left its loop.
\<close>

datatype 'a worker = Loop | Checked | Blocked | Taken 'a | Returned

text \<open>A thread inside \<open>push_task\<close> has pushed, or has pushed and counted, and is yet to notify.\<close>

datatype pusher = Free | Pushed | Counted

text \<open>
  The thread that waits is about to lock and to test, sleeps on \<open>task_done_cv\<close>, or has seen that the tasks
  are done; then it destroys.
\<close>

datatype closer = Open | Waiting | Asleep | Waited | Stopping | Joining | Closed

record 'a pool =
  pl_tasks :: "'a list"
  tasks_total :: size_t
  paused :: bool
  pl_running :: bool
  waiting :: bool
  tasks_mutex :: bool
  workers :: "'a worker list"
  pushers :: "pusher list"
  closer :: closer
  submitted :: "'a list"
  begun :: "'a list"
  completed :: "'a list"

definition thread_pool :: "nat \<Rightarrow> nat \<Rightarrow> 'a pool" where
  "thread_pool thread_count clients = \<lparr>pl_tasks = [], tasks_total = 0, paused = False, pl_running = True,
     waiting = False, tasks_mutex = False, workers = replicate thread_count Loop,
     pushers = replicate clients Free, closer = Open, submitted = [], begun = [], completed = []\<rparr>"

definition set_worker :: "nat \<Rightarrow> 'a worker \<Rightarrow> 'a pool \<Rightarrow> 'a pool" where
  "set_worker j w p = p\<lparr>workers := (workers p)[j := w]\<rparr>"

definition set_pusher :: "nat \<Rightarrow> pusher \<Rightarrow> 'a pool \<Rightarrow> 'a pool" where
  "set_pusher i u p = p\<lparr>pushers := (pushers p)[i := u]\<rparr>"

definition wake :: "'a worker \<Rightarrow> 'a worker" where
  "wake w = (case w of Blocked \<Rightarrow> Loop | _ \<Rightarrow> w)"

text \<open>\<open>wait_for_tasks\<close> waits for this; the size of the queue is read as a \<open>size_t\<close>.\<close>

definition tasks_done :: "'a pool \<Rightarrow> bool" where
  "tasks_done p \<longleftrightarrow> tasks_total p = (if paused p then of_nat (length (pl_tasks p)) else 0)"

text \<open>A worker that has counted its task off notifies who waits.\<close>

definition notify_done :: "'a pool \<Rightarrow> 'a pool" where
  "notify_done p = (if waiting p \<and> closer p = Asleep then p\<lparr>closer := Waiting\<rparr> else p)"

text \<open>The getters that take the mutex and count.\<close>

definition get_tasks_queued :: "'a pool \<Rightarrow> size_t" where
  "get_tasks_queued p = of_nat (length (pl_tasks p))"

definition get_tasks_running :: "'a pool \<Rightarrow> size_t" where
  "get_tasks_running p = tasks_total p - of_nat (length (pl_tasks p))"

text \<open>A client: \<open>push_task\<close> in its three parts, \<open>pause\<close> and \<open>unpause\<close>.\<close>

inductive client_step :: "'a pool \<Rightarrow> 'a pool \<Rightarrow> bool" where
  push: "i < length (pushers p) \<Longrightarrow> pushers p ! i = Free \<Longrightarrow> \<not> tasks_mutex p \<Longrightarrow>
    client_step p (set_pusher i Pushed (p\<lparr>pl_tasks := pl_tasks p @ [t], submitted := submitted p @ [t]\<rparr>))"
| count: "i < length (pushers p) \<Longrightarrow> pushers p ! i = Pushed \<Longrightarrow>
    client_step p (set_pusher i Counted (p\<lparr>tasks_total := tasks_total p + 1\<rparr>))"
| notify_one: "i < length (pushers p) \<Longrightarrow> pushers p ! i = Counted \<Longrightarrow>
    j < length (workers p) \<Longrightarrow> workers p ! j = Blocked \<Longrightarrow>
    client_step p (set_pusher i Free (set_worker j Loop p))"
| notify_none: "i < length (pushers p) \<Longrightarrow> pushers p ! i = Counted \<Longrightarrow> Blocked \<notin> set (workers p) \<Longrightarrow>
    client_step p (set_pusher i Free p)"
| pause: "i < length (pushers p) \<Longrightarrow> pushers p ! i = Free \<Longrightarrow> client_step p (p\<lparr>paused := b\<rparr>)"

text \<open>\<open>worker\<close>: the test of \<open>running\<close>, the wait, the task and the count.\<close>

inductive worker_step :: "'a pool \<Rightarrow> 'a pool \<Rightarrow> bool" where
  exit_loop: "j < length (workers p) \<Longrightarrow> workers p ! j = Loop \<Longrightarrow> \<not> pl_running p \<Longrightarrow>
    worker_step p (set_worker j Returned p)"
| find_empty: "j < length (workers p) \<Longrightarrow> workers p ! j = Loop \<Longrightarrow> pl_running p \<Longrightarrow> \<not> tasks_mutex p \<Longrightarrow>
    pl_tasks p = [] \<Longrightarrow> worker_step p (set_worker j Checked (p\<lparr>tasks_mutex := True\<rparr>))"
| sleep: "j < length (workers p) \<Longrightarrow> workers p ! j = Checked \<Longrightarrow>
    worker_step p (set_worker j Blocked (p\<lparr>tasks_mutex := False\<rparr>))"
| take_task: "j < length (workers p) \<Longrightarrow> workers p ! j = Loop \<Longrightarrow> pl_running p \<Longrightarrow> \<not> tasks_mutex p \<Longrightarrow>
    \<not> paused p \<Longrightarrow> pl_tasks p = t # ts \<Longrightarrow>
    worker_step p (set_worker j (Taken t) (p\<lparr>pl_tasks := ts, begun := begun p @ [t]\<rparr>))"
| finish_task: "j < length (workers p) \<Longrightarrow> workers p ! j = Taken t \<Longrightarrow> \<not> tasks_mutex p \<Longrightarrow>
    worker_step p (set_worker j Loop (notify_done (p\<lparr>tasks_total := tasks_total p - 1, completed := completed p @ [t]\<rparr>)))"

text \<open>The destructor: \<open>wait_for_tasks\<close>, then \<open>destroy_threads\<close>.\<close>

inductive closer_step :: "'a pool \<Rightarrow> 'a pool \<Rightarrow> bool" where
  wait: "closer p = Open \<Longrightarrow> closer_step p (p\<lparr>closer := Waiting, waiting := True\<rparr>)"
| wait_over: "closer p = Waiting \<Longrightarrow> \<not> tasks_mutex p \<Longrightarrow> tasks_done p \<Longrightarrow>
    closer_step p (p\<lparr>closer := Waited, waiting := False\<rparr>)"
| wait_on: "closer p = Waiting \<Longrightarrow> \<not> tasks_mutex p \<Longrightarrow> \<not> tasks_done p \<Longrightarrow> closer_step p (p\<lparr>closer := Asleep\<rparr>)"
| stop: "closer p = Waited \<Longrightarrow> closer_step p (p\<lparr>closer := Stopping, pl_running := False\<rparr>)"
| notify_all: "closer p = Stopping \<Longrightarrow>
    closer_step p (p\<lparr>closer := Joining, workers := map wake (workers p)\<rparr>)"
| join: "closer p = Joining \<Longrightarrow> set (workers p) \<subseteq> {Returned} \<Longrightarrow> closer_step p (p\<lparr>closer := Closed\<rparr>)"

inductive pool_step :: "'a pool \<Rightarrow> 'a pool \<Rightarrow> bool" where
  client: "client_step p p' \<Longrightarrow> pool_step p p'"
| work_on: "worker_step p p' \<Longrightarrow> pool_step p p'"
| close: "closer_step p p' \<Longrightarrow> pool_step p p'"

inductive_cases pool_stepE: "pool_step p p'"

section \<open>Every task once\<close>

fun held :: "'a worker \<Rightarrow> 'a multiset" where
  "held (Taken t) = {#t#}"
| "held _ = {#}"

text \<open>The tasks in the workers' hands, and the pushed tasks that are not counted yet.\<close>

definition in_hand :: "'a pool \<Rightarrow> 'a multiset" where
  "in_hand p = sum_list (map held (workers p))"

definition uncounted :: "'a pool \<Rightarrow> nat" where
  "uncounted p = count_list (pushers p) Pushed"

lemma count_list_update:
  "j < length xs \<Longrightarrow> count_list (xs[j := x]) y + (if xs ! j = y then 1 else 0) =
    count_list xs y + (if x = y then 1 else 0)"
proof (induction xs arbitrary: j)
  case (Cons v xs)
  show ?case
  proof (cases j)
    case (Suc i)
    with Cons.IH [of i] Cons.prems show ?thesis by (auto split: if_splits)
  qed simp
qed simp

definition pool_inv :: "'a pool \<Rightarrow> bool" where
  "pool_inv p \<longleftrightarrow> begun p @ pl_tasks p = submitted p \<and> mset (begun p) = mset (completed p) + in_hand p \<and>
    tasks_total p + of_nat (uncounted p) = of_nat (length (pl_tasks p) + size (in_hand p))"

lemma pool_fields [simp]:
  "pl_tasks (set_worker j w p) = pl_tasks p" "tasks_total (set_worker j w p) = tasks_total p"
  "pushers (set_worker j w p) = pushers p" "submitted (set_worker j w p) = submitted p"
  "begun (set_worker j w p) = begun p" "completed (set_worker j w p) = completed p"
  "tasks_mutex (set_worker j w p) = tasks_mutex p" "pl_running (set_worker j w p) = pl_running p"
  "paused (set_worker j w p) = paused p" "closer (set_worker j w p) = closer p"
  "workers (set_worker j w p) = (workers p)[j := w]"
  "pl_tasks (set_pusher i u p) = pl_tasks p" "tasks_total (set_pusher i u p) = tasks_total p"
  "workers (set_pusher i u p) = workers p" "submitted (set_pusher i u p) = submitted p"
  "begun (set_pusher i u p) = begun p" "completed (set_pusher i u p) = completed p"
  "tasks_mutex (set_pusher i u p) = tasks_mutex p" "pl_running (set_pusher i u p) = pl_running p"
  "paused (set_pusher i u p) = paused p" "closer (set_pusher i u p) = closer p"
  "pushers (set_pusher i u p) = (pushers p)[i := u]"
  "pl_tasks (notify_done p) = pl_tasks p" "tasks_total (notify_done p) = tasks_total p"
  "workers (notify_done p) = workers p" "submitted (notify_done p) = submitted p"
  "begun (notify_done p) = begun p" "completed (notify_done p) = completed p"
  "tasks_mutex (notify_done p) = tasks_mutex p" "pl_running (notify_done p) = pl_running p"
  "paused (notify_done p) = paused p" "pushers (notify_done p) = pushers p" "waiting (notify_done p) = waiting p"
  "closer (notify_done p) = (if waiting p \<and> closer p = Asleep then Waiting else closer p)"
  by (simp_all add: set_worker_def set_pusher_def notify_done_def)

lemma in_hand_set_worker:
  "j < length (workers p) \<Longrightarrow> held w = held (workers p ! j) \<Longrightarrow> in_hand (set_worker j w p) = in_hand p"
  using sum_list_map_update [of j "workers p" held w] by (simp add: in_hand_def)

lemma in_hand_take:
  "j < length (workers p) \<Longrightarrow> held (workers p ! j) = {#} \<Longrightarrow>
    in_hand (set_worker j (Taken t) p) = add_mset t (in_hand p)"
  using sum_list_map_update [of j "workers p" held "Taken t"] by (simp add: in_hand_def)

lemma in_hand_finish:
  "j < length (workers p) \<Longrightarrow> workers p ! j = Taken t \<Longrightarrow> held w = {#} \<Longrightarrow>
    in_hand p = add_mset t (in_hand (set_worker j w p))"
  using sum_list_map_update [of j "workers p" held w] by (simp add: in_hand_def)

lemma uncounted_set_pusher:
  "i < length (pushers p) \<Longrightarrow> uncounted (set_pusher i u p) + (if pushers p ! i = Pushed then 1 else 0) =
    uncounted p + (if u = Pushed then 1 else 0)"
  using count_list_update [of i "pushers p" u Pushed] by (simp add: uncounted_def)

lemma in_hand_cong: "workers p' = workers p \<Longrightarrow> in_hand p' = in_hand p"
  by (simp add: in_hand_def)

lemma uncounted_cong: "pushers p' = pushers p \<Longrightarrow> uncounted p' = uncounted p"
  by (simp add: uncounted_def)

lemma held_wake [simp]: "held (wake w) = held w"
  by (cases w) (simp_all add: wake_def)


lemma client_step_inv: "client_step p p' \<Longrightarrow> pool_inv p \<Longrightarrow> pool_inv p'"
proof (induction rule: client_step.induct)
  case (push i p t)
  let ?p = "p\<lparr>pl_tasks := pl_tasks p @ [t], submitted := submitted p @ [t]\<rparr>"
  have "uncounted (set_pusher i Pushed ?p) = uncounted p + 1"
    using uncounted_set_pusher [of i ?p Pushed] push(1,2) by (simp add: uncounted_cong [of ?p p])
  moreover have "in_hand (set_pusher i Pushed ?p) = in_hand p" by (simp add: in_hand_def)
  ultimately show ?case using push(4) by (simp add: pool_inv_def)
next
  case (count i p)
  let ?p = "p\<lparr>tasks_total := tasks_total p + 1\<rparr>"
  have "uncounted p = uncounted (set_pusher i Counted ?p) + 1"
    using uncounted_set_pusher [of i ?p Counted] count(1,2) by (simp add: uncounted_cong [of ?p p])
  moreover have "in_hand (set_pusher i Counted ?p) = in_hand p" by (simp add: in_hand_def)
  ultimately show ?case using count(3) by (simp add: pool_inv_def algebra_simps del: add_Suc)
next
  case (notify_one i p j)
  let ?p = "set_pusher i Free (set_worker j Loop p)"
  have "uncounted ?p = uncounted p"
    using uncounted_set_pusher [of i "set_worker j Loop p" Free] notify_one(1,2)
    by (simp add: uncounted_cong [of "set_worker j Loop p" p])
  moreover have "in_hand ?p = in_hand p"
    using in_hand_set_worker [of j p Loop] notify_one(3,4) by (simp add: in_hand_def)
  ultimately show ?case using notify_one(5) by (simp add: pool_inv_def)
next
  case (notify_none i p)
  have "uncounted (set_pusher i Free p) = uncounted p"
    using uncounted_set_pusher [of i p Free] notify_none(1,2) by simp
  with notify_none show ?case by (simp add: pool_inv_def in_hand_cong [of "set_pusher i Free p" p])
next
  case (pause i p b)
  then show ?case by (simp add: pool_inv_def in_hand_def uncounted_def)
qed

lemma worker_step_inv: "worker_step p p' \<Longrightarrow> pool_inv p \<Longrightarrow> pool_inv p'"
proof (induction rule: worker_step.induct)
  case (exit_loop j p)
  with in_hand_set_worker [of j p Returned] show ?case
    by (simp add: pool_inv_def uncounted_cong [of "set_worker j Returned p" p])
next
  case (find_empty j p)
  let ?p = "p\<lparr>tasks_mutex := True\<rparr>"
  have "in_hand (set_worker j Checked ?p) = in_hand p"
    using in_hand_set_worker [of j ?p Checked] find_empty(1,2) by (simp add: in_hand_cong [of ?p p])
  with find_empty(6) show ?case by (simp add: pool_inv_def uncounted_cong [of "set_worker j Checked ?p" p])
next
  case (sleep j p)
  let ?p = "p\<lparr>tasks_mutex := False\<rparr>"
  have "in_hand (set_worker j Blocked ?p) = in_hand p"
    using in_hand_set_worker [of j ?p Blocked] sleep(1,2) by (simp add: in_hand_cong [of ?p p])
  with sleep show ?case by (simp add: pool_inv_def uncounted_cong [of "set_worker j Blocked ?p" p])
next
  case (take_task j p t ts)
  let ?p = "p\<lparr>pl_tasks := ts, begun := begun p @ [t]\<rparr>"
  have "in_hand (set_worker j (Taken t) ?p) = add_mset t (in_hand p)"
    using in_hand_take [of j ?p t] take_task(1,2) by (simp add: in_hand_cong [of ?p p])
  with take_task show ?case
    by (simp add: pool_inv_def uncounted_cong [of "set_worker j (Taken t) ?p" p])
next
  case (finish_task j p t)
  let ?p = "notify_done (p\<lparr>tasks_total := tasks_total p - 1, completed := completed p @ [t]\<rparr>)"
  have "in_hand p = add_mset t (in_hand (set_worker j Loop ?p))"
    using in_hand_finish [of j ?p t Loop] finish_task(1,2) by (simp add: in_hand_cong [of ?p p])
  with finish_task show ?case
    by (simp add: pool_inv_def uncounted_cong [of "set_worker j Loop ?p" p] algebra_simps)
qed

lemma closer_step_inv: "closer_step p p' \<Longrightarrow> pool_inv p \<Longrightarrow> pool_inv p'"
proof (induction rule: closer_step.induct)
  case (notify_all p)
  then show ?case by (simp add: pool_inv_def in_hand_def uncounted_def o_def)
qed (simp_all add: pool_inv_def in_hand_def uncounted_def)

lemma pool_step_inv: "pool_step p p' \<Longrightarrow> pool_inv p \<Longrightarrow> pool_inv p'"
  by (metis pool_stepE client_step_inv worker_step_inv closer_step_inv)

lemma count_list_replicate: "x \<noteq> y \<Longrightarrow> count_list (replicate n x) y = 0"
  by (induction n) simp_all

lemma pool_inv_start: "pool_inv (thread_pool n m)"
proof -
  have "sum_list (map held (replicate n Loop)) = ({#} :: 'a multiset)" by (induction n) simp_all
  then show ?thesis
    by (simp add: pool_inv_def thread_pool_def in_hand_def uncounted_def count_list_replicate)
qed

lemma pool_steps_inv: "pool_step\<^sup>*\<^sup>* p p' \<Longrightarrow> pool_inv p \<Longrightarrow> pool_inv p'"
  by (induction rule: rtranclp_induct) (auto intro: pool_step_inv)


text \<open>
  \<open>get_tasks_running\<close> is too small by the tasks that are pushed and not counted yet, and wraps when they are more
  than the running ones.
\<close>

lemma tasks_running_eq:
  "pool_inv p \<Longrightarrow> get_tasks_running p = of_nat (size (in_hand p)) - of_nat (uncounted p)"
  by (simp add: pool_inv_def get_tasks_running_def algebra_simps)

section \<open>No sleeping on a full queue\<close>

text \<open>
  The worker that has seen an empty queue keeps the mutex until it sleeps, so that no task is pushed
  in between; a push is followed by a notification.  While there is a task, then, a worker is awake
  or a pusher has yet to notify.
\<close>

definition awake :: "'a worker \<Rightarrow> bool" where
  "awake w \<longleftrightarrow> w = Loop \<or> held w \<noteq> {#}"

definition pool_alert :: "'a pool \<Rightarrow> bool" where
  "pool_alert p \<longleftrightarrow> workers p \<noteq> [] \<and> count_list (workers p) Checked = (if tasks_mutex p then 1 else 0) \<and>
    (tasks_mutex p \<longrightarrow> pl_tasks p = []) \<and> (pl_running p \<longrightarrow> Returned \<notin> set (workers p)) \<and>
    (pl_running p \<longrightarrow> pl_tasks p \<noteq> [] \<longrightarrow> (\<exists>w \<in> set (workers p). awake w) \<or> (\<exists>u \<in> set (pushers p). u \<noteq> Free))"

lemma awake_cases: "w \<noteq> Checked \<Longrightarrow> w \<noteq> Returned \<Longrightarrow> w \<noteq> Blocked \<Longrightarrow> awake w"
  by (cases w) (simp_all add: awake_def)

lemma awake_simps [simp]: "awake Loop" "awake (Taken t)" "\<not> awake Checked" "\<not> awake Blocked" "\<not> awake Returned"
  by (simp_all add: awake_def)

lemma count_Checked: "pool_alert p \<Longrightarrow> j < length (workers p) \<Longrightarrow> workers p ! j = Checked \<Longrightarrow> tasks_mutex p"
  by (metis One_nat_def count_list_0_iff nth_mem pool_alert_def)

lemma count_list_set_worker:
  "j < length (workers p) \<Longrightarrow> count_list ((workers p)[j := w]) Checked + (if workers p ! j = Checked then 1 else 0) =
    count_list (workers p) Checked + (if w = Checked then 1 else 0)"
  by (rule count_list_update)

lemma set_update_pusher: "i < length us \<Longrightarrow> u \<noteq> Free \<Longrightarrow> \<exists>v \<in> set (us[i := u]). v \<noteq> Free"
  using set_update_memI [of i us u] by blast

lemma count_list_wake: "count_list (map wake ws) Checked = count_list ws Checked"
  by (induction ws) (auto simp: wake_def split: worker.splits)

lemma Returned_update:
  "Returned \<notin> set ws \<Longrightarrow> w \<noteq> Returned \<Longrightarrow> Returned \<notin> set (ws[j := w])"
  using set_update_subset_insert [of ws j w] by auto

lemma client_step_alert: "client_step p p' \<Longrightarrow> pool_alert p \<Longrightarrow> pool_alert p'"
proof (induction rule: client_step.induct)
  case (push i p t)
  with set_update_pusher [of i "pushers p" Pushed] show ?case by (simp add: pool_alert_def)
next
  case (count i p)
  with set_update_pusher [of i "pushers p" Counted] show ?case by (simp add: pool_alert_def)
next
  case (notify_one i p j)
  then have "Loop \<in> set ((workers p)[j := Loop])" by (simp add: set_update_memI)
  with notify_one count_list_set_worker [of j p Loop] show ?case
    by (auto simp: pool_alert_def Returned_update intro: bexI [of _ Loop])
next
  case (notify_none i p)
  have "\<exists>w \<in> set (workers p). awake w" if "pl_running p" "pl_tasks p \<noteq> []"
  proof -
    from notify_none(4) that have "Checked \<notin> set (workers p)" "Returned \<notin> set (workers p)" "workers p \<noteq> []"
      by (auto simp: pool_alert_def count_list_0_iff split: if_splits)
    with notify_none(3) show ?thesis by (metis awake_cases last_in_set)
  qed
  with notify_none(4) show ?case by (simp add: pool_alert_def)
qed (simp_all add: pool_alert_def)

lemma worker_step_alert: "worker_step p p' \<Longrightarrow> pool_alert p \<Longrightarrow> pool_alert p'"
proof (induction rule: worker_step.induct)
  case (exit_loop j p)
  with count_list_set_worker [of j p Returned] show ?case by (simp add: pool_alert_def)
next
  case (find_empty j p)
  with count_list_set_worker [of j p Checked] show ?case by (simp add: pool_alert_def Returned_update)
next
  case (sleep j p)
  with count_Checked [OF sleep(3,1,2)] count_list_set_worker [of j p Blocked] show ?case
    by (simp add: pool_alert_def Returned_update)
next
  case (take_task j p t ts)
  then have "Taken t \<in> set ((workers p)[j := Taken t])" by (simp add: set_update_memI)
  with take_task count_list_set_worker [of j p "Taken t"] show ?case
    by (auto simp: pool_alert_def Returned_update intro: bexI [of _ "Taken t"])
next
  case (finish_task j p t)
  then have "Loop \<in> set ((workers p)[j := Loop])" by (simp add: set_update_memI)
  with finish_task count_list_set_worker [of j p Loop] show ?case
    by (auto simp: pool_alert_def Returned_update intro: bexI [of _ Loop])
qed

lemma closer_step_alert: "closer_step p p' \<Longrightarrow> pool_alert p \<Longrightarrow> pool_alert p'"
proof (induction rule: closer_step.induct)
  case (notify_all p)
  have "awake (wake w)" if "awake w" for w :: "'a worker" using that by (cases w) (simp_all add: wake_def)
  moreover have "Returned = wake w \<longleftrightarrow> w = Returned" for w :: "'a worker" by (cases w) (simp_all add: wake_def)
  ultimately show ?case using notify_all(2) by (auto simp: pool_alert_def count_list_wake)
qed (simp_all add: pool_alert_def)

lemma pool_step_alert: "pool_step p p' \<Longrightarrow> pool_alert p \<Longrightarrow> pool_alert p'"
  by (metis pool_stepE client_step_alert worker_step_alert closer_step_alert)

lemma pool_alert_start: "0 < n \<Longrightarrow> pool_alert (thread_pool n m)"
  by (simp add: pool_alert_def thread_pool_def count_list_replicate)

lemma pool_steps_alert: "pool_step\<^sup>*\<^sup>* p p' \<Longrightarrow> pool_alert p \<Longrightarrow> pool_alert p'"
  by (induction rule: rtranclp_induct) (auto intro: pool_step_alert)


section \<open>Every task gets done\<close>

text \<open>What is left to do, and the next step towards it.\<close>

definition worker_weight :: "'a worker \<Rightarrow> nat" where
  "worker_weight w = (if held w \<noteq> {#} \<or> w = Checked then 1 else 0)"

definition pusher_weight :: "pusher \<Rightarrow> nat" where
  "pusher_weight u = (case u of Free \<Rightarrow> 0 | Counted \<Rightarrow> 1 | Pushed \<Rightarrow> 2)"

definition work :: "'a pool \<Rightarrow> nat" where
  "work p = 2 * length (pl_tasks p) + sum_list (map worker_weight (workers p)) +
    sum_list (map pusher_weight (pushers p))"

definition goes_on :: "'a pool \<Rightarrow> 'a pool \<Rightarrow> bool" where
  "goes_on p p' \<longleftrightarrow> pool_step p p' \<and> work p' < work p \<and> pl_running p' = pl_running p \<and> paused p' = paused p \<and>
    submitted p' = submitted p"

lemma work_worker:
  "j < length (workers p) \<Longrightarrow> sum_list (map worker_weight ((workers p)[j := w])) + worker_weight (workers p ! j) =
    sum_list (map worker_weight (workers p)) + worker_weight w"
  by (rule sum_list_map_update)

lemma work_pusher:
  "i < length (pushers p) \<Longrightarrow> sum_list (map pusher_weight ((pushers p)[i := u])) + pusher_weight (pushers p ! i) =
    sum_list (map pusher_weight (pushers p)) + pusher_weight u"
  by (rule sum_list_map_update)

lemma worker_weights [simp]:
  "worker_weight Loop = 0" "worker_weight Checked = 1" "worker_weight Blocked = 0" "worker_weight (Taken t) = 1"
  by (simp_all add: worker_weight_def)

lemma pusher_weights [simp]:
  "pusher_weight Free = 0" "pusher_weight Counted = 1" "pusher_weight Pushed = 2"
  by (simp_all add: pusher_weight_def)

lemma goes_on_notify:
  assumes i: "i < length (pushers p)" "pushers p ! i \<noteq> Free"
  shows "\<exists>p'. goes_on p p'"
proof (cases "pushers p ! i")
  case Pushed
  with i work_pusher [of i p Counted] have "goes_on p (set_pusher i Counted (p\<lparr>tasks_total := tasks_total p + 1\<rparr>))"
    using pool_step.client [OF client_step.count [of i p]] by (simp add: goes_on_def work_def)
  then show ?thesis by blast
next
  case Counted
  show ?thesis
  proof (cases "Blocked \<in> set (workers p)")
    case True
    then obtain j where j: "j < length (workers p)" "workers p ! j = Blocked" by (auto simp: in_set_conv_nth)
    with i Counted work_pusher [of i p Free] work_worker [of j p Loop]
    have "goes_on p (set_pusher i Free (set_worker j Loop p))"
      using pool_step.client [OF client_step.notify_one [of i p j]] by (simp add: goes_on_def work_def)
    then show ?thesis by blast
  next
    case False
    with i Counted work_pusher [of i p Free] have "goes_on p (set_pusher i Free p)"
      using pool_step.client [OF client_step.notify_none [of i p]] by (simp add: goes_on_def work_def)
    then show ?thesis by blast
  qed
qed (use i in simp)

lemma goes_on_worker:
  assumes "\<not> tasks_mutex p" "pl_running p" "\<not> paused p" and j: "j < length (workers p)"
    and "held (workers p ! j) \<noteq> {#} \<or> workers p ! j = Loop \<and> pl_tasks p \<noteq> []"
  shows "\<exists>p'. goes_on p p'"
proof (cases "workers p ! j = Loop")
  case True
  with assms(5) obtain t ts where tasks: "pl_tasks p = t # ts" by (auto simp: neq_Nil_conv)
  with True assms(1-4) work_worker [of j p "Taken t"]
  have "goes_on p (set_worker j (Taken t) (p\<lparr>pl_tasks := ts, begun := begun p @ [t]\<rparr>))"
    using pool_step.work_on [OF worker_step.take_task [of j p t ts]] by (simp add: goes_on_def work_def)
  then show ?thesis by blast
next
  case False
  with assms(5) obtain t where t: "workers p ! j = Taken t" by (cases "workers p ! j") auto
  with assms(1-4) work_worker [of j p Loop]
  have "goes_on p (set_worker j Loop (notify_done (p\<lparr>tasks_total := tasks_total p - 1, completed := completed p @ [t]\<rparr>)))"
    using pool_step.work_on [OF worker_step.finish_task [of j p t]] by (simp add: goes_on_def work_def)
  then show ?thesis by blast
qed

lemma sum_list_empty: "sum_list (map f ws) = {#} \<longleftrightarrow> (\<forall>w \<in> set ws. f w = {#})"
  by (induction ws) auto

lemma in_hand_empty: "in_hand p = {#} \<longleftrightarrow> (\<forall>w \<in> set (workers p). held w = {#})"
  by (simp add: in_hand_def sum_list_empty)

lemma pool_goes_on:
  assumes alert: "pool_alert p" and run: "pl_running p" "\<not> paused p"
    and left: "pl_tasks p \<noteq> [] \<or> in_hand p \<noteq> {#}"
  shows "\<exists>p'. goes_on p p'"
proof (cases "tasks_mutex p")
  case True
  with alert have "count_list (workers p) Checked \<noteq> 0" by (simp add: pool_alert_def)
  then obtain j where j: "j < length (workers p)" "workers p ! j = Checked"
    by (metis count_notin in_set_conv_nth)
  with work_worker [of j p Blocked] have "goes_on p (set_worker j Blocked (p\<lparr>tasks_mutex := False\<rparr>))"
    using pool_step.work_on [OF worker_step.sleep [of j p]] by (simp add: goes_on_def work_def)
  then show ?thesis by blast
next
  case False
  show ?thesis
  proof (cases "(\<exists>w \<in> set (workers p). held w \<noteq> {#}) \<or> pl_tasks p \<noteq> [] \<and> Loop \<in> set (workers p)")
    case True
    then obtain j where "j < length (workers p)"
      "held (workers p ! j) \<noteq> {#} \<or> workers p ! j = Loop \<and> pl_tasks p \<noteq> []"
      by (auto simp: in_set_conv_nth)
    with goes_on_worker [OF False run] show ?thesis by blast
  next
    case no: False
    with left have "pl_tasks p \<noteq> []" by (auto simp: in_hand_empty)
    with alert no run obtain u where "u \<in> set (pushers p)" "u \<noteq> Free"
      by (auto simp: pool_alert_def awake_def)
    then obtain i where "i < length (pushers p)" "pushers p ! i \<noteq> Free"
      by (auto simp: in_set_conv_nth)
    then show ?thesis by (rule goes_on_notify)
  qed
qed

lemma pool_drains:
  "pool_alert p \<Longrightarrow> pool_inv p \<Longrightarrow> pl_running p \<Longrightarrow> \<not> paused p \<Longrightarrow>
    \<exists>p'. pool_step\<^sup>*\<^sup>* p p' \<and> mset (completed p') = mset (submitted p)"
proof (induction "work p" arbitrary: p rule: less_induct)
  case less
  show ?case
  proof (cases "pl_tasks p \<noteq> [] \<or> in_hand p \<noteq> {#}")
    case True
    from pool_goes_on [OF less.prems(1,3,4) True] obtain q where q: "goes_on p q" by blast
    then have "pool_step p q" "work q < work p" "pl_running q" "\<not> paused q" "submitted q = submitted p"
      using less.prems(3,4) by (simp_all add: goes_on_def)
    with less.hyps [of q] pool_step_alert [of p q] pool_step_inv [of p q] less.prems(1,2)
    show ?thesis by (auto intro: converse_rtranclp_into_rtranclp)
  next
    case False
    with less.prems(2) show ?thesis by (auto simp: pool_inv_def)
  qed
qed


section \<open>Waiting and destroying\<close>

lemma tasks_done_all:
  assumes inv: "pool_inv p" and "tasks_done p" and "\<not> paused p" and "uncounted p = 0" and "length (submitted p) < 2 ^ 64"
  shows "mset (completed p) = mset (submitted p)"
proof -
  let ?n = "length (pl_tasks p) + size (in_hand p)"
  from inv have split: "begun p @ pl_tasks p = submitted p" "mset (begun p) = mset (completed p) + in_hand p"
    by (simp_all add: pool_inv_def)
  then have "length (submitted p) = length (begun p) + length (pl_tasks p)"
    "length (begun p) = length (completed p) + size (in_hand p)"
    by (metis length_append, metis size_mset size_union)
  then have small: "?n < 2 ^ 64" using assms(5) by simp
  have "(of_nat ?n :: size_t) = 0" using inv assms(2-4) by (simp add: pool_inv_def tasks_done_def)
  then have "unat (of_nat ?n :: size_t) = 0" by (simp only: unsigned_0)
  then have "?n = 0" using small by (simp only: unat_of_nat) simp
  then show ?thesis using split by (metis add.right_neutral add_is_0 append_Nil2 length_0_conv size_eq_0_iff_empty)
qed

text \<open>A worker that sleeps through the one notification of the destruction sleeps for good.\<close>

definition overslept :: "'a pool \<Rightarrow> bool" where
  "overslept p \<longleftrightarrow> closer p = Joining \<and> \<not> pl_running p \<and> pushers p = [] \<and> Blocked \<in> set (workers p)"

lemma Blocked_update: "Blocked \<in> set ws \<Longrightarrow> ws ! j \<noteq> Blocked \<Longrightarrow> Blocked \<in> set (ws[j := w])"
  by (auto simp: in_set_conv_nth) (metis nth_list_update_neq)

lemma overslept_step: "pool_step p p' \<Longrightarrow> overslept p \<Longrightarrow> overslept p'"
  by (elim pool_stepE client_step.cases worker_step.cases closer_step.cases)
    (auto simp: overslept_def Blocked_update set_update_memI)

lemma overslept_steps: "pool_step\<^sup>*\<^sup>* p p' \<Longrightarrow> overslept p \<Longrightarrow> overslept p'"
  by (induction rule: rtranclp_induct) (auto intro: overslept_step)

text \<open>
  Nor does anyone but a worker that finishes a task wake the thread that waits: with no task left, only
  another push can.
\<close>

definition unwoken :: "'a pool \<Rightarrow> bool" where
  "unwoken p \<longleftrightarrow> closer p = Asleep \<and> pl_tasks p = [] \<and> in_hand p = {#}"

lemma submitted_grows: "pool_step p p' \<Longrightarrow> submitted p' = submitted p \<or> (\<exists>t. submitted p' = submitted p @ [t])"
  by (elim pool_stepE client_step.cases worker_step.cases closer_step.cases) auto

lemma unwoken_step: "pool_step p p' \<Longrightarrow> unwoken p \<Longrightarrow> submitted p' = submitted p \<Longrightarrow> unwoken p'"
  by (elim pool_stepE client_step.cases worker_step.cases closer_step.cases)
    (auto simp: unwoken_def in_hand_empty dest!: set_update_subset_insert [THEN subsetD] nth_mem)

lemma unwoken_steps:
  "pool_step\<^sup>*\<^sup>* p p' \<Longrightarrow> unwoken p \<Longrightarrow> prefix (submitted p) (submitted p') \<and> (submitted p' = submitted p \<longrightarrow> unwoken p')"
proof (induction rule: rtranclp_induct)
  case (step y z)
  from submitted_grows [OF step(2)] show ?case
  proof (elim disjE exE)
    assume "submitted z = submitted y"
    with step(3,4) unwoken_step [OF step(2)] show ?thesis by auto
  next
    fix t assume "submitted z = submitted y @ [t]"
    with step(3,4) show ?thesis by (auto simp: prefix_def)
  qed
qed simp

end
