(* ===== verification/PoolLoops.thy ===== *)
theory PoolLoops
  imports Prelude
begin

text \<open>
  The loops of \<open>ortoa-lbl/BS_thread_pool.hpp\<close>: how many threads a pool has and how
  \<open>parallelize_loop\<close> and \<open>push_loop\<close> cut a range of indices of type \<open>size_t\<close> into the blocks they
  hand to the pool.
\<close>

section \<open>Blocks\<close>

record block_range =
  block_size :: size_t
  first_index :: size_t
  index_after_last :: size_t
  num_blocks :: size_t
  total_size :: size_t

text \<open>The constructor; a division by zero is undefined.\<close>

definition make_blocks :: "size_t \<Rightarrow> size_t \<Rightarrow> size_t \<Rightarrow> block_range res" where
  "make_blocks first after n =
    (let (first, after) = (if after < first then (after, first) else (first, after));
         total = after - first
     in if n = 0 then Inl Undefined
        else let size = total div n in
          Inr (if size = 0
            then \<lparr>block_size = 1, first_index = first, index_after_last = after,
              num_blocks = (if 1 < total then total else 1), total_size = total\<rparr>
            else \<lparr>block_size = size, first_index = first, index_after_last = after,
              num_blocks = n, total_size = total\<rparr>))"

definition block_start :: "block_range \<Rightarrow> size_t \<Rightarrow> size_t" where
  "block_start b i = i * block_size b + first_index b"

definition block_end :: "block_range \<Rightarrow> size_t \<Rightarrow> size_t" where
  "block_end b i = (if i = num_blocks b - 1 then index_after_last b else (i + 1) * block_size b + first_index b)"

section \<open>Loops\<close>

definition determine_thread_count :: "32 word \<Rightarrow> 32 word \<Rightarrow> 32 word" where
  "determine_thread_count hardware n = (if 0 < n then n else if 0 < hardware then hardware else 1)"

lemma determine_thread_count_pos: "determine_thread_count hardware n \<noteq> 0"
  by (auto simp: determine_thread_count_def word_unat_eq_iff word_less_nat_alt)

text \<open>The ranges \<open>parallelize_loop\<close> submits and \<open>push_loop\<close> pushes, in this order.\<close>

definition loop_blocks :: "32 word \<Rightarrow> size_t \<Rightarrow> size_t \<Rightarrow> size_t \<Rightarrow> (size_t \<times> size_t) list res" where
  "loop_blocks thread_count first after n =
    bind_res (make_blocks first after (if n \<noteq> 0 then n else ucast thread_count)) (\<lambda>blks.
      Inr (if 0 < total_size blks
        then map (\<lambda>i. (block_start blks (of_nat i), block_end blks (of_nat i))) [0..<unat (num_blocks blks)]
        else []))"

section \<open>Every index in one block\<close>

text \<open>The blocks as numbers: all of one size, except the last, which takes what is left.\<close>

lemma upt_blocks:
  fixes m size first after :: nat
  assumes "0 < m" and "m * size + first \<le> after"
  shows "concat (map (\<lambda>i. [i * size + first..<if i = m - 1 then after else (i + 1) * size + first]) [0..<m]) = [first..<after]"
proof -
  have front: "concat (map (\<lambda>i. [i * size + first..<(i + 1) * size + first]) [0..<k]) = [first..<k * size + first]" for k
  proof (induction k)
    case (Suc k)
    then show ?case using upt_add_eq_append [of first "k * size + first" size] by (simp add: ac_simps)
  qed simp
  obtain k where k: "m = Suc k" using assms(1) by (cases m) simp_all
  have "map (\<lambda>i. [i * size + first..<if i = m - 1 then after else (i + 1) * size + first]) [0..<k] =
      map (\<lambda>i. [i * size + first..<(i + 1) * size + first]) [0..<k]" by (simp add: k)
  moreover have "[0..<m] = [0..<k] @ [k]" by (simp add: k)
  ultimately have "concat (map (\<lambda>i. [i * size + first..<if i = m - 1 then after else (i + 1) * size + first]) [0..<m]) =
      [first..<k * size + first] @ [k * size + first..<after]"
    by (simp only: map_append concat_append front) (simp add: k)
  then show ?thesis
    using upt_add_eq_append [of first "k * size + first" "after - (k * size + first)"] assms(2) by (simp add: k)
qed

definition blocks_ok :: "nat \<Rightarrow> nat \<Rightarrow> block_range \<Rightarrow> bool" where
  "blocks_ok first after b \<longleftrightarrow> unat (first_index b) = first \<and> unat (index_after_last b) = after \<and>
    unat (total_size b) = after - first \<and> 0 < unat (num_blocks b) \<and> 0 < unat (block_size b) \<and> first \<le> after \<and>
    (first < after \<longrightarrow> unat (num_blocks b) * unat (block_size b) + first \<le> after)"

lemma make_blocks_Inr: "n \<noteq> 0 \<Longrightarrow> \<exists>b. make_blocks first after n = Inr b"
  by (cases "after < first") (simp_all add: make_blocks_def Let_def)

lemma make_blocks_ok:
  assumes "make_blocks first after n = Inr b"
  shows "blocks_ok (min (unat first) (unat after)) (max (unat first) (unat after)) b \<and> num_blocks b \<le> n"
proof -
  define f where "f = (if after < first then after else first)"
  define a where "a = (if after < first then first else after)"
  have le: "f \<le> a" and nat: "unat f = min (unat first) (unat after)" "unat a = max (unat first) (unat after)"
    by (auto simp: f_def a_def word_less_nat_alt word_le_nat_alt min_def max_def)
  let ?size = "(a - f) div n"
  have n: "n \<noteq> 0" and b: "b = (if ?size = 0
      then \<lparr>block_size = 1, first_index = f, index_after_last = a,
        num_blocks = (if 1 < a - f then a - f else 1), total_size = a - f\<rparr>
      else \<lparr>block_size = ?size, first_index = f, index_after_last = a, num_blocks = n, total_size = a - f\<rparr>)"
    using assms by (auto simp: make_blocks_def f_def a_def Let_def split: if_splits)
  have total: "unat (a - f) = unat a - unat f" by (rule unat_sub [OF le])
  have pos: "0 < unat n" using n by (simp add: unat_gt_0)
  have small: "unat (a - f) < unat n" if "?size = 0"
    using that pos unat_div [of "a - f" n] by (metis div_eq_0_iff not_gr_zero unat_0)
  have big: "unat n * unat ?size \<le> unat a - unat f"
    unfolding total [symmetric] unat_div by (rule times_div_less_eq_dividend)
  have le': "unat f \<le> unat a" using le by (simp add: word_le_nat_alt)
  show ?thesis
  proof (cases "?size = 0")
    case True
    with b small [OF True] le' pos show ?thesis
      by (auto simp: blocks_ok_def nat [symmetric] total word_less_nat_alt word_le_nat_alt)
  next
    case False
    then have "0 < unat ?size" by (simp add: unat_gt_0)
    moreover have "unat n * unat ?size + unat f \<le> unat a" using big le' by simp
    ultimately show ?thesis
      using False b le' pos by (simp add: blocks_ok_def nat [symmetric] total)
  qed
qed

lemma unat_block:
  assumes ok: "blocks_ok first after b" and "first < after" and i: "i < unat (num_blocks b)"
  shows "unat (block_start b (of_nat i)) = i * unat (block_size b) + first"
    and "unat (block_end b (of_nat i)) =
      (if i = unat (num_blocks b) - 1 then after else (i + 1) * unat (block_size b) + first)"
proof -
  let ?m = "unat (num_blocks b)" and ?size = "unat (block_size b)"
  have after: "after < 2 ^ 64" using ok unsigned_less [of "index_after_last b", where ?'a = nat] by (auto simp: blocks_ok_def)
  have fit: "k * ?size + first < 2 ^ 64" if "k \<le> ?m" for k
  proof -
    from that have "k * ?size + first \<le> ?m * ?size + first" by (intro add_right_mono mult_le_mono1)
    moreover have "?m * ?size + first \<le> after" using ok assms(2) by (simp add: blocks_ok_def)
    ultimately have "k * ?size + first \<le> after" by (rule order_trans)
    with after show ?thesis by simp
  qed
  have "first = unat (first_index b)" using ok by (simp add: blocks_ok_def)
  then have word: "of_nat k * block_size b + first_index b = of_nat (k * ?size + first)" for k
    by (simp add: ucast_id)
  have nat: "unat (of_nat k * block_size b + first_index b) = k * ?size + first" if "k \<le> ?m" for k
    unfolding word unat_of_nat using fit [OF that] by simp
  then show "unat (block_start b (of_nat i)) = i * ?size + first" using i by (simp add: block_start_def)
  have "unat (num_blocks b - 1) = ?m - 1" using ok by (simp add: blocks_ok_def unat_sub word_le_nat_alt)
  moreover have "i < 2 ^ 64" using i unsigned_less [of "num_blocks b", where ?'a = nat] by simp
  ultimately have last: "(of_nat i = num_blocks b - 1) = (i = ?m - 1)"
    unfolding word_unat_eq_iff by (simp add: unat_of_nat)
  have "(of_nat i + 1) * block_size b + first_index b = of_nat (i + 1) * block_size b + first_index b"
    by (simp add: add.commute)
  then show "unat (block_end b (of_nat i)) = (if i = ?m - 1 then after else (i + 1) * ?size + first)"
    unfolding block_end_def last using nat [of "i + 1"] i ok by (simp add: blocks_ok_def)
qed

lemma loop_blocks_concat:
  assumes "make_blocks first after n = Inr b" and "first \<noteq> after"
  shows "concat (map (\<lambda>i. [unat (block_start b (of_nat i))..<unat (block_end b (of_nat i))]) [0..<unat (num_blocks b)]) =
    [min (unat first) (unat after)..<max (unat first) (unat after)]"
proof -
  let ?f = "min (unat first) (unat after)" and ?a = "max (unat first) (unat after)"
  let ?m = "unat (num_blocks b)" and ?size = "unat (block_size b)"
  have ok: "blocks_ok ?f ?a b" using make_blocks_ok [OF assms(1)] ..
  have less: "?f < ?a" using assms(2) by (auto simp: word_unat_eq_iff)
  have "map (\<lambda>i. [unat (block_start b (of_nat i))..<unat (block_end b (of_nat i))]) [0..<?m] =
      map (\<lambda>i. [i * ?size + ?f..<if i = ?m - 1 then ?a else (i + 1) * ?size + ?f]) [0..<?m]"
    by (rule map_cong [OF refl]) (simp only: unat_block [OF ok less] set_upt atLeastLessThan_iff)
  moreover have "?m * ?size + ?f \<le> ?a" "0 < ?m" using ok less by (simp_all add: blocks_ok_def)
  ultimately show ?thesis using upt_blocks [of ?m ?size ?f ?a] by (simp only:)
qed

text \<open>The blocks of a loop, with the default number of blocks.\<close>

lemma loop_thread_count:
  fixes thread_count :: "32 word"
  assumes "thread_count \<noteq> 0"
  shows "(if n \<noteq> 0 then n else ucast thread_count) \<noteq> (0 :: size_t)"
proof -
  have "unat thread_count < 2 ^ 64" by (rule less_trans [OF unsigned_less]) simp
  then have "unat (ucast thread_count :: size_t) = unat thread_count"
    by (simp add: unsigned_ucast_eq take_bit_eq_mod)
  then show ?thesis using assms by (auto simp: word_unat_eq_iff)
qed

lemma loop_blocks_eq:
  assumes "thread_count \<noteq> 0" and "first \<noteq> after"
  shows "\<exists>b. make_blocks first after (if n \<noteq> 0 then n else ucast thread_count) = Inr b \<and>
    loop_blocks thread_count first after n =
      Inr (map (\<lambda>i. (block_start b (of_nat i), block_end b (of_nat i))) [0..<unat (num_blocks b)])"
proof -
  from make_blocks_Inr [OF loop_thread_count [OF assms(1)]] obtain b where
    b: "make_blocks first after (if n \<noteq> 0 then n else ucast thread_count) = Inr b" by blast
  with make_blocks_ok [OF b] assms(2) have "0 < total_size b"
    by (auto simp: blocks_ok_def word_less_nat_alt word_unat_eq_iff)
  with b show ?thesis by (simp add: loop_blocks_def)
qed

end
