(* ===== verification/PoolReset.thy ===== *)
theory PoolReset
  imports ThreadPool PoolLoops
begin

text \<open>
  \<open>reset\<close> (\<open>ortoa-lbl/BS_thread_pool.hpp\<close>): the pool is paused, waits for the tasks that run, destroys its
  threads and makes new ones for the tasks that are left in the queue, all of it while other threads
  push.
\<close>

section \<open>Steps\<close>

text \<open>
  \<open>reset\<close> has read \<open>paused\<close>; waits for the tasks and destroys the threads, which are the steps of the
  destructor up to \<open>Closed\<close>; has the new number of threads; or is not being called.
\<close>

datatype resetter = Idle | Reading | Halting | Starting

record 'a rpool =
  rs_pool :: "'a pool"
  rs_stage :: resetter
  was_paused :: bool
  thread_count :: "32 word"

text \<open>
  \<open>hardware\<close> is \<open>hardware_concurrency\<close>.  \<open>create_threads\<close> makes the threads one by one; one that does
  not exist yet is one that has not taken a step yet.
\<close>

inductive reset_step :: "32 word \<Rightarrow> 'a rpool \<Rightarrow> 'a rpool \<Rightarrow> bool" for hardware where
  client: "client_step (rs_pool r) p \<Longrightarrow> reset_step hardware r (r\<lparr>rs_pool := p\<rparr>)"
| work_on: "worker_step (rs_pool r) p \<Longrightarrow> reset_step hardware r (r\<lparr>rs_pool := p\<rparr>)"
| close: "rs_stage r \<in> {Idle, Halting} \<Longrightarrow> closer_step (rs_pool r) p \<Longrightarrow> reset_step hardware r (r\<lparr>rs_pool := p\<rparr>)"
| read_paused: "rs_stage r = Idle \<Longrightarrow> closer (rs_pool r) = Open \<Longrightarrow>
    reset_step hardware r (r\<lparr>rs_stage := Reading, was_paused := paused (rs_pool r)\<rparr>)"
| set_paused: "rs_stage r = Reading \<Longrightarrow>
    reset_step hardware r (r\<lparr>rs_stage := Halting, rs_pool := (rs_pool r)\<lparr>paused := True\<rparr>\<rparr>)"
| new_count: "rs_stage r = Halting \<Longrightarrow> closer (rs_pool r) = Closed \<Longrightarrow>
    reset_step hardware r (r\<lparr>rs_stage := Starting, thread_count := determine_thread_count hardware n,
      rs_pool := (rs_pool r)\<lparr>workers := [], paused := was_paused r\<rparr>\<rparr>)"
| create_threads: "rs_stage r = Starting \<Longrightarrow>
    reset_step hardware r (r\<lparr>rs_stage := Idle, rs_pool := (rs_pool r)\<lparr>pl_running := True,
      workers := replicate (unat (thread_count r)) Loop, closer := Open\<rparr>\<rparr>)"

text \<open>The constructor.\<close>

definition reset_start :: "32 word \<Rightarrow> 32 word \<Rightarrow> nat \<Rightarrow> 'a rpool" where
  "reset_start hardware n clients = (let count = determine_thread_count hardware n in
    \<lparr>rs_pool = thread_pool (unat count) clients, rs_stage = Idle, was_paused = False, thread_count = count\<rparr>)"

section \<open>Nothing is lost\<close>

text \<open>
  Who has joined the threads has seen them return; the pool runs until its destruction begins; while
  there are threads the pool is alert.
\<close>

fun in_service :: "closer \<Rightarrow> bool" where
  "in_service Stopping = False"
| "in_service Joining = False"
| "in_service Closed = False"
| "in_service _ = True"

definition reset_inv :: "'a rpool \<Rightarrow> bool" where
  "reset_inv r \<longleftrightarrow> pool_inv (rs_pool r) \<and> thread_count r \<noteq> 0 \<and>
    (closer (rs_pool r) = Closed \<longrightarrow> set (workers (rs_pool r)) \<subseteq> {Returned}) \<and>
    (if rs_stage r = Starting then workers (rs_pool r) = [] \<and> \<not> tasks_mutex (rs_pool r) \<and> closer (rs_pool r) = Closed
     else pool_alert (rs_pool r) \<and> length (workers (rs_pool r)) = unat (thread_count r) \<and>
       (in_service (closer (rs_pool r)) \<longrightarrow> pl_running (rs_pool r)))"

lemma length_workers_step:
  "client_step p p' \<Longrightarrow> length (workers p') = length (workers p)"
  "worker_step p p' \<Longrightarrow> length (workers p') = length (workers p)"
  "closer_step p p' \<Longrightarrow> length (workers p') = length (workers p)"
  by (auto elim: client_step.cases worker_step.cases closer_step.cases)

lemma client_step_frame:
  assumes "client_step p p'"
  shows "closer p' = closer p" "pl_running p' = pl_running p" "tasks_mutex p' = tasks_mutex p"
    "set (workers p) \<subseteq> {Returned} \<Longrightarrow> workers p' = workers p"
  using assms by (auto elim!: client_step.cases dest: nth_mem)

lemma worker_step_frame:
  assumes "worker_step p p'"
  shows "in_service (closer p') = in_service (closer p)" "closer p' = Closed \<longleftrightarrow> closer p = Closed" "pl_running p' = pl_running p"
    "\<not> set (workers p) \<subseteq> {Returned}"
  using assms by (auto elim!: worker_step.cases dest: nth_mem split: if_splits)

lemma closer_step_frame:
  "closer_step p p' \<Longrightarrow> closer p \<noteq> Closed \<and> (closer p' = Closed \<longrightarrow> set (workers p') \<subseteq> {Returned}) \<and>
    (in_service (closer p') \<longrightarrow> in_service (closer p) \<and> pl_running p' = pl_running p)"
  by (auto elim!: closer_step.cases)

lemma reset_step_inv: "reset_step hardware r r' \<Longrightarrow> reset_inv r \<Longrightarrow> reset_inv r'"
proof (induction rule: reset_step.induct)
  case (client r p)
  note frame = client_step_frame [OF client(1)] length_workers_step(1) [OF client(1)]
  show ?case
    using client client_step_inv [OF client(1)] client_step_alert [OF client(1)] frame
    by (auto simp: reset_inv_def)
next
  case (work_on r p)
  note frame = worker_step_frame [OF work_on(1)] length_workers_step(2) [OF work_on(1)]
  from work_on(2) frame(4) have stage: "rs_stage r \<noteq> Starting" "closer (rs_pool r) \<noteq> Closed"
    by (auto simp: reset_inv_def)
  with work_on(2) worker_step_inv [OF work_on(1)] worker_step_alert [OF work_on(1)] frame(1-3,5)
  show ?case by (simp add: reset_inv_def)
next
  case (close r p)
  note frame = closer_step_frame [OF close(2)] length_workers_step(3) [OF close(2)]
  show ?case
    using close closer_step_inv [OF close(2)] closer_step_alert [OF close(2)] frame
    by (auto simp: reset_inv_def)
next
  case (read_paused r)
  then show ?case by (auto simp: reset_inv_def)
next
  case (set_paused r)
  then show ?case by (auto simp: reset_inv_def pool_inv_def pool_alert_def in_hand_def uncounted_def)
next
  case (new_count r n)
  have idle: "in_hand (rs_pool r) = {#}" using new_count by (auto simp: reset_inv_def in_hand_empty)
  have "Checked \<notin> set (workers (rs_pool r))" using new_count by (auto simp: reset_inv_def)
  then have "\<not> tasks_mutex (rs_pool r)" using new_count(1,3)
    by (auto simp: reset_inv_def pool_alert_def count_list_0_iff split: if_splits)
  with new_count idle determine_thread_count_pos show ?case
    by (auto simp: reset_inv_def pool_inv_def in_hand_def uncounted_def)
next
  case (create_threads r)
  let ?n = "unat (thread_count r)"
  have n: "0 < ?n" using create_threads by (simp add: reset_inv_def unat_gt_0)
  have "sum_list (replicate k {#}) = ({#} :: 'a multiset)" for k by (induction k) simp_all
  with create_threads n show ?case
    by (auto simp: reset_inv_def pool_inv_def pool_alert_def in_hand_def uncounted_def count_list_replicate intro: bexI [of _ Loop])
qed

lemma reset_steps_inv: "(reset_step hardware)\<^sup>*\<^sup>* r r' \<Longrightarrow> reset_inv r \<Longrightarrow> reset_inv r'"
  by (induction rule: rtranclp_induct) (auto intro: reset_step_inv)

lemma reset_start_inv: "reset_inv (reset_start hardware n m)"
proof -
  have "0 < unat (determine_thread_count hardware n)" using determine_thread_count_pos by (simp add: unat_gt_0)
  then show ?thesis
    using determine_thread_count_pos [of hardware n] pool_alert_start [of "unat (determine_thread_count hardware n)" m] pool_inv_start [of "unat (determine_thread_count hardware n)" m]
    by (auto simp: reset_inv_def reset_start_def Let_def thread_pool_def)
qed

text \<open>Clients and workers go on during a reset as they do without one.\<close>

lemma reset_steps_pool:
  assumes "pool_step\<^sup>*\<^sup>* (rs_pool r) p" and "rs_stage r = Idle"
  shows "(reset_step hardware)\<^sup>*\<^sup>* r (r\<lparr>rs_pool := p\<rparr>)"
  using assms(1)
proof (induction rule: rtranclp_induct)
  case (step y z)
  from step(2) have "reset_step hardware (r\<lparr>rs_pool := y\<rparr>) (r\<lparr>rs_pool := z\<rparr>)"
  proof (cases rule: pool_step.cases)
    case client
    with reset_step.client [of "r\<lparr>rs_pool := y\<rparr>" z hardware] show ?thesis by simp
  next
    case work_on
    with reset_step.work_on [of "r\<lparr>rs_pool := y\<rparr>" z hardware] show ?thesis by simp
  next
    case close
    with reset_step.close [of "r\<lparr>rs_pool := y\<rparr>" z hardware] assms(2) show ?thesis by simp
  qed
  with step(3) show ?case by (rule rtranclp.rtrancl_into_rtrancl)
qed simp

end
