(* ===== verification/PoolPhases.thy ===== *)
theory PoolPhases
  imports ThreadPool Parallel
begin

text \<open>
  A parallel phase on the thread pool: \<open>submit\<close> (\<open>ortoa-lbl/BS_thread_pool.hpp\<close>) wraps each part as a
  task with a promise, the pool's workers run the tasks store by store, and the caller waits for
  every future.  When all futures of a phase are ready its buffers hold what the parts write one after
  the other, whatever else the pool has to do.
\<close>

section \<open>Tasks that store\<close>

text \<open>
  A task is a name; \<open>job\<close> gives its stores into the buffers of the phase, none for a task of another
  phase.  \<open>ex_left j\<close> is what worker \<open>j\<close> has still to store, \<open>ex_ready\<close> the tasks whose promise is set,
  \<open>ex_log\<close> the stores made so far.
\<close>

record exec =
  ex_pool :: "nat pool"
  ex_left :: "nat \<Rightarrow> store list"
  ex_ready :: "nat set"
  ex_mem :: mem
  ex_log :: "store list"

definition after_pool :: "(nat \<Rightarrow> store list) \<Rightarrow> exec \<Rightarrow> nat pool \<Rightarrow> nat \<Rightarrow> store list" where
  "after_pool job e p j =
    (if workers p ! j = workers (ex_pool e) ! j then ex_left e j
     else case workers p ! j of Taken t \<Rightarrow> job t | _ \<Rightarrow> [])"

text \<open>A worker gives its task back only after the task has set its promise.\<close>

inductive exec_step :: "(nat \<Rightarrow> store list) \<Rightarrow> exec \<Rightarrow> exec \<Rightarrow> bool" for job where
  store: "j < length (workers (ex_pool e)) \<Longrightarrow> workers (ex_pool e) ! j = Taken t \<Longrightarrow> ex_left e j = s # ss \<Longrightarrow>
    apply_store (ex_mem e) s = Inr m \<Longrightarrow>
    exec_step job e (e\<lparr>ex_left := (ex_left e)(j := ss), ex_mem := m, ex_log := ex_log e @ [s]\<rparr>)"
| set_value: "j < length (workers (ex_pool e)) \<Longrightarrow> workers (ex_pool e) ! j = Taken t \<Longrightarrow> ex_left e j = [] \<Longrightarrow>
    exec_step job e (e\<lparr>ex_ready := insert t (ex_ready e)\<rparr>)"
| pool: "pool_step (ex_pool e) p \<Longrightarrow>
    (\<And>j t. j < length (workers p) \<Longrightarrow> workers (ex_pool e) ! j = Taken t \<Longrightarrow> workers p ! j \<noteq> Taken t \<Longrightarrow> t \<in> ex_ready e) \<Longrightarrow>
    exec_step job e (e\<lparr>ex_pool := p, ex_left := after_pool job e p\<rparr>)"

text \<open>The start of a phase on a pool that has none of its tasks.\<close>

definition exec_start :: "nat pool \<Rightarrow> mem \<Rightarrow> exec" where
  "exec_start p m = \<lparr>ex_pool = p, ex_left = (\<lambda>_. []), ex_ready = {}, ex_mem = m, ex_log = []\<rparr>"

definition idle_for :: "(nat \<Rightarrow> store list) \<Rightarrow> nat pool \<Rightarrow> bool" where
  "idle_for job p \<longleftrightarrow> (\<forall>t. Taken t \<in> set (workers p) \<longrightarrow> job t = [])"

section \<open>What is stored\<close>

lemma length_workers: "pool_step p p' \<Longrightarrow> length (workers p') = length (workers p)"
  by (elim pool_stepE client_step.cases worker_step.cases closer_step.cases) simp_all

definition exec_inv :: "(nat \<Rightarrow> store list) \<Rightarrow> mem \<Rightarrow> exec \<Rightarrow> bool" where
  "exec_inv job m e \<longleftrightarrow> apply_stores m (ex_log e) = Inr (ex_mem e) \<and>
    (\<forall>t \<in> ex_ready e. set (job t) \<subseteq> set (ex_log e)) \<and> (\<forall>s \<in> set (ex_log e). \<exists>t. s \<in> set (job t)) \<and>
    (\<forall>j t. j < length (workers (ex_pool e)) \<longrightarrow> workers (ex_pool e) ! j = Taken t \<longrightarrow>
      set (job t) \<subseteq> set (ex_log e) \<union> set (ex_left e j) \<and> set (ex_left e j) \<subseteq> set (job t))"

lemma exec_start_inv: "idle_for job p \<Longrightarrow> exec_inv job m (exec_start p m)"
  by (simp add: exec_inv_def exec_start_def idle_for_def) (metis nth_mem)

lemma exec_step_inv: "exec_step job e e' \<Longrightarrow> exec_inv job m e \<Longrightarrow> exec_inv job m e'"
proof (induction rule: exec_step.induct)
  case (store j e t s ss m')
  then have own: "set (job t) \<subseteq> set (ex_log e) \<union> set (s # ss)" "set (s # ss) \<subseteq> set (job t)"
    unfolding exec_inv_def by metis+
  have "apply_stores m (ex_log e @ [s]) = Inr m'" using store(4,5) by (simp add: exec_inv_def apply_stores_append)
  moreover have "set (job u) \<subseteq> insert s (set (ex_log e)) \<union> set (((ex_left e)(j := ss)) k) \<and>
      set (((ex_left e)(j := ss)) k) \<subseteq> set (job u)"
    if "k < length (workers (ex_pool e))" "workers (ex_pool e) ! k = Taken u" for k u
  proof (cases "k = j")
    case True
    with that(2) store(2) own show ?thesis by auto
  next
    case False
    with that store(5) have "set (job u) \<subseteq> set (ex_log e) \<union> set (ex_left e k)" "set (ex_left e k) \<subseteq> set (job u)"
      unfolding exec_inv_def by blast+
    with False show ?thesis by auto
  qed
  ultimately show ?case using store(5) own(2) unfolding exec_inv_def by fastforce
next
  case (set_value j e t)
  then have "set (job t) \<subseteq> set (ex_log e)" unfolding exec_inv_def by fastforce
  with set_value(4) show ?case by (simp add: exec_inv_def)
next
  case (pool e p)
  have "set (job t) \<subseteq> set (ex_log e) \<union> set (after_pool job e p j) \<and> set (after_pool job e p j) \<subseteq> set (job t)"
    if "j < length (workers p)" "workers p ! j = Taken t" for j t
  proof (cases "workers p ! j = workers (ex_pool e) ! j")
    case True
    with that pool(3) length_workers [OF pool(1)] show ?thesis by (simp add: exec_inv_def after_pool_def)
  qed (use that in \<open>simp add: after_pool_def\<close>)
  with pool(3) show ?case by (simp add: exec_inv_def)
qed

lemma exec_steps_inv: "(exec_step job)\<^sup>*\<^sup>* e e' \<Longrightarrow> exec_inv job m e \<Longrightarrow> exec_inv job m e'"
  by (induction rule: rtranclp_induct) (auto intro: exec_step_inv)

text \<open>When the futures of the tasks \<open>0\<close> to \<open>n - 1\<close> are ready, exactly their stores have been made.\<close>

lemma all_stored:
  assumes "exec_inv job m e" and "{..<n} \<subseteq> ex_ready e" and "\<And>t. n \<le> t \<Longrightarrow> job t = []"
  shows "set (ex_log e) = (\<Union>t < n. set (job t))"
proof
  show "set (ex_log e) \<subseteq> (\<Union>t < n. set (job t))"
  proof
    fix s
    assume "s \<in> set (ex_log e)"
    with assms(1) obtain t where t: "s \<in> set (job t)" unfolding exec_inv_def by blast
    with assms(3) [of t] have "t < n" by (cases "t < n") auto
    with t show "s \<in> (\<Union>t < n. set (job t))" by blast
  qed
  show "(\<Union>t < n. set (job t)) \<subseteq> set (ex_log e)"
    using assms(1,2) unfolding exec_inv_def by blast
qed

section \<open>Every future gets ready\<close>

lemma exec_step_pool: "exec_step job e e' \<Longrightarrow> ex_pool e' = ex_pool e \<or> pool_step (ex_pool e) (ex_pool e')"
  by (elim exec_step.cases) simp_all

lemma exec_steps_pool: "(exec_step job)\<^sup>*\<^sup>* e e' \<Longrightarrow> pool_step\<^sup>*\<^sup>* (ex_pool e) (ex_pool e')"
proof (induction rule: rtranclp_induct)
  case (step y z)
  from exec_step_pool [OF step(2)] step(3) show ?case
    by (auto intro: rtranclp.rtrancl_into_rtrancl [where r = pool_step])
qed simp

text \<open>A task can make its stores and set its promise.\<close>

definition fitting :: "(nat \<Rightarrow> store list) \<Rightarrow> mem \<Rightarrow> bool" where
  "fitting job m \<longleftrightarrow> (\<forall>t. \<forall>s \<in> set (job t). in_bounds m s)"

lemma finish_stores:
  assumes "fitting job m" and "exec_inv job m e" and "j < length (workers (ex_pool e))" and "workers (ex_pool e) ! j = Taken t"
  shows "\<exists>e'. (exec_step job)\<^sup>*\<^sup>* e e' \<and> ex_pool e' = ex_pool e \<and> t \<in> ex_ready e'"
  using assms(2-4)
proof (induction "ex_left e j" arbitrary: e)
  case Nil
  with exec_step.set_value [OF Nil(3,4), of job] r_into_rtranclp [where r = "exec_step job"] show ?case
    by (intro exI [of _ "e\<lparr>ex_ready := insert t (ex_ready e)\<rparr>"]) simp
next
  case (Cons s ss)
  from Cons(3) have log: "apply_stores m (ex_log e) = Inr (ex_mem e)" "\<forall>s \<in> set (ex_log e). in_bounds m s"
    using assms(1) unfolding exec_inv_def fitting_def by blast+
  from apply_stores_bounds [OF log(2)] log(1) have "\<And>l. length (ex_mem e l) = length (m l)" by auto
  moreover have "s \<in> set (job t)"
  proof -
    from Cons(3-5) have "set (ex_left e j) \<subseteq> set (job t)" unfolding exec_inv_def by blast
    then show ?thesis unfolding Cons(2) [symmetric] by simp
  qed
  ultimately have "in_bounds (ex_mem e) s"
    using assms(1) in_bounds_cong [of "ex_mem e" m s] by (simp add: fitting_def)
  then obtain m' where "apply_store (ex_mem e) s = Inr m'" using apply_store_bounds by blast
  from exec_step.store [OF Cons(4,5) Cons(2) [symmetric] this]
  have step: "exec_step job e (e\<lparr>ex_left := (ex_left e)(j := ss), ex_mem := m', ex_log := ex_log e @ [s]\<rparr>)" .
  from Cons(1) [OF _ exec_step_inv [OF step Cons(3)]] Cons(4,5) obtain e' where
    "(exec_step job)\<^sup>*\<^sup>* (e\<lparr>ex_left := (ex_left e)(j := ss), ex_mem := m', ex_log := ex_log e @ [s]\<rparr>) e'"
    "ex_pool e' = ex_pool e" "t \<in> ex_ready e'" by auto
  with step show ?case by (meson converse_rtranclp_into_rtranclp)
qed

text \<open>At most one worker gives a task back in a step.\<close>

lemma pool_step_gives_back:
  assumes "pool_step p p'"
  shows "\<exists>k. \<forall>j t. j < length (workers p) \<longrightarrow> workers p ! j = Taken t \<longrightarrow> workers p' ! j \<noteq> Taken t \<longrightarrow> j = k"
  using assms
proof (cases rule: pool_step.cases)
  case client
  then show ?thesis by (cases rule: client_step.cases) (auto simp: nth_list_update)
next
  case work_on
  then show ?thesis by (cases rule: worker_step.cases) (auto simp: nth_list_update)
next
  case close
  then show ?thesis by (cases rule: closer_step.cases) (auto simp: wake_def)
qed

lemma pool_step_simulated:
  assumes "fitting job m" and inv: "exec_inv job m e" and step: "pool_step (ex_pool e) p"
  shows "\<exists>e'. (exec_step job)\<^sup>*\<^sup>* e e' \<and> ex_pool e' = p"
proof -
  from pool_step_gives_back [OF step] obtain k where
    k: "\<And>j t. j < length (workers (ex_pool e)) \<Longrightarrow> workers (ex_pool e) ! j = Taken t \<Longrightarrow> workers p ! j \<noteq> Taken t \<Longrightarrow> j = k"
    by blast
  obtain e1 where e1: "(exec_step job)\<^sup>*\<^sup>* e e1" "ex_pool e1 = ex_pool e"
    "\<And>t. k < length (workers (ex_pool e)) \<Longrightarrow> workers (ex_pool e) ! k = Taken t \<Longrightarrow> t \<in> ex_ready e1"
  proof (cases "\<exists>t. k < length (workers (ex_pool e)) \<and> workers (ex_pool e) ! k = Taken t")
    case True
    with finish_stores [OF assms(1) inv] that show ?thesis by (metis worker.inject)
  next
    case False
    with that [of e] show ?thesis by blast
  qed
  have "t \<in> ex_ready e1" if "j < length (workers p)" "workers (ex_pool e) ! j = Taken t" "workers p ! j \<noteq> Taken t" for j t
  proof -
    have j: "j < length (workers (ex_pool e))" using that(1) length_workers [OF step] by simp
    with k [OF j that(2,3)] e1(3) that(2) show ?thesis by blast
  qed
  then have "exec_step job e1 (e1\<lparr>ex_pool := p, ex_left := after_pool job e1 p\<rparr>)"
    using step unfolding e1(2) [symmetric] by (rule exec_step.pool [rotated])
  with e1(1) show ?thesis by (intro exI [of _ "e1\<lparr>ex_pool := p, ex_left := after_pool job e1 p\<rparr>"]) auto
qed

lemma pool_steps_simulated:
  assumes "pool_step\<^sup>*\<^sup>* p p'" and "fitting job m" and "exec_inv job m e" and "ex_pool e = p"
  shows "\<exists>e'. (exec_step job)\<^sup>*\<^sup>* e e' \<and> ex_pool e' = p'"
  using assms(1)
proof (induction rule: rtranclp_induct)
  case (step y z)
  then obtain e1 where e1: "(exec_step job)\<^sup>*\<^sup>* e e1" "ex_pool e1 = y" by blast
  from pool_step_simulated [OF assms(2) exec_steps_inv [OF e1(1) assms(3)]] step(2) e1 show ?case
    by (metis rtranclp_trans)
qed (use assms(4) in blast)

text \<open>A completed task has set its promise.\<close>

lemma pool_step_completed:
  assumes "pool_step q p"
  shows "completed p = completed q \<or> (\<exists>j t. j < length (workers p) \<and> workers q ! j = Taken t \<and>
    workers p ! j \<noteq> Taken t \<and> completed p = completed q @ [t])"
  using assms
proof (cases rule: pool_step.cases)
  case work_on
  then show ?thesis by (cases rule: worker_step.cases) (fastforce simp: nth_list_update)+
qed (auto elim: client_step.cases closer_step.cases)

lemma exec_steps_completed:
  "(exec_step job)\<^sup>*\<^sup>* e e' \<Longrightarrow> set (completed (ex_pool e)) \<subseteq> A \<union> ex_ready e \<Longrightarrow>
    set (completed (ex_pool e')) \<subseteq> A \<union> ex_ready e'"
proof (induction rule: rtranclp_induct)
  case (step y z)
  then have y: "set (completed (ex_pool y)) \<subseteq> A \<union> ex_ready y" by blast
  from step(2) show ?case
  proof cases
    case (pool p)
    with pool_step_completed [OF pool(2)] y show ?thesis by auto
  qed (use y in auto)
qed

text \<open>From every state of a running pool all submitted tasks can set their promises.\<close>

lemma futures_get_ready:
  assumes "0 < n" and p: "pool_step\<^sup>*\<^sup>* (thread_pool n k) p" and "fitting job m" and "idle_for job p"
    and e: "(exec_step job)\<^sup>*\<^sup>* (exec_start p m) e" and "pl_running (ex_pool e)" and "\<not> paused (ex_pool e)"
  shows "\<exists>e'. (exec_step job)\<^sup>*\<^sup>* e e' \<and> set (submitted (ex_pool e)) \<subseteq> set (completed p) \<union> ex_ready e'"
proof -
  have start: "ex_pool (exec_start p m) = p" by (simp add: exec_start_def)
  have reached: "pool_step\<^sup>*\<^sup>* (thread_pool n k) (ex_pool e)"
    using p exec_steps_pool [OF e] unfolding start by (rule rtranclp_trans)
  from pool_drains [OF pool_steps_alert [OF reached pool_alert_start [OF assms(1)]]
      pool_steps_inv [OF reached pool_inv_start] assms(6,7)] obtain p' where
    p': "pool_step\<^sup>*\<^sup>* (ex_pool e) p'" "mset (completed p') = mset (submitted (ex_pool e))" by blast
  from pool_steps_simulated [OF p'(1) assms(3) exec_steps_inv [OF e exec_start_inv [OF assms(4)]] refl] obtain e' where
    e': "(exec_step job)\<^sup>*\<^sup>* e e'" "ex_pool e' = p'" by blast
  from exec_steps_completed [OF rtranclp_trans [OF e e'(1)], of "set (completed p)"] e'(2)
  have "set (completed p') \<subseteq> set (completed p) \<union> ex_ready e'" by (simp add: exec_start_def)
  with p'(2) e'(1) show ?thesis by (metis set_mset_mset)
qed

section \<open>Phases\<close>

definition jobs :: "store list list \<Rightarrow> nat \<Rightarrow> store list" where
  "jobs tss t = (if t < length tss then tss ! t else [])"

lemma jobs_all: "(\<Union>t < length tss. set (jobs tss t)) = (\<Union>t \<in> set tss. set t)"
proof -
  have "(\<Union>t < length tss. set (jobs tss t)) = (\<Union>t < length tss. set (tss ! t))" by (simp add: jobs_def)
  also have "\<dots> = (\<Union>t \<in> (!) tss ` {..<length tss}. set t)" by simp
  also have "(!) tss ` {..<length tss} = set tss" by (auto simp: set_conv_nth)
  finally show ?thesis .
qed

lemma fresh_names:
  assumes "pool_step\<^sup>*\<^sup>* (thread_pool n k) p" and "\<And>t. t < length tss \<Longrightarrow> t \<notin> set (submitted p)"
  shows "idle_for (jobs tss) p" and "\<And>t. t < length tss \<Longrightarrow> t \<notin> set (completed p)"
proof -
  have inv: "pool_inv p" by (rule pool_steps_inv [OF assms(1) pool_inv_start])
  then have "set (completed p) \<subseteq> set (submitted p)" "set_mset (in_hand p) \<subseteq> set (submitted p)"
    unfolding pool_inv_def by (metis le_supI1 set_append set_mset_mset set_mset_union sup_ge1 sup_ge2)+
  moreover have "t \<in># in_hand p" if "Taken t \<in> set (workers p)" for t
    using that by (force simp: in_hand_def)
  ultimately show "idle_for (jobs tss) p" "\<And>t. t < length tss \<Longrightarrow> t \<notin> set (completed p)"
    using assms(2) by (auto simp: idle_for_def jobs_def)
qed

context parallel_phase
begin

lemma pool_result:
  assumes "pre c" and "(exec_step (jobs (tasks c)))\<^sup>*\<^sup>* (exec_start p (init c)) e" and "idle_for (jobs (tasks c)) p"
    and "{..<length (tasks c)} \<subseteq> ex_ready e"
  shows "apply_stores (init c) (concat (tasks c)) = Inr (ex_mem e)"
proof -
  have inv: "exec_inv (jobs (tasks c)) (init c) e"
    by (rule exec_steps_inv [OF assms(2) exec_start_inv [OF assms(3)]])
  have "set (ex_log e) = (\<Union>t \<in> set (tasks c). set t)"
    using all_stored [OF inv assms(4)] jobs_all [of "tasks c"] by (simp add: jobs_def)
  from same_stores [OF assms(1) this] inv show ?thesis by (simp add: exec_inv_def)
qed

lemma fitting_tasks: "pre c \<Longrightarrow> fitting (jobs (tasks c)) (init c)"
  unfolding fitting_def jobs_def using phase_bounds by (metis empty_iff list.set(1) nth_mem)

lemma pool_finishes:
  assumes "pre c" and "0 < n" and p: "pool_step\<^sup>*\<^sup>* (thread_pool n k) p"
    and names: "\<And>t. t < length (tasks c) \<Longrightarrow> t \<notin> set (submitted p)"
    and e: "(exec_step (jobs (tasks c)))\<^sup>*\<^sup>* (exec_start p (init c)) e" "pl_running (ex_pool e)" "\<not> paused (ex_pool e)"
    and "{..<length (tasks c)} \<subseteq> set (submitted (ex_pool e))"
  shows "\<exists>e'. (exec_step (jobs (tasks c)))\<^sup>*\<^sup>* e e' \<and> {..<length (tasks c)} \<subseteq> ex_ready e'"
proof -
  from futures_get_ready [OF assms(2) p fitting_tasks [OF assms(1)] fresh_names(1) [OF p names] e] obtain e' where
    "(exec_step (jobs (tasks c)))\<^sup>*\<^sup>* e e'" "set (submitted (ex_pool e)) \<subseteq> set (completed p) \<union> ex_ready e'" by blast
  with assms(8) fresh_names(2) [OF p names] show ?thesis by blast
qed

end

section \<open>Handing the parts to the pool\<close>

text \<open>Clients of a fresh pool can push as many tasks as there are clients.\<close>

lemma pushes:
  "k \<le> m \<Longrightarrow> \<exists>p. pool_step\<^sup>*\<^sup>* (thread_pool n m) p \<and> submitted p = [0..<k] \<and> pl_running p \<and> \<not> paused p \<and>
    \<not> tasks_mutex p \<and> length (pushers p) = m \<and> (\<forall>i. k \<le> i \<and> i < m \<longrightarrow> pushers p ! i = Free)"
proof (induction k)
  case 0
  show ?case by (intro exI [of _ "thread_pool n m"]) (simp add: thread_pool_def)
next
  case (Suc k)
  then obtain p where p: "pool_step\<^sup>*\<^sup>* (thread_pool n m) p" "submitted p = [0..<k]" "pl_running p" "\<not> paused p"
    "\<not> tasks_mutex p" "length (pushers p) = m" "\<forall>i. k \<le> i \<and> i < m \<longrightarrow> pushers p ! i = Free" by auto
  let ?p = "set_pusher k Pushed (p\<lparr>pl_tasks := pl_tasks p @ [k], submitted := submitted p @ [k]\<rparr>)"
  have "pool_step p ?p"
    using p Suc.prems by (intro pool_step.client [OF client_step.push]) simp_all
  with p(1) have "pool_step\<^sup>*\<^sup>* (thread_pool n m) ?p" by (rule rtranclp.rtrancl_into_rtrancl)
  then show ?case using p by (intro exI [of _ ?p]) simp
qed

end
