(* ===== verification/PoolLoopRuns.thy ===== *)
theory PoolLoopRuns
  imports PoolPhases PoolLoops
begin

text \<open>
  \<open>parallelize_loop\<close> and \<open>multi_future\<close> (\<open>ortoa-lbl/BS_thread_pool.hpp\<close>) on the pool: every block of the loop
  is submitted as a task of its own.  Such a loop is a parallel phase, so that the pool computes what
  the loop computes.
\<close>

section \<open>The tasks of a loop\<close>

text \<open>
  \<open>loop s e\<close> is what the caller's function does for the block from \<open>s\<close> to \<open>e\<close>: its stores here, the value it
  returns in \<open>PoolFutures\<close>.  Task \<open>i\<close> is block \<open>i\<close>, and the \<open>multi_future\<close> holds the futures of the tasks in this order.
\<close>

definition parallelize_loop :: "32 word \<Rightarrow> size_t \<Rightarrow> size_t \<Rightarrow> (size_t \<Rightarrow> size_t \<Rightarrow> 'r) \<Rightarrow> size_t \<Rightarrow>
    ('r list \<times> nat list) res" where
  "parallelize_loop thread_count first after loop n =
    bind_res (loop_blocks thread_count first after n) (\<lambda>bs. Inr (map (\<lambda>(s, e). loop s e) bs, [0..<length bs]))"

text \<open>\<open>wait\<close> returns when every future is ready.\<close>

definition mf_wait :: "nat list \<Rightarrow> exec \<Rightarrow> bool" where
  "mf_wait mf e \<longleftrightarrow> list_all (\<lambda>t. t \<in> ex_ready e) mf"

text \<open>The function the comment of \<open>parallelize_loop\<close> asks for: a \<open>for\<close> loop over the block.\<close>

definition for_loop :: "(nat \<Rightarrow> store list) \<Rightarrow> size_t \<Rightarrow> size_t \<Rightarrow> store list" where
  "for_loop body s e = concat (map body [unat s..<unat e])"

section \<open>Loops as phases\<close>

type_synonym loop_config = "(32 word \<times> 32 word) \<times> (size_t \<times> size_t \<times> size_t) \<times> (nat \<Rightarrow> store list) \<times> mem"

definition loop_pre :: "loop_config \<Rightarrow> bool" where
  "loop_pre = (\<lambda>((hardware, threads), (first, after, n), body, m). first \<le> after \<and>
    (\<forall>i \<in> {unat first..<unat after}. \<forall>s \<in> set (body i). in_bounds m s \<and>
      (\<forall>j \<in> {unat first..<unat after}. \<forall>s' \<in> set (body j). agree s s')))"

definition loop_tasks :: "loop_config \<Rightarrow> store list list" where
  "loop_tasks = (\<lambda>((hardware, threads), (first, after, n), body, m).
    case parallelize_loop (determine_thread_count hardware threads) first after (for_loop body) n of
      Inl er \<Rightarrow> [] | Inr (tasks, mf) \<Rightarrow> tasks)"

definition loop_init :: "loop_config \<Rightarrow> mem" where
  "loop_init = (\<lambda>((hardware, threads), (first, after, n), body, m). m)"

text \<open>The blocks cover the range once and in order; no more are made than asked for.\<close>

lemma loop_blocks_cover:
  "\<exists>bs. loop_blocks (determine_thread_count hardware threads) first after n = Inr bs \<and>
    concat (map (\<lambda>(s, e). [unat s..<unat e]) bs) = [min (unat first) (unat after)..<max (unat first) (unat after)] \<and>
    length bs \<le> unat (if n = 0 then ucast (determine_thread_count hardware threads) else n)"
proof (cases "first = after")
  case True
  let ?n = "if n \<noteq> 0 then n else (ucast (determine_thread_count hardware threads) :: size_t)"
  have "total_size b = 0" if "make_blocks first after ?n = Inr b" for b
    using make_blocks_ok [OF that] True by (simp add: blocks_ok_def word_unat_eq_iff)
  with loop_thread_count [OF determine_thread_count_pos, of n hardware threads] make_blocks_Inr [of ?n first after]
  show ?thesis using True by (auto simp: loop_blocks_def)
next
  case False
  from loop_blocks_eq [OF determine_thread_count_pos False, of n hardware threads] obtain b where
    b: "make_blocks first after (if n \<noteq> 0 then n else ucast (determine_thread_count hardware threads)) = Inr b"
    "loop_blocks (determine_thread_count hardware threads) first after n =
      Inr (map (\<lambda>i. (block_start b (of_nat i), block_end b (of_nat i))) [0..<unat (num_blocks b)])" by blast
  with loop_blocks_concat [OF b(1) False] make_blocks_ok [OF b(1)] show ?thesis
    by (auto simp: o_def word_le_nat_alt)
qed

lemma concat_for_loops:
  "concat (map (\<lambda>(s, e). for_loop body s e) bs) = concat (map body (concat (map (\<lambda>(s, e). [unat s..<unat e]) bs)))"
  by (induction bs) (auto simp: for_loop_def)

text \<open>One task after the other, the tasks are the loop; a reversed range is taken as the range between its ends.\<close>

lemma parallelize_loop_eq:
  obtains ts where "parallelize_loop (determine_thread_count hardware threads) first after (for_loop body) n = Inr (ts, [0..<length ts])"
    "concat ts = concat (map body [min (unat first) (unat after)..<max (unat first) (unat after)])"
    "length ts \<le> unat (if n = 0 then ucast (determine_thread_count hardware threads) else n)"
proof -
  from loop_blocks_cover obtain bs where bs: "loop_blocks (determine_thread_count hardware threads) first after n = Inr bs"
    "concat (map (\<lambda>(s, e). [unat s..<unat e]) bs) = [min (unat first) (unat after)..<max (unat first) (unat after)]"
    "length bs \<le> unat (if n = 0 then ucast (determine_thread_count hardware threads) else n)" by blast
  show thesis
    by (rule that [of "map (\<lambda>(s, e). for_loop body s e) bs"])
      (use bs in \<open>simp_all only: parallelize_loop_def bind_res_simps concat_for_loops length_map\<close>)
qed

lemma loop_tasks_concat:
  assumes "first \<le> after"
  shows "concat (loop_tasks ((hardware, threads), (first, after, n), body, m)) = concat (map body [unat first..<unat after])"
proof -
  have "unat first \<le> unat after" using assms by (simp add: word_le_nat_alt)
  moreover obtain ts where
    "parallelize_loop (determine_thread_count hardware threads) first after (for_loop body) n = Inr (ts, [0..<length ts])"
    "concat ts = concat (map body [min (unat first) (unat after)..<max (unat first) (unat after)])"
    by (rule parallelize_loop_eq)
  ultimately show ?thesis by (simp add: loop_tasks_def min_absorb1 max_absorb2)
qed

lemma loop_store:
  assumes "loop_pre c" and "t \<in> set (loop_tasks c)" and "s \<in> set t"
  shows "in_bounds (loop_init c) s"
    and "t' \<in> set (loop_tasks c) \<Longrightarrow> s' \<in> set t' \<Longrightarrow> agree s s'"
proof -
  obtain hardware threads first after n body m where c: "c = ((hardware, threads), (first, after, n), body, m)"
    by (cases c) auto
  have all: "\<exists>i \<in> {unat first..<unat after}. x \<in> set (body i)" if "u \<in> set (loop_tasks c)" "x \<in> set u" for u x
  proof -
    from that have "x \<in> set (concat (loop_tasks c))" by auto
    moreover have "first \<le> after" using assms(1) by (simp add: c loop_pre_def)
    ultimately have "x \<in> set (concat (map body [unat first..<unat after]))" by (simp only: c loop_tasks_concat)
    then show ?thesis by auto
  qed
  show "in_bounds (loop_init c) s" using all [OF assms(2,3)] assms(1) by (auto simp: c loop_pre_def loop_init_def)
  show "agree s s'" if "t' \<in> set (loop_tasks c)" "s' \<in> set t'"
    using all [OF assms(2,3)] all [OF that] assms(1) unfolding c loop_pre_def by blast
qed

interpretation loop_phase: parallel_phase loop_pre loop_tasks loop_init
  by unfold_locales (fact loop_store)+

end
