(* ===== verification/PoolPushLoops.thy ===== *)
theory PoolPushLoops
  imports PoolLoopRuns
begin

text \<open>
  \<open>push_loop\<close> (\<open>ortoa-lbl/BS_thread_pool.hpp\<close>): a loop on the pool without futures.  Who pushes it has
  \<open>wait_for_tasks\<close> to wait with, which counts the tasks of all clients.
\<close>

section \<open>The loops without futures\<close>

text \<open>The tasks that are pushed; and the loops that begin at 0.\<close>

definition push_loop :: "32 word \<Rightarrow> size_t \<Rightarrow> size_t \<Rightarrow> (size_t \<Rightarrow> size_t \<Rightarrow> 'r) \<Rightarrow> size_t \<Rightarrow> 'r list res" where
  "push_loop thread_count first after loop n =
    bind_res (loop_blocks thread_count first after n) (\<lambda>bs. Inr (map (\<lambda>(s, e). loop s e) bs))"

definition push_loop_to :: "32 word \<Rightarrow> size_t \<Rightarrow> (size_t \<Rightarrow> size_t \<Rightarrow> 'r) \<Rightarrow> size_t \<Rightarrow> 'r list res" where
  "push_loop_to thread_count after loop n = push_loop thread_count 0 after loop n"

definition parallelize_loop_to :: "32 word \<Rightarrow> size_t \<Rightarrow> (size_t \<Rightarrow> size_t \<Rightarrow> 'r) \<Rightarrow> size_t \<Rightarrow> ('r list \<times> nat list) res" where
  "parallelize_loop_to thread_count after loop n = parallelize_loop thread_count 0 after loop n"

lemma push_loop_tasks:
  "push_loop thread_count first after loop n = Inr ts \<longleftrightarrow>
    parallelize_loop thread_count first after loop n = Inr (ts, [0..<length ts])"
  by (auto simp: push_loop_def parallelize_loop_def bind_res_def split: sum.split)

section \<open>Waiting for all tasks\<close>

text \<open>A wait that ends when every push has been counted ends with every task completed.\<close>

lemma wait_over_completed:
  assumes "pool_step\<^sup>*\<^sup>* (thread_pool n m) p" and "pool_step p p'" and "closer p = Waiting" and "closer p' = Waited"
    and "\<not> paused p" and "Pushed \<notin> set (pushers p)" and "length (submitted p) < 2 ^ 64"
  shows "mset (completed p) = mset (submitted p)" and "completed p' = completed p" and "submitted p' = submitted p"
proof -
  from assms(2-4) have over: "tasks_done p \<and> completed p' = completed p \<and> submitted p' = submitted p"
    by (elim pool_stepE client_step.cases worker_step.cases closer_step.cases) simp_all
  moreover have "uncounted p = 0" using assms(6) by (simp add: uncounted_def)
  ultimately show "mset (completed p) = mset (submitted p)"
    using tasks_done_all [OF pool_steps_inv [OF assms(1) pool_inv_start]] assms(5,7) by simp
  show "completed p' = completed p" "submitted p' = submitted p" using over by simp_all
qed

text \<open>The phase whose tasks are \<open>push_loop\<close>'s.\<close>

lemma push_loop_phase:
  assumes "push_loop (determine_thread_count hardware threads) first after (for_loop body) n = Inr ts"
  shows "loop_tasks ((hardware, threads), (first, after, n), body, m) = ts"
    and "loop_init ((hardware, threads), (first, after, n), body, m) = m"
  using assms by (simp_all add: push_loop_tasks loop_tasks_def loop_init_def)

text \<open>
  A loop that is pushed and waited for computes what the loop computes, whatever else the pool has to
  do: when the wait ends, no push is uncounted and all blocks have been pushed, the buffers are those of
  the \<open>for\<close> loop.  (With a push of another client that is not counted yet the wait can end early:
  \<open>wait_ends_early\<close> in \<open>ThreadPoolProperties\<close>.)
\<close>

lemma push_loop_waits:
  fixes hardware threads :: "32 word" and first after n :: size_t
  defines "tc \<equiv> determine_thread_count hardware threads"
  assumes "first \<le> after"
    and "\<forall>i \<in> {unat first..<unat after}. \<forall>s \<in> set (body i). in_bounds m s \<and>
      (\<forall>j \<in> {unat first..<unat after}. \<forall>s' \<in> set (body j). agree s s')"
    and loop: "push_loop tc first after (for_loop body) n = Inr ts"
    and p: "pool_step\<^sup>*\<^sup>* (thread_pool (unat tc) k) p" and "{..<length ts} \<inter> set (submitted p) = {}"
    and e: "(exec_step (jobs ts))\<^sup>*\<^sup>* (exec_start p m) e" and "{..<length ts} \<subseteq> set (submitted (ex_pool e))"
    and over: "pool_step (ex_pool e) p'" "closer (ex_pool e) = Waiting" "closer p' = Waited" "\<not> paused (ex_pool e)"
      "Pushed \<notin> set (pushers (ex_pool e))" "length (submitted (ex_pool e)) < 2 ^ 64"
  shows "apply_stores m (concat (map body [unat first..<unat after])) = Inr (ex_mem e)"
proof -
  let ?c = "((hardware, threads), (first, after, n), body, m) :: loop_config"
  note phase = push_loop_phase [OF loop [unfolded tc_def], of m]
  have pre: "loop_pre ?c" unfolding loop_pre_def prod.case using assms(2,3) by blast
  have names: "\<And>t. t < length ts \<Longrightarrow> t \<notin> set (submitted p)" using assms(6) by blast
  have "pool_step\<^sup>*\<^sup>* (thread_pool (unat tc) k) (ex_pool e)"
    using p exec_steps_pool [OF e] by (simp add: exec_start_def)
  from wait_over_completed(1) [OF this over] assms(8) have "{..<length ts} \<subseteq> set (completed (ex_pool e))"
    by (metis set_mset_mset)
  moreover have "set (completed (ex_pool e)) \<subseteq> set (completed p) \<union> ex_ready e"
    by (rule exec_steps_completed [OF e]) (simp add: exec_start_def)
  ultimately have "{..<length ts} \<subseteq> ex_ready e" using fresh_names(2) [OF p names] by blast
  from loop_phase.pool_result [OF pre, unfolded phase, OF e fresh_names(1) [OF p names] this]
  show ?thesis using loop_tasks_concat [OF assms(2), of hardware threads n body m] by (simp only: phase)
qed

end
