(* ===== verification/ThreadPoolProperties.thy ===== *)
theory ThreadPoolProperties
  imports ThreadPool PoolReset PoolPushLoops
begin

text \<open>
  The properties of the thread pool: \<open>wait_for_tasks\<close> waits, every task gets done, how the wait and the
  destruction can go wrong, what \<open>reset\<close> keeps, and that a loop on the pool computes the loop.
\<close>

section \<open>A pool of one worker and one client\<close>

definition run0 :: "nat pool" where "run0 = thread_pool 1 1"

definition run1 :: "nat pool" where
  "run1 = set_pusher 0 Pushed (run0\<lparr>pl_tasks := pl_tasks run0 @ [7], submitted := submitted run0 @ [7]\<rparr>)"

lemma run_reached: "pool_step\<^sup>*\<^sup>* run0 run1"
  unfolding run1_def
  by (rule r_into_rtranclp [where r = pool_step], rule pool_step.client [OF client_step.push])
    (simp_all add: run0_def thread_pool_def)

section \<open>Tasks\<close>

text \<open>
  When the wait of a pool that is not paused ends, and no client is between pushing its task and
  counting it, every submitted task is completed.
\<close>

lemma wait_for_tasks_waits:
  assumes "pool_step\<^sup>*\<^sup>* (thread_pool n m) p" and "pool_step p p'" and "closer p = Waiting" and "closer p' = Waited"
    and "\<not> paused p" and "Pushed \<notin> set (pushers p)" and "length (submitted p) < 2 ^ 64"
  shows "mset (completed p') = mset (submitted p')"
  using wait_over_completed [OF assms] by simp

text \<open>
  Nothing strands a task.  From every state a pool with a worker can reach while it runs and is
  not paused, its own threads can go on, without further calls, until every task is completed: no
  sequence of pushes, notifications and sleeping workers leaves a task with nobody to take it.
\<close>

lemma every_task_gets_done:
  assumes "pool_step\<^sup>*\<^sup>* (thread_pool n m) p" and "0 < n" and "pl_running p" and "\<not> paused p"
  shows "\<exists>p'. pool_step\<^sup>*\<^sup>* p p' \<and> mset (completed p') = mset (submitted p)"
  by (rule pool_drains [OF pool_steps_alert [OF assms(1) pool_alert_start [OF assms(2)]]
      pool_steps_inv [OF assms(1) pool_inv_start] assms(3,4)])

lemma every_task_gets_done_example: "\<exists>p'. pool_step\<^sup>*\<^sup>* run1 p' \<and> mset (completed p') = {#7#}"
  using every_task_gets_done [OF run_reached [unfolded run0_def]]
  by (simp add: run1_def run0_def thread_pool_def)

section \<open>The destruction\<close>

text \<open>
  C39: \<open>destroy_threads\<close> clears \<open>running\<close> and notifies without the mutex.  A worker that has just seen
  an empty queue and a running pool misses the notification and sleeps for good: there is a run of
  a pool of any number of workers after which its destructor never returns from \<open>join\<close>, wake-ups
  without a notification apart.
\<close>

theorem destruction_hangs:
  assumes "0 < n"
  shows "\<exists>p. pool_step\<^sup>*\<^sup>* (thread_pool n 0) p \<and> closer p = Joining \<and> {p'. pool_step\<^sup>*\<^sup>* p p' \<and> closer p' = Closed} = {}"
proof -
  define a where "a = (thread_pool n 0 :: 'a pool)\<lparr>closer := Waiting, waiting := True\<rparr>"
  define b where "b = a\<lparr>closer := Waited, waiting := False\<rparr>"
  define c where "c = set_worker 0 Checked (b\<lparr>tasks_mutex := True\<rparr>)"
  define d where "d = c\<lparr>closer := Stopping, pl_running := False\<rparr>"
  define e where "e = d\<lparr>closer := Joining, workers := map wake (workers d)\<rparr>"
  define f where "f = set_worker 0 Blocked (e\<lparr>tasks_mutex := False\<rparr>)"
  note defs = a_def b_def c_def d_def e_def f_def thread_pool_def
  have 1: "pool_step (thread_pool n 0) a" unfolding a_def by (rule pool_step.close [OF closer_step.wait]) (simp add: defs)
  have 2: "pool_step a b" unfolding b_def by (rule pool_step.close [OF closer_step.wait_over]) (simp_all add: defs tasks_done_def)
  have 3: "pool_step b c" unfolding c_def by (rule pool_step.work_on [OF worker_step.find_empty]) (use assms in \<open>simp_all add: defs\<close>)
  have 4: "pool_step c d" unfolding d_def by (rule pool_step.close [OF closer_step.stop]) (simp add: defs)
  have 5: "pool_step d e" unfolding e_def by (rule pool_step.close [OF closer_step.notify_all]) (simp add: defs)
  have 6: "pool_step e f" unfolding f_def
    by (rule pool_step.work_on [OF worker_step.sleep]) (use assms in \<open>simp_all add: defs wake_def nth_list_update\<close>)
  have run: "pool_step\<^sup>*\<^sup>* (thread_pool n 0) f"
    by (rule two_steps [where r = pool_step, OF two_steps [where r = pool_step,
          OF two_steps [where r = pool_step, OF rtranclp.rtrancl_refl 1 2] 3 4] 5 6])
  have "overslept f" using assms by (simp add: overslept_def defs set_update_memI)
  then have "overslept p'" if "pool_step\<^sup>*\<^sup>* f p'" for p' using overslept_steps [OF that] by blast
  then have "{p'. pool_step\<^sup>*\<^sup>* f p' \<and> closer p' = Closed} = {}" by (force simp: overslept_def)
  with run \<open>overslept f\<close> show ?thesis by (auto simp: overslept_def)
qed

theorem destruction_hangs_witness:
  "\<exists>p. pool_step\<^sup>*\<^sup>* (thread_pool 1 0 :: nat pool) p \<and> closer p = Joining \<and>
    {p'. pool_step\<^sup>*\<^sup>* p p' \<and> closer p' = Closed} = {}"
  by (rule destruction_hangs) simp

section \<open>A wait that ends too early\<close>

text \<open>
  Of two pushed tasks the one is counted, the other not yet but already completed: the total is 0
  although a counted task is still queued.
\<close>

lemma wait_ends_early:
  "\<exists>p. pool_step\<^sup>*\<^sup>* (thread_pool 1 2) p \<and> closer p = Waited \<and> \<not> paused p \<and> pl_tasks p = [t] \<and> pushers p ! 1 = Counted"
proof -
  define a where "a = set_pusher 0 Pushed ((thread_pool 1 2)\<lparr>pl_tasks := [t], submitted := [t]\<rparr>)"
  define b where "b = set_pusher 1 Pushed (a\<lparr>pl_tasks := [t, t], submitted := [t, t]\<rparr>)"
  define c where "c = set_pusher 1 Counted (b\<lparr>tasks_total := tasks_total b + 1\<rparr>)"
  define d where "d = set_worker 0 (Taken t) (c\<lparr>pl_tasks := [t], begun := begun c @ [t]\<rparr>)"
  define e where "e = set_worker 0 Loop (notify_done (d\<lparr>tasks_total := tasks_total d - 1, completed := completed d @ [t]\<rparr>))"
  define f where "f = e\<lparr>closer := Waiting, waiting := True\<rparr>"
  define g where "g = f\<lparr>closer := Waited, waiting := False\<rparr>"
  note defs = a_def b_def c_def d_def e_def f_def g_def thread_pool_def set_pusher_def set_worker_def notify_done_def
  have 1: "pool_step (thread_pool 1 2) a"
    using pool_step.client [OF client_step.push [of 0 "thread_pool 1 2" t]] by (simp add: a_def thread_pool_def)
  have 2: "pool_step a b" using pool_step.client [OF client_step.push [of 1 a t]] by (simp add: defs)
  have 3: "pool_step b c" unfolding c_def by (rule pool_step.client [OF client_step.count]) (simp_all add: defs)
  have 4: "pool_step c d" unfolding d_def by (rule pool_step.work_on [OF worker_step.take_task]) (simp_all add: defs)
  have 5: "pool_step d e" unfolding e_def by (rule pool_step.work_on [OF worker_step.finish_task]) (simp_all add: defs)
  have 6: "pool_step e f" unfolding f_def by (rule pool_step.close [OF closer_step.wait]) (simp add: defs)
  have 7: "pool_step f g" unfolding g_def by (rule pool_step.close [OF closer_step.wait_over]) (simp_all add: defs tasks_done_def)
  have "pool_step\<^sup>*\<^sup>* (thread_pool 1 2) g"
    by (rule rtranclp.rtrancl_into_rtrancl [where r = pool_step, OF two_steps [where r = pool_step,
          OF two_steps [where r = pool_step, OF two_steps [where r = pool_step, OF rtranclp.rtrancl_refl 1 2] 3 4] 5 6] 7])
  then show ?thesis by (intro exI [of _ g]) (simp add: defs)
qed

section \<open>A wait that does not end\<close>

text \<open>
  C35: \<open>push_task\<close> counts its task after it has released the mutex, and notifies no one who waits for the end
  of the tasks.  When the task is done before it is counted, a thread that has begun to wait in
  between sleeps on a total that has wrapped: with any number of workers there is a run after which
  every task is completed, no client is inside the pool and the total is 0, but \<open>wait_for_tasks\<close> does
  not return as long as nobody pushes another task.
\<close>

theorem wait_misses_the_end:
  assumes "0 < n"
  shows "\<exists>p. pool_step\<^sup>*\<^sup>* (thread_pool n 1) p \<and> pushers p = [Free] \<and> submitted p = [t] \<and> completed p = [t] \<and> tasks_done p \<and>
    {p'. pool_step\<^sup>*\<^sup>* p p' \<and> submitted p' = [t] \<and> closer p' \<noteq> Asleep} = {}"
proof -
  define a where "a = set_pusher 0 Pushed ((thread_pool n 1)\<lparr>pl_tasks := [t], submitted := [t]\<rparr>)"
  define b where "b = set_worker 0 (Taken t) (a\<lparr>pl_tasks := [], begun := [t]\<rparr>)"
  define c where "c = set_worker 0 Loop (notify_done (b\<lparr>tasks_total := tasks_total b - 1, completed := [t]\<rparr>))"
  define d where "d = c\<lparr>closer := Waiting, waiting := True\<rparr>"
  define e where "e = d\<lparr>closer := Asleep\<rparr>"
  define f where "f = set_pusher 0 Counted (e\<lparr>tasks_total := tasks_total e + 1\<rparr>)"
  define g where "g = set_pusher 0 Free f"
  note defs = a_def b_def c_def d_def e_def f_def g_def thread_pool_def set_pusher_def set_worker_def notify_done_def
  have loop: "(replicate n Loop)[0 := Loop] = (replicate n Loop :: 'a worker list)" using assms by (simp add: list_update_same_conv)
  have 1: "pool_step (thread_pool n 1) a"
    using pool_step.client [OF client_step.push [of 0 "thread_pool n 1" t]] by (simp add: a_def thread_pool_def)
  have 2: "pool_step a b"
    using assms pool_step.work_on [OF worker_step.take_task [of 0 a t "[]"]] by (simp add: defs)
  have 3: "pool_step b c"
    using assms pool_step.work_on [OF worker_step.finish_task [of 0 b t]] by (simp add: defs)
  have 4: "pool_step c d" unfolding d_def by (rule pool_step.close [OF closer_step.wait]) (simp add: defs)
  have 5: "pool_step d e" unfolding e_def by (rule pool_step.close [OF closer_step.wait_on]) (simp_all add: defs tasks_done_def)
  have 6: "pool_step e f" unfolding f_def by (rule pool_step.client [OF client_step.count]) (simp_all add: defs)
  have 7: "pool_step f g" unfolding g_def by (rule pool_step.client [OF client_step.notify_none]) (simp_all add: defs loop)
  have run: "pool_step\<^sup>*\<^sup>* (thread_pool n 1) g"
    by (rule rtranclp.rtrancl_into_rtrancl [where r = pool_step, OF two_steps [where r = pool_step,
          OF two_steps [where r = pool_step, OF two_steps [where r = pool_step, OF rtranclp.rtrancl_refl 1 2] 3 4] 5 6] 7])
  have "unwoken g" by (simp add: unwoken_def in_hand_empty defs loop)
  then have "{p'. pool_step\<^sup>*\<^sup>* g p' \<and> submitted p' = [t] \<and> closer p' \<noteq> Asleep} = {}"
    using unwoken_steps [of g] by (auto simp: unwoken_def defs)
  with run show ?thesis by (intro exI [of _ g]) (simp add: defs tasks_done_def)
qed

theorem wait_misses_the_end_witness:
  "\<exists>p. pool_step\<^sup>*\<^sup>* (thread_pool 3 1) p \<and> tasks_done p \<and> completed p = [7 :: nat] \<and>
    {p'. pool_step\<^sup>*\<^sup>* p p' \<and> submitted p' = [7] \<and> closer p' \<noteq> Asleep} = {}"
  using wait_misses_the_end [of 3 "7 :: nat"] by auto

section \<open>Another number of threads\<close>

text \<open>
  C25: \<open>reset\<close> loses no task and runs none twice, however often it is called and whatever the clients
  push in the meantime: the tasks taken and queued are the submitted ones in order.  When the old
  threads are gone none of them has a task in hand; afterwards the pool has the number of threads
  asked for, and, unless it is paused, its new threads can complete every task.
\<close>

theorem reset_keeps_tasks:
  assumes "(reset_step hardware)\<^sup>*\<^sup>* (reset_start hardware n m) r"
  shows "begun (rs_pool r) @ pl_tasks (rs_pool r) = submitted (rs_pool r) \<and>
    mset (begun (rs_pool r)) = mset (completed (rs_pool r)) + in_hand (rs_pool r) \<and>
    (rs_stage r = Starting \<longrightarrow> in_hand (rs_pool r) = {#}) \<and>
    (rs_stage r = Idle \<longrightarrow> length (workers (rs_pool r)) = unat (thread_count r)) \<and>
    (rs_stage r = Idle \<and> closer (rs_pool r) = Open \<and> \<not> paused (rs_pool r) \<longrightarrow>
      (\<exists>r'. (reset_step hardware)\<^sup>*\<^sup>* r r' \<and> mset (completed (rs_pool r')) = mset (submitted (rs_pool r))))"
proof -
  have inv: "reset_inv r" by (rule reset_steps_inv [OF assms reset_start_inv])
  then have pool: "pool_inv (rs_pool r)" by (simp add: reset_inv_def)
  moreover have "in_hand (rs_pool r) = {#}" if "rs_stage r = Starting"
    using inv that by (simp add: reset_inv_def in_hand_def)
  moreover have "\<exists>r'. (reset_step hardware)\<^sup>*\<^sup>* r r' \<and> mset (completed (rs_pool r')) = mset (submitted (rs_pool r))"
    if "rs_stage r = Idle" "closer (rs_pool r) = Open" "\<not> paused (rs_pool r)"
  proof -
    have "pool_alert (rs_pool r)" "pl_running (rs_pool r)" using inv that(1,2) by (simp_all add: reset_inv_def)
    from pool_drains [OF this(1) pool this(2) that(3)] obtain p where
      "pool_step\<^sup>*\<^sup>* (rs_pool r) p" "mset (completed p) = mset (submitted (rs_pool r))" by blast
    with reset_steps_pool [OF this(1) that(1), of hardware] show ?thesis by (intro exI [of _ "r\<lparr>rs_pool := p\<rparr>"]) simp
  qed
  ultimately show ?thesis using inv by (simp add: pool_inv_def reset_inv_def)
qed

text \<open>A task is pushed to a paused pool of one thread; the pool is reset to two threads and goes on.\<close>

definition paused_pool :: "nat pool" where
  "paused_pool = (thread_pool 1 1)\<lparr>paused := True, pl_tasks := [7], submitted := [7], tasks_total := 1\<rparr>"

definition closed_pool :: "nat pool" where
  "closed_pool = paused_pool\<lparr>closer := Closed, pl_running := False, workers := [Returned]\<rparr>"

definition new_pool :: "nat pool" where
  "new_pool = paused_pool\<lparr>paused := False, workers := [Loop, Loop]\<rparr>"

lemma paused_reached: "pool_step\<^sup>*\<^sup>* (thread_pool 1 1) paused_pool"
proof -
  define a where "a = (thread_pool 1 1 :: nat pool)\<lparr>paused := True\<rparr>"
  define b where "b = set_pusher 0 Pushed (a\<lparr>pl_tasks := [7], submitted := [7]\<rparr>)"
  define c where "c = set_pusher 0 Counted (b\<lparr>tasks_total := 1\<rparr>)"
  note defs = a_def b_def c_def thread_pool_def set_pusher_def
  have 1: "pool_step (thread_pool 1 1) a"
    unfolding a_def by (rule pool_step.client [OF client_step.pause [of 0]]) (simp_all add: thread_pool_def)
  have 2: "pool_step a b" using pool_step.client [OF client_step.push [of 0 a 7]] by (simp add: defs)
  have 3: "pool_step b c" using pool_step.client [OF client_step.count [of 0 b]] by (simp add: defs)
  have 4: "pool_step c paused_pool"
    using pool_step.client [OF client_step.notify_none [of 0 c]] by (simp add: defs paused_pool_def)
  show ?thesis
    by (rule two_steps [where r = pool_step, OF two_steps [where r = pool_step, OF rtranclp.rtrancl_refl 1 2] 3 4])
qed

lemma closed_reached: "(reset_step 4)\<^sup>*\<^sup>* \<lparr>rs_pool = paused_pool, rs_stage = Halting, was_paused = w, thread_count = 1\<rparr>
    \<lparr>rs_pool = closed_pool, rs_stage = Halting, was_paused = w, thread_count = 1\<rparr>"
proof -
  define a where "a = paused_pool\<lparr>closer := Waiting, waiting := True\<rparr>"
  define b where "b = paused_pool\<lparr>closer := Waited\<rparr>"
  define c where "c = b\<lparr>closer := Stopping, pl_running := False\<rparr>"
  define d where "d = c\<lparr>closer := Joining\<rparr>"
  define e where "e = d\<lparr>workers := [Returned]\<rparr>"
  define R where "R p = \<lparr>rs_pool = p, rs_stage = Halting, was_paused = w, thread_count = 1\<rparr>" for p :: "nat pool"
  note defs = a_def b_def c_def d_def e_def paused_pool_def thread_pool_def set_worker_def
  have close: "reset_step 4 (R p) (R p')" if "closer_step p p'" for p p'
    using reset_step.close [of "R p" p' 4] that by (simp add: R_def)
  have 1: "reset_step 4 (R paused_pool) (R a)" unfolding a_def by (rule close, rule closer_step.wait) (simp add: defs)
  have 2: "reset_step 4 (R a) (R b)"
    using closer_step.wait_over [of a] by (intro close) (simp add: defs tasks_done_def)
  have 3: "reset_step 4 (R b) (R c)" unfolding c_def by (rule close, rule closer_step.stop) (simp add: defs)
  have 4: "reset_step 4 (R c) (R d)" using closer_step.notify_all [of c] by (intro close) (simp add: defs wake_def)
  have "worker_step d e" using worker_step.exit_loop [of 0 d] by (simp add: defs)
  then have 5: "reset_step 4 (R d) (R e)" using reset_step.work_on [of "R d" e 4] by (simp add: R_def)
  have 6: "reset_step 4 (R e) (R closed_pool)"
    using closer_step.join [of e] by (intro close) (simp add: defs closed_pool_def)
  from two_steps [where r = "reset_step 4", OF two_steps [where r = "reset_step 4",
        OF two_steps [where r = "reset_step 4", OF rtranclp.rtrancl_refl 1 2] 3 4] 5 6]
  show ?thesis by (simp add: R_def)
qed

lemma new_reached: "(reset_step 4)\<^sup>*\<^sup>* (reset_start 4 1 1) \<lparr>rs_pool = new_pool, rs_stage = Idle, was_paused = True, thread_count = 2\<rparr>"
proof -
  let ?R = "\<lambda>p s w n. \<lparr>rs_pool = p, rs_stage = s, was_paused = w, thread_count = n\<rparr> :: nat rpool"
  let ?start = "reset_start 4 1 1 :: nat rpool"
  have "(reset_step 4)\<^sup>*\<^sup>* ?start (?start\<lparr>rs_pool := paused_pool\<rparr>)"
    by (rule reset_steps_pool) (use paused_reached in \<open>simp_all add: reset_start_def determine_thread_count_def\<close>)
  then have 1: "(reset_step 4)\<^sup>*\<^sup>* ?start (?R paused_pool Idle False 1)"
    by (simp add: reset_start_def determine_thread_count_def)
  have 2: "reset_step 4 (?R paused_pool Idle False 1) (?R paused_pool Reading True 1)"
    using reset_step.read_paused [of "?R paused_pool Idle False 1" 4] by (simp add: paused_pool_def thread_pool_def)
  have 3: "reset_step 4 (?R paused_pool Reading True 1) (?R paused_pool Halting True 1)"
    using reset_step.set_paused [of "?R paused_pool Reading True 1" 4]
    by (simp add: paused_pool_def thread_pool_def)
  let ?gone = "closed_pool\<lparr>workers := []\<rparr>" and ?made = "paused_pool\<lparr>workers := [Loop, Loop]\<rparr>"
  have 4: "reset_step 4 (?R closed_pool Halting True 1) (?R ?gone Starting True 2)"
    using reset_step.new_count [of "?R closed_pool Halting True 1" 4 2]
    by (simp add: closed_pool_def paused_pool_def thread_pool_def determine_thread_count_def)
  have two: "replicate 2 w = [w, w]" for w :: "nat worker" by (simp add: numeral_2_eq_2)
  have 5: "reset_step 4 (?R ?gone Starting True 2) (?R ?made Idle True 2)"
    using reset_step.create_threads [of "?R ?gone Starting True 2" 4]
    by (simp add: closed_pool_def paused_pool_def thread_pool_def two)
  have "client_step ?made new_pool"
    using client_step.pause [of 0 ?made False] by (simp add: new_pool_def paused_pool_def thread_pool_def)
  then have 6: "reset_step 4 (?R ?made Idle True 2) (?R new_pool Idle True 2)"
    using reset_step.client [of "?R ?made Idle True 2" new_pool 4] by simp
  from two_steps [where r = "reset_step 4", OF 1 2 3] closed_reached [of True]
  have "(reset_step 4)\<^sup>*\<^sup>* ?start (?R closed_pool Halting True 1)" by (rule rtranclp_trans)
  from rtranclp.rtrancl_into_rtrancl [where r = "reset_step 4", OF two_steps [where r = "reset_step 4", OF this 4 5] 6]
  show ?thesis .
qed

theorem reset_keeps_tasks_witness:
  "\<exists>r'. (reset_step 4)\<^sup>*\<^sup>* \<lparr>rs_pool = new_pool, rs_stage = Idle, was_paused = True, thread_count = 2\<rparr> r' \<and>
    mset (completed (rs_pool r')) = {#7#}"
  using reset_keeps_tasks [OF new_reached] by (simp add: new_pool_def paused_pool_def thread_pool_def)

section \<open>Loops\<close>

text \<open>
  C23: a loop on the pool computes what the loop computes.  For a body whose stores fit into the buffers
  and agree where they overlap, whatever the pool has to do besides, however many threads and blocks
  there are and however the threads interleave: when \<open>wait\<close> of the \<open>multi_future\<close> returns, the buffers are
  those of the \<open>for\<close> loop over the range, each index once; and while the pool runs it can return.
\<close>

theorem pool_runs_loop:
  fixes hardware threads :: "32 word" and first after n :: size_t
  defines "tc \<equiv> determine_thread_count hardware threads"
  assumes "first \<le> after"
    and "\<forall>i \<in> {unat first..<unat after}. \<forall>s \<in> set (body i). in_bounds m s \<and>
      (\<forall>j \<in> {unat first..<unat after}. \<forall>s' \<in> set (body j). agree s s')"
    and "parallelize_loop tc first after (for_loop body) n = Inr (ts, mf)"
    and "pool_step\<^sup>*\<^sup>* (thread_pool (unat tc) k) p" and "set mf \<inter> set (submitted p) = {}"
    and "(exec_step (jobs ts))\<^sup>*\<^sup>* (exec_start p m) e"
  shows "length mf \<le> unat (if n = 0 then ucast tc else n) \<and>
    (mf_wait mf e \<longrightarrow> apply_stores m (concat (map body [unat first..<unat after])) = Inr (ex_mem e)) \<and>
    (pl_running (ex_pool e) \<and> \<not> paused (ex_pool e) \<and> set mf \<subseteq> set (submitted (ex_pool e)) \<longrightarrow>
      (\<exists>e'. (exec_step (jobs ts))\<^sup>*\<^sup>* e e' \<and> mf_wait mf e'))"
proof -
  let ?c = "((hardware, threads), (first, after, n), body, m) :: loop_config"
  have pre: "loop_pre ?c" unfolding loop_pre_def prod.case using assms(2,3) by blast
  have ts: "loop_tasks ?c = ts" using assms(4) by (simp add: loop_tasks_def tc_def)
  have init: "loop_init ?c = m" by (simp add: loop_init_def)
  obtain us where us: "parallelize_loop tc first after (for_loop body) n = Inr (us, [0..<length us])"
    "length us \<le> unat (if n = 0 then ucast tc else n)"
    unfolding tc_def by (rule parallelize_loop_eq)
  from assms(4) us(1) have "us = ts" "mf = [0..<length us]" by (metis Pair_inject sum.inject(2))+
  then have mf: "mf = [0..<length ts]" and len: "length ts \<le> unat (if n = 0 then ucast tc else n)"
    using us(2) by (simp_all only:)
  have wait: "mf_wait mf x \<longleftrightarrow> {..<length ts} \<subseteq> ex_ready x" for x by (auto simp: mf_wait_def mf list_all_iff)
  have names: "\<And>t. t < length ts \<Longrightarrow> t \<notin> set (submitted p)" using assms(6) by (auto simp: mf)
  have "0 < unat tc" unfolding tc_def using determine_thread_count_pos by (simp add: unat_gt_0)
  note run = loop_phase.pool_finishes [OF pre this assms(5), unfolded ts init, OF names assms(7)]
  note result = loop_phase.pool_result [OF pre, unfolded ts init, OF assms(7) fresh_names(1) [OF assms(5) names]]
  have "apply_stores m (concat (map body [unat first..<unat after])) = Inr (ex_mem e)" if "mf_wait mf e"
  proof -
    have "concat ts = concat (map body [unat first..<unat after])"
      unfolding ts [symmetric] by (rule loop_tasks_concat [OF assms(2)])
    with result that show ?thesis by (simp only: wait)
  qed
  moreover have "\<exists>e'. (exec_step (jobs ts))\<^sup>*\<^sup>* e e' \<and> mf_wait mf e'"
    if "pl_running (ex_pool e)" "\<not> paused (ex_pool e)" "set mf \<subseteq> set (submitted (ex_pool e))"
  proof -
    have "{..<length ts} \<subseteq> set (submitted (ex_pool e))" using that(3) by (auto simp: mf)
    from run [OF _ that(1,2) this] show ?thesis by (simp only: wait)
  qed
  ultimately show ?thesis using len by (simp add: mf)
qed

text \<open>A loop that stores its index into ten cells, on three threads.\<close>

definition cells :: mem where
  "cells = (\<lambda>_. replicate 10 0)"

definition cell_store :: "nat \<Rightarrow> store list" where
  "cell_store i = [(LA, i, [of_nat i])]"

lemma cell_stores_agree: "s \<in> set (cell_store i) \<Longrightarrow> s' \<in> set (cell_store j) \<Longrightarrow> agree s s'"
  unfolding agree_def by (auto simp: cell_store_def) (metis le_antisym less_Suc_eq_le)

lemma cells_stored:
  "(case apply_stores cells (concat (map cell_store [2..<9])) of Inr m \<Rightarrow> m LA | Inl er \<Rightarrow> []) = [0, 0, 2, 3, 4, 5, 6, 7, 8, 0]"
  by code_simp

theorem pool_runs_loop_witness:
  "\<exists>ts mf e. parallelize_loop 3 2 9 (for_loop cell_store) 0 = Inr (ts, mf) \<and>
    (exec_step (jobs ts))\<^sup>*\<^sup>* (exec_start (thread_pool 3 3) cells) e \<and> mf_wait mf e \<and>
    ex_mem e LA = [0, 0, 2, 3, 4, 5, 6, 7, 8, 0]"
proof -
  have tc: "determine_thread_count 4 3 = 3" by (simp add: determine_thread_count_def)
  obtain ts where ts: "parallelize_loop 3 2 9 (for_loop cell_store) 0 = Inr (ts, [0..<length ts])"
    and len: "length ts \<le> 3"
    by (rule parallelize_loop_eq [of 4 3 2 9 cell_store 0]) (simp add: tc)
  have range: "(2 :: size_t) \<le> 9" by simp
  have body: "\<forall>i \<in> {unat (2 :: size_t)..<unat (9 :: size_t)}. \<forall>s \<in> set (cell_store i). in_bounds cells s \<and>
      (\<forall>j \<in> {unat (2 :: size_t)..<unat (9 :: size_t)}. \<forall>s' \<in> set (cell_store j). agree s s')"
    using cell_stores_agree by (auto simp: cell_store_def cells_def)
  have new: "set [0..<length ts] \<inter> set (submitted (thread_pool 3 3)) = {}" by (simp add: thread_pool_def)
  have start: "pool_step\<^sup>*\<^sup>* (thread_pool (unat (determine_thread_count 4 3)) 3) (thread_pool 3 3)" by (simp add: tc)
  note loop = pool_runs_loop [where hardware = 4 and threads = 3 and first = 2 and after = 9 and n = 0 and body = cell_store
      and m = cells and ts = ts and mf = "[0..<length ts]" and k = 3 and p = "thread_pool 3 3",
      unfolded tc, OF range body ts start [unfolded tc] new]
  obtain p where p: "pool_step\<^sup>*\<^sup>* (thread_pool 3 3) p" "submitted p = [0..<length ts]" "pl_running p" "\<not> paused p"
    using pushes [OF len, of 3] by blast
  have fit: "fitting (jobs ts) cells"
    using loop_phase.fitting_tasks [of "((4, 3), (2, 9, 0), cell_store, cells)"] ts body
    by (simp add: loop_pre_def loop_tasks_def loop_init_def tc)
  have "exec_inv (jobs ts) cells (exec_start (thread_pool 3 3) cells)"
    by (rule exec_start_inv) (simp add: idle_for_def thread_pool_def)
  from pool_steps_simulated [OF p(1) fit this] obtain e where
    e: "(exec_step (jobs ts))\<^sup>*\<^sup>* (exec_start (thread_pool 3 3) cells) e" "ex_pool e = p" by (auto simp: exec_start_def)
  from loop [OF e(1)] e(2) p(2-4) obtain e' where e': "(exec_step (jobs ts))\<^sup>*\<^sup>* e e'" "mf_wait [0..<length ts] e'" by auto
  from rtranclp_trans [OF e(1) e'(1)] have all: "(exec_step (jobs ts))\<^sup>*\<^sup>* (exec_start (thread_pool 3 3) cells) e'" .
  from loop [OF all] e'(2) have "apply_stores cells (concat (map cell_store [2..<9])) = Inr (ex_mem e')" by simp
  with cells_stored have "ex_mem e' LA = [0, 0, 2, 3, 4, 5, 6, 7, 8, 0]" by simp
  with ts all e'(2) show ?thesis by blast
qed

end
