(* ===== verification/PoolPhaseProperties.thy ===== *)
theory PoolPhaseProperties
  imports LabelProperties PoolPhases
begin

text \<open>
  The helper and the thread pool together: the parts of an entry and of an access are tasks of the
  pool, and the futures the caller waits for get ready and tell it the truth.
\<close>

section \<open>Entries\<close>

lemma length_tasks_of: "(\<And>part. part < n \<Longrightarrow> f part = Inr (g part)) \<Longrightarrow> length (tasks_of (map_res f [0..<n])) = n"
  by (subst map_res_Inr [where g = g]) (simp_all add: tasks_of_def)

lemma length_put_tasks: "put_pre c \<Longrightarrow> length (put_tasks c) = PROXY_NUM_THREADS"
  unfolding put_tasks_def case_prod_beta by (rule length_tasks_of) (simp add: put_pre_def case_prod_beta putEntryParallel_eq)

lemmas put_pool = parallel_phase.pool_result [OF put_phase.parallel_phase_axioms]
  parallel_phase.pool_finishes [OF put_phase.parallel_phase_axioms]
  parallel_phase.fitting_tasks [OF put_phase.parallel_phase_axioms]

text \<open>
  C22: a pool builds the PUT entry.  Whatever a pool of any number of workers has to do besides, and
  however its workers interleave, when the futures of the eight parts are ready the buffers are the
  entry of \<open>constructPutEntry\<close>; and while the pool runs they can get ready.
\<close>

theorem pool_builds_put_entry:
  assumes "sodium_ok S" and "fresh_ok F" and "length v \<le> VALUE_SIZE"
    and "masterKeys st key = Some old" and "length old = KEYBYTES"
    and "pool_step\<^sup>*\<^sup>* (thread_pool n k) p" and "\<And>part. part < PROXY_NUM_THREADS \<Longrightarrow> part \<notin> set (submitted p)"
    and "(exec_step (jobs (put_tasks (S, F, pad v, old))))\<^sup>*\<^sup>* (exec_start p rekey_init) e"
  shows "({..<PROXY_NUM_THREADS} \<subseteq> ex_ready e \<longrightarrow>
      fst (constructPutEntry S F key v st) = Inr (entry_of key (ex_mem e))) \<and>
    (0 < n \<and> pl_running (ex_pool e) \<and> \<not> paused (ex_pool e) \<and> {..<PROXY_NUM_THREADS} \<subseteq> set (submitted (ex_pool e)) \<longrightarrow>
      (\<exists>e'. (exec_step (jobs (put_tasks (S, F, pad v, old))))\<^sup>*\<^sup>* e e' \<and> {..<PROXY_NUM_THREADS} \<subseteq> ex_ready e'))"
proof -
  let ?c = "(S, F, pad v, old)"
  from put_entry_stores [OF assms(1-5)] obtain m where pre: "put_pre ?c" and
    entry: "apply_stores rekey_init (concat (put_tasks ?c)) = Inr m" "fst (constructPutEntry S F key v st) = Inr (entry_of key m)"
    by blast
  note len = length_put_tasks [OF pre]
  have names: "\<And>t. t < length (put_tasks ?c) \<Longrightarrow> t \<notin> set (submitted p)" using assms(7) by (simp add: len)
  from put_pool(1) [OF pre assms(8) fresh_names(1) [OF assms(6) names]] entry
    put_pool(2) [OF pre _ assms(6) names assms(8)]
  show ?thesis unfolding len by auto
qed

theorem pool_builds_put_entry_witness:
  "\<exists>e. (exec_step (jobs (put_tasks (toy_sodium, toy_fresh 9, pad [65], replicate KEYBYTES 1))))\<^sup>*\<^sup>*
      (exec_start (thread_pool 3 8) rekey_init) e \<and>
    fst (constructPutEntry toy_sodium (toy_fresh 9) ''5'' [65] toy_helper) = Inr (entry_of ''5'' (ex_mem e))"
proof -
  let ?job = "jobs (put_tasks (toy_sodium, toy_fresh 9, pad [65], replicate KEYBYTES 1))"
  let ?start = "exec_start (thread_pool 3 8) rekey_init"
  have v: "length [65 :: byte] \<le> VALUE_SIZE" by (simp add: layout)
  have fresh: "part \<notin> set (submitted (thread_pool 3 8))" for part :: nat by (simp add: thread_pool_def)
  note built = pool_builds_put_entry [OF toy_sodium_ok toy_fresh_ok v toy_master rtranclp.rtrancl_refl fresh]
  have pre: "put_pre (toy_sodium, toy_fresh 9, pad [65], replicate KEYBYTES 1)"
    using put_entry_stores [OF toy_sodium_ok toy_fresh_ok v toy_master] by blast
  have inv: "exec_inv ?job rekey_init ?start"
    by (rule exec_start_inv) (simp add: idle_for_def thread_pool_def)
  obtain p where p: "pool_step\<^sup>*\<^sup>* (thread_pool 3 8) p" "submitted p = [0..<8]" "pl_running p" "\<not> paused p"
    using pushes [of 8 8 3] by blast
  from pool_steps_simulated [OF p(1) put_pool(3) [OF pre] inv] obtain e where
    e: "(exec_step ?job)\<^sup>*\<^sup>* ?start e" "ex_pool e = p" by (auto simp: exec_start_def)
  have "{..<PROXY_NUM_THREADS} \<subseteq> set (submitted (ex_pool e))" by (auto simp: e(2) p(2) PROXY_NUM_THREADS_def)
  with built [OF e(1)] e(2) p(3,4) obtain e' where e': "(exec_step ?job)\<^sup>*\<^sup>* e e'" "{..<PROXY_NUM_THREADS} \<subseteq> ex_ready e'"
    by auto
  from rtranclp_trans [OF e(1) e'(1)] built [OF rtranclp_trans [OF e(1) e'(1)]] e'(2) show ?thesis by blast
qed

end
