(* ===== verification/TeeEngine.thy ===== *)
theory TeeEngine
  imports Strings
begin

text \<open>
  \<open>ortoa-tee/src/libcommon/src/encryption_engine.cpp\<close>, the cipher half: the salted encryption the
  client and the enclave use.  OpenSSL's \<open>EVP\<close> interface and the C++ random number library
  are a parameter, the record \<open>ssl\<close>; what the code relies on is \<open>ssl_ok\<close>.
  \<open>asserts\<close> says whether the program is built with its assertions on.
\<close>

section \<open>OpenSSL and the random numbers\<close>

record ('c, 'g) ssl =
  asserts :: bool
  ctx_new :: bool
  enc_init :: "bytes \<Rightarrow> bytes \<Rightarrow> 'c option"
  enc_update :: "'c \<Rightarrow> bytes \<Rightarrow> ('c \<times> bytes) option"
  enc_final :: "'c \<Rightarrow> bytes option"
  dec_init :: "bytes \<Rightarrow> bytes \<Rightarrow> 'c option"
  dec_update :: "'c \<Rightarrow> bytes \<Rightarrow> ('c \<times> bytes) option"
  dec_final :: "'c \<Rightarrow> bytes option"
  uniform :: "nat \<Rightarrow> nat \<Rightarrow> 'g \<Rightarrow> nat \<times> 'g"

text \<open>The three calls in a row, as one function.\<close>

definition cbc_encrypt :: "('c, 'g) ssl \<Rightarrow> bytes \<Rightarrow> bytes \<Rightarrow> bytes \<Rightarrow> (bytes \<times> bytes) option" where
  "cbc_encrypt E key iv pt =
    (case enc_init E key iv of None \<Rightarrow> None | Some c \<Rightarrow>
     case enc_update E c pt of None \<Rightarrow> None | Some (c', d) \<Rightarrow>
     case enc_final E c' of None \<Rightarrow> None | Some d' \<Rightarrow> Some (d, d'))"

definition cbc_decrypt :: "('c, 'g) ssl \<Rightarrow> bytes \<Rightarrow> bytes \<Rightarrow> bytes \<Rightarrow> (bytes \<times> bytes) option" where
  "cbc_decrypt E key iv ct =
    (case dec_init E key iv of None \<Rightarrow> None | Some c \<Rightarrow>
     case dec_update E c ct of None \<Rightarrow> None | Some (c', d) \<Rightarrow>
     case dec_final E c' of None \<Rightarrow> None | Some d' \<Rightarrow> Some (d, d'))"

definition cipher_len :: "nat \<Rightarrow> nat" where
  "cipher_len n = 16 * (n div 16 + 1)"

text \<open>
  AES-256-CBC with padding: every text has a ciphertext of the next multiple of 16 bytes, it
  decrypts to the text, and the empty string gives no output and is no ciphertext.
\<close>

definition cipher_law :: "('c, 'g) ssl \<Rightarrow> bool" where
  "cipher_law E \<longleftrightarrow> (\<forall>key iv pt. length key = 32 \<longrightarrow> length iv = 16 \<longrightarrow>
    (\<exists>d d' p p'. cbc_encrypt E key iv pt = Some (d, d') \<and> length (d @ d') = cipher_len (length pt) \<and>
       cbc_decrypt E key iv (d @ d') = Some (p, p') \<and> p @ p' = pt))"

definition empty_law :: "('c, 'g) ssl \<Rightarrow> bool" where
  "empty_law E \<longleftrightarrow> (\<forall>key iv c c' d. dec_init E key iv = Some c \<longrightarrow> dec_update E c [] = Some (c', d) \<longrightarrow>
     d = [] \<and> dec_final E c' = None)"

definition uniform_law :: "('c, 'g) ssl \<Rightarrow> bool" where
  "uniform_law E \<longleftrightarrow> (\<forall>a b g. a \<le> b \<longrightarrow> a \<le> fst (uniform E a b g) \<and> fst (uniform E a b g) \<le> b)"

definition ssl_ok :: "('c, 'g) ssl \<Rightarrow> bool" where
  "ssl_ok E \<longleftrightarrow> ctx_new E \<and> cipher_law E \<and> empty_law E \<and> uniform_law E"

section \<open>The engine\<close>

text \<open>
  The key string has 31 characters: AES-256 reads its 32 bytes through \<open>c_str()\<close>, the last one
  being the terminator.
\<close>

definition encryption_string :: bytes where
  "encryption_string = to_bytes ''0123456789abcdefghijklmnopqrstu''"

definition iv_string :: bytes where
  "iv_string = to_bytes ''a1b2c3d4e5f6g7h8''"

definition rng_max_len :: nat where
  "rng_max_len = 10"

definition c_str :: "bytes \<Rightarrow> bytes" where
  "c_str s = s @ [0]"

text \<open>The last \<open>#\<close> ends the value; a string without one is returned whole.\<close>

fun extractKey_from :: "bytes \<Rightarrow> nat \<Rightarrow> bytes" where
  "extractKey_from s 0 = s"
| "extractKey_from s (Suc i) = (if s ! i = 35 then take i s else extractKey_from s i)"

definition extractKey :: "bytes \<Rightarrow> bytes" where
  "extractKey s = extractKey_from s (length s)"

definition rand_uint32 :: "('c, 'g) ssl \<Rightarrow> nat \<Rightarrow> nat \<Rightarrow> 'g \<Rightarrow> nat \<times> 'g" where
  "rand_uint32 E lo hi g = uniform E lo hi g"

definition alphanum :: bytes where
  "alphanum = to_bytes ''0123456789''"

fun rand_str :: "('c, 'g) ssl \<Rightarrow> nat \<Rightarrow> 'g \<Rightarrow> bytes \<times> 'g" where
  "rand_str E 0 g = ([], g)"
| "rand_str E (Suc n) g =
     (let (s, g') = rand_str E n g; (r, g'') = rand_uint32 E 0 500 g'
      in (s @ [alphanum ! (r mod 10)], g''))"

text \<open>
  \<open>encrypt\<close> and \<open>decrypt\<close> on pointers: the output buffer is the argument \<open>out\<close>, whatever it
  holds; the result is the number of bytes written and the buffer.  \<open>handle_errors\<close> aborts.
\<close>

definition encrypt_ptr :: "('c, 'g) ssl \<Rightarrow> bytes \<Rightarrow> bytes \<Rightarrow> bytes \<Rightarrow> bytes \<Rightarrow> (nat \<times> bytes) res" where
  "encrypt_ptr E plaintext key iv out =
    (if \<not> ctx_new E then Inl ProcessExit else
     case enc_init E key iv of None \<Rightarrow> Inl ProcessExit | Some ctx \<Rightarrow>
     case enc_update E ctx plaintext of None \<Rightarrow> Inl ProcessExit | Some (ctx, d) \<Rightarrow>
     bind_res (write_at out 0 d) (\<lambda>out.
     case enc_final E ctx of None \<Rightarrow> Inl ProcessExit | Some d' \<Rightarrow>
     bind_res (write_at out (length d) d') (\<lambda>out. Inr (length d + length d', out))))"

definition decrypt_ptr :: "('c, 'g) ssl \<Rightarrow> bytes \<Rightarrow> bytes \<Rightarrow> bytes \<Rightarrow> bytes \<Rightarrow> (nat \<times> bytes) res" where
  "decrypt_ptr E ciphertext key iv out =
    (if \<not> ctx_new E then Inl ProcessExit else
     case dec_init E key iv of None \<Rightarrow> Inl ProcessExit | Some ctx \<Rightarrow>
     case dec_update E ctx ciphertext of None \<Rightarrow> Inl ProcessExit | Some (ctx, d) \<Rightarrow>
     bind_res (write_at out 0 d) (\<lambda>out.
     case dec_final E ctx of None \<Rightarrow> Inl ProcessExit | Some d' \<Rightarrow>
     bind_res (write_at out (length d) d') (\<lambda>out. Inr (length d + length d', out))))"

definition key_ptr :: "bytes \<Rightarrow> bytes res" where
  "key_ptr s = read_at (c_str s) 0 32"

definition iv_ptr :: "bytes \<Rightarrow> bytes res" where
  "iv_ptr s = read_at (c_str s) 0 16"

definition encrypt_str :: "('c, 'g) ssl \<Rightarrow> bytes \<Rightarrow> bytes \<Rightarrow> (nat \<times> bytes) res" where
  "encrypt_str E plain_text cipher_text =
    bind_res (key_ptr encryption_string) (\<lambda>key. bind_res (iv_ptr iv_string) (\<lambda>iv.
    bind_res (encrypt_ptr E plain_text key iv cipher_text) (\<lambda>(text_len, out).
      if asserts E \<and> \<not> 0 < text_len then Inl ProcessExit else Inr (text_len, out))))"

text \<open>\<open>text\<close> is the uninitialised array of 4096 bytes the plaintext is written to.\<close>

definition decrypt_str :: "('c, 'g) ssl \<Rightarrow> bytes \<Rightarrow> bytes \<Rightarrow> bytes res" where
  "decrypt_str E text cipher_text =
    bind_res (key_ptr encryption_string) (\<lambda>key. bind_res (iv_ptr iv_string) (\<lambda>iv.
    bind_res (decrypt_ptr E cipher_text key iv text) (\<lambda>(text_len, text).
      if asserts E \<and> \<not> 0 < text_len then Inl ProcessExit
      else Inr (takeWhile (\<lambda>b. b \<noteq> 0) (take text_len text)))))"

definition encryptNonDeterministic ::
  "('c, 'g) ssl \<Rightarrow> bytes \<Rightarrow> bytes \<Rightarrow> 'g \<Rightarrow> (nat \<times> bytes) res \<times> 'g" where
  "encryptNonDeterministic E plain_text cipher_text g =
    (let (s, g') = rand_str E rng_max_len g in (encrypt_str E (plain_text @ [35] @ s) cipher_text, g'))"

definition decryptNonDeterministic :: "('c, 'g) ssl \<Rightarrow> bytes \<Rightarrow> bytes \<Rightarrow> bytes res" where
  "decryptNonDeterministic E text cipher_text =
    bind_res (decrypt_str E text cipher_text) (\<lambda>s. Inr (extractKey s))"

section \<open>The value and its salt\<close>

lemma extractKey_from_app:
  assumes "35 \<notin> set (drop n s)"
  shows "n \<le> k \<Longrightarrow> k \<le> length s \<Longrightarrow> extractKey_from s k = extractKey_from s n"
proof (induction k)
  case (Suc k)
  show ?case
  proof (cases "n = Suc k")
    case False
    with Suc.prems have k: "n \<le> k" "k < length s" by simp_all
    then have "s ! k \<in> set (drop n s)"
      using nth_mem [of "k - n" "drop n s"] by simp
    with assms have "s ! k \<noteq> 35" by auto
    with Suc.IH k show ?thesis by simp
  qed simp
qed simp

lemma extractKey_salted: "35 \<notin> set salt \<Longrightarrow> extractKey (v @ [35] @ salt) = v"
  using extractKey_from_app [of "Suc (length v)" "v @ [35] @ salt" "length (v @ [35] @ salt)"]
  by (simp add: extractKey_def nth_append)

lemma extractKey_from_none: "35 \<notin> set (take n s) \<Longrightarrow> n \<le> length s \<Longrightarrow> extractKey_from s n = s"
  by (induction n) (auto simp: take_Suc_conv_app_nth)

lemma extractKey_none: "35 \<notin> set s \<Longrightarrow> extractKey s = s"
  by (simp add: extractKey_def extractKey_from_none)

lemma extractKey_prefix: "\<exists>k. extractKey s = take k s"
proof -
  have "\<exists>k. extractKey_from s n = take k s" for n
    by (induction n) (auto intro: exI [of _ "length s"])
  then show ?thesis by (simp add: extractKey_def)
qed

definition digits :: "byte set" where
  "digits = set alphanum"

lemma digits_no_separator: "35 \<notin> digits" "0 \<notin> digits"
  by (simp_all add: digits_def alphanum_def to_bytes_def)

lemma rand_str_digits: "length (fst (rand_str E n g)) = n \<and> set (fst (rand_str E n g)) \<subseteq> digits"
proof (induction n)
  case (Suc n)
  have "alphanum ! (k mod 10) \<in> digits" for k
    unfolding digits_def by (rule nth_mem) (simp add: alphanum_def to_bytes_def)
  with Suc show ?case by (simp add: case_prod_beta Let_def)
qed simp

section \<open>Encrypting and decrypting\<close>

lemma key_ptr_ok: "\<exists>k. key_ptr encryption_string = Inr k \<and> length k = 32"
  by (simp add: key_ptr_def read_at_def c_str_def encryption_string_def to_bytes_def)

lemma iv_ptr_ok: "\<exists>k. iv_ptr iv_string = Inr k \<and> length k = 16"
  by (simp add: iv_ptr_def read_at_def c_str_def iv_string_def to_bytes_def)

lemma overwrite_twice:
  "length d + length d' \<le> length out \<Longrightarrow>
    overwrite (overwrite out 0 d) (length d) d' = overwrite out 0 (d @ d')"
  by (simp add: overwrite_def add.commute)

lemma take_overwrite: "length d \<le> length out \<Longrightarrow> take (length d) (overwrite out 0 d) = d"
  by (simp add: overwrite_def)

lemma encrypt_ptr_eq:
  assumes "ctx_new E" and "cbc_encrypt E key iv pt = Some (d, d')"
  shows "encrypt_ptr E pt key iv out = (if length (d @ d') \<le> length out
    then Inr (length (d @ d'), overwrite out 0 (d @ d')) else Inl Undefined)"
  using assms
  by (auto simp: encrypt_ptr_def cbc_encrypt_def write_at_def overwrite_twice split: option.splits)

lemma decrypt_ptr_eq:
  assumes "ctx_new E" and "cbc_decrypt E key iv ct = Some (d, d')"
  shows "decrypt_ptr E ct key iv out = (if length (d @ d') \<le> length out
    then Inr (length (d @ d'), overwrite out 0 (d @ d')) else Inl Undefined)"
  using assms
  by (auto simp: decrypt_ptr_def cbc_decrypt_def write_at_def overwrite_twice split: option.splits)

text \<open>The ciphertext of a text, as the engine produces it.\<close>

definition seal :: "('c, 'g) ssl \<Rightarrow> bytes \<Rightarrow> bytes" where
  "seal E pt = (case key_ptr encryption_string of Inl _ \<Rightarrow> [] | Inr key \<Rightarrow> case iv_ptr iv_string of Inl _ \<Rightarrow> [] | Inr iv \<Rightarrow>
     case cbc_encrypt E key iv pt of None \<Rightarrow> [] | Some (d, d') \<Rightarrow> d @ d')"

lemma seal_ok:
  assumes "ssl_ok E"
  obtains key iv d d' p p' where "key_ptr encryption_string = Inr key" and "iv_ptr iv_string = Inr iv"
    and "cbc_encrypt E key iv pt = Some (d, d')" and "seal E pt = d @ d'"
    and "length (seal E pt) = cipher_len (length pt)"
    and "cbc_decrypt E key iv (seal E pt) = Some (p, p')" and "p @ p' = pt"
proof -
  obtain key where key: "key_ptr encryption_string = Inr key" "length key = 32" using key_ptr_ok by blast
  obtain iv where iv: "iv_ptr iv_string = Inr iv" "length iv = 16" using iv_ptr_ok by blast
  from assms key(2) iv(2) obtain d d' p p' where "cbc_encrypt E key iv pt = Some (d, d')"
    and "length (d @ d') = cipher_len (length pt)"
    and "cbc_decrypt E key iv (d @ d') = Some (p, p')" and "p @ p' = pt"
    unfolding ssl_ok_def cipher_law_def by blast
  moreover from this(1) key(1) iv(1) have "seal E pt = d @ d'" by (simp add: seal_def)
  ultimately show thesis using key(1) iv(1) that by metis
qed

lemma length_seal: "ssl_ok E \<Longrightarrow> length (seal E pt) = cipher_len (length pt)"
  by (rule seal_ok)

lemma cipher_len_pos: "n < cipher_len n"
  unfolding cipher_len_def by presburger

lemma encrypt_str_eq:
  assumes "ssl_ok E"
  shows "encrypt_str E pt out = (if cipher_len (length pt) \<le> length out
    then Inr (cipher_len (length pt), overwrite out 0 (seal E pt)) else Inl Undefined)"
proof -
  have "ctx_new E" using assms by (simp add: ssl_ok_def)
  with seal_ok [OF assms, of pt] obtain key iv where k: "key_ptr encryption_string = Inr key" "iv_ptr iv_string = Inr iv"
    and "encrypt_ptr E pt key iv out = (if cipher_len (length pt) \<le> length out
      then Inr (cipher_len (length pt), overwrite out 0 (seal E pt)) else Inl Undefined)"
    by (metis encrypt_ptr_eq)
  moreover have "0 < cipher_len (length pt)" using cipher_len_pos [of "length pt"] by simp
  ultimately show ?thesis by (simp add: encrypt_str_def)
qed

lemma decrypt_str_seal:
  assumes "ssl_ok E"
  shows "decrypt_str E text (seal E pt) =
    (if length text < length pt then Inl Undefined
     else if asserts E \<and> pt = [] then Inl ProcessExit else Inr (takeWhile (\<lambda>b. b \<noteq> 0) pt))"
proof -
  have "ctx_new E" using assms by (simp add: ssl_ok_def)
  with seal_ok [OF assms, of pt] obtain key iv where "key_ptr encryption_string = Inr key" "iv_ptr iv_string = Inr iv"
    and "decrypt_ptr E (seal E pt) key iv text = (if length pt \<le> length text
      then Inr (length pt, overwrite text 0 pt) else Inl Undefined)"
    by (metis decrypt_ptr_eq)
  then show ?thesis by (simp add: decrypt_str_def take_overwrite not_less)
qed

lemma decrypt_str_empty:
  assumes "ssl_ok E"
  shows "decrypt_str E out [] = Inl ProcessExit"
proof -
  obtain key where key: "key_ptr encryption_string = Inr key" using key_ptr_ok by blast
  obtain iv where iv: "iv_ptr iv_string = Inr iv" using iv_ptr_ok by blast
  have law: "d = [] \<and> dec_final E c' = None"
    if "dec_init E key iv = Some c" "dec_update E c [] = Some (c', d)" for c c' d
    using assms that unfolding ssl_ok_def empty_law_def by blast
  from assms have "ctx_new E" by (simp add: ssl_ok_def)
  then have "decrypt_ptr E [] key iv out = Inl ProcessExit"
  proof (cases "dec_init E key iv")
    case (Some c)
    then show ?thesis
      using law [OF Some] \<open>ctx_new E\<close>
      by (cases "dec_update E c []") (auto simp: decrypt_ptr_def write_at_def)
  qed (simp add: decrypt_ptr_def)
  with key iv show ?thesis by (simp add: decrypt_str_def)
qed

section \<open>Salted values\<close>

text \<open>
  \<open>sealed E v ct\<close>: \<open>ct\<close> is a ciphertext \<open>encryptNonDeterministic\<close> can produce for the value
  \<open>v\<close>, that is for \<open>v\<close>, the separator and ten digits.
\<close>

definition sealed :: "('c, 'g) ssl \<Rightarrow> bytes \<Rightarrow> bytes \<Rightarrow> bool" where
  "sealed E v ct \<longleftrightarrow> (\<exists>salt. length salt = rng_max_len \<and> set salt \<subseteq> digits \<and> ct = seal E (v @ [35] @ salt))"

text \<open>The number of bytes of every ciphertext of a value of \<open>n\<close> bytes.\<close>

definition sealed_len :: "nat \<Rightarrow> nat" where
  "sealed_len n = cipher_len (n + 1 + rng_max_len)"

lemma length_sealed: "ssl_ok E \<Longrightarrow> sealed E v ct \<Longrightarrow> length ct = sealed_len (length v)"
  by (auto simp: sealed_def length_seal sealed_len_def)

lemma sealed_len_pos: "n + 11 < sealed_len n"
  using cipher_len_pos [of "n + 1 + rng_max_len"] by (simp add: sealed_len_def rng_max_len_def)

lemma encryptNonDeterministic_eq:
  assumes "ssl_ok E"
  shows "\<exists>ct. sealed E v ct \<and> encryptNonDeterministic E v out g =
    ((if sealed_len (length v) \<le> length out
      then Inr (sealed_len (length v), overwrite out 0 ct) else Inl Undefined),
     snd (rand_str E rng_max_len g))"
proof -
  let ?s = "fst (rand_str E rng_max_len g)"
  have salt: "length ?s = rng_max_len" "set ?s \<subseteq> digits" using rand_str_digits [of E rng_max_len g] by simp_all
  then have "sealed E v (seal E (v @ [35] @ ?s))" by (auto simp: sealed_def)
  moreover have "length (v @ [35] @ ?s) = length v + 1 + rng_max_len" by (simp add: salt(1))
  ultimately show ?thesis
    unfolding encryptNonDeterministic_def sealed_len_def
    by (auto simp: case_prod_beta Let_def encrypt_str_eq [OF assms])
qed

text \<open>What decryption gives: the bytes up to a NUL, cut at the last separator.\<close>

lemma decrypt_sealed:
  assumes "ssl_ok E" and "sealed E v ct" and "length v + 11 \<le> length text"
  shows "decryptNonDeterministic E text ct =
    Inr (if 0 \<in> set v then extractKey (takeWhile (\<lambda>b. b \<noteq> 0) v) else v)"
proof -
  obtain salt where salt: "length salt = rng_max_len" "set salt \<subseteq> digits"
    and ct: "ct = seal E (v @ [35] @ salt)"
    using assms(2) by (auto simp: sealed_def)
  have "35 \<notin> set salt" "0 \<notin> set salt" using salt(2) digits_no_separator by auto
  then have "takeWhile (\<lambda>b. b \<noteq> 0) (v @ [35] @ salt) =
      (if 0 \<in> set v then takeWhile (\<lambda>b. b \<noteq> 0) v else v @ [35] @ salt)"
    by (auto simp: takeWhile_append)
  moreover have "length (v @ [35] @ salt) \<le> length text"
    using assms(3) salt(1) by (simp add: rng_max_len_def)
  moreover have "v @ [35] @ salt \<noteq> []" by simp
  ultimately show ?thesis
    using extractKey_salted [OF \<open>35 \<notin> set salt\<close>, of v]
    by (simp add: decryptNonDeterministic_def ct decrypt_str_seal [OF assms(1)])
qed

lemma decrypt_empty: "ssl_ok E \<Longrightarrow> decryptNonDeterministic E text [] = Inl ProcessExit"
  by (simp add: decryptNonDeterministic_def decrypt_str_empty)

section \<open>A keyed hash and the printing of buffers\<close>

text \<open>
  \<open>prf_encrypt\<close> gives \<open>HMAC\<close> of OpenSSL, a parameter here, a buffer of 32 bytes and does not look at its result: after a
  failure the length of the string is not initialised.
\<close>

definition prf_encrypt :: "(bytes \<Rightarrow> bytes \<Rightarrow> bytes option) \<Rightarrow> bytes \<Rightarrow> bytes \<Rightarrow> bytes res" where
  "prf_encrypt HMAC key plaintext =
    (case HMAC key plaintext of None \<Rightarrow> Inl Undefined
     | Some result \<Rightarrow> if 32 < length result then Inl Undefined else Inr result)"

definition prf_of :: "(bytes \<Rightarrow> bytes \<Rightarrow> bytes option) \<Rightarrow> bytes \<Rightarrow> bytes res" where
  "prf_of HMAC plain_text = prf_encrypt HMAC encryption_string plain_text"

text \<open>\<open>printf("%02X")\<close>.\<close>

definition hex_digit :: "nat \<Rightarrow> char" where
  "hex_digit d = char_of (if d < 10 then 48 + d else 55 + d)"

definition hex_byte :: "byte \<Rightarrow> string" where
  "hex_byte b = [hex_digit (unat b div 16), hex_digit (unat b mod 16)]"

definition print_it :: "string option \<Rightarrow> bytes option \<Rightarrow> nat \<Rightarrow> string res" where
  "print_it label buff len =
    (if buff = None \<or> len = 0 then Inr []
     else bind_res (read_at (the buff) 0 len) (\<lambda>bs.
       Inr ((case label of None \<Rightarrow> [] | Some l \<Rightarrow> l @ '': '') @ concat (map hex_byte bs) @ [CHR 0x0A])))"

text \<open>What is printed tells the buffer.\<close>

lemma hex_digit_inj: "d < 16 \<Longrightarrow> e < 16 \<Longrightarrow> hex_digit d = hex_digit e \<Longrightarrow> d = e"
proof -
  assume "d < 16" "e < 16" "hex_digit d = hex_digit e"
  moreover from this(3) have "(of_char (hex_digit d) :: nat) = of_char (hex_digit e)" by simp
  ultimately show "d = e" by (simp add: hex_digit_def split: if_splits)
qed

lemma hex_byte_inj: "hex_byte a = hex_byte b \<Longrightarrow> a = b"
proof -
  assume "hex_byte a = hex_byte b"
  moreover have "unat c < 256" for c :: byte using unsigned_less [of c, where ?'a = nat] by simp
  ultimately have "unat a div 16 = unat b div 16" "unat a mod 16 = unat b mod 16"
    by (auto simp: hex_byte_def less_mult_imp_div_less intro: hex_digit_inj)
  then have "unat a = unat b" by (metis div_mult_mod_eq)
  then show "a = b" by (simp add: word_unat_eq_iff)
qed

lemma hex_bytes_inj: "concat (map hex_byte xs) = concat (map hex_byte ys) \<Longrightarrow> xs = ys"
proof (induction xs arbitrary: ys)
  case Nil
  then show ?case by (cases ys) (simp_all add: hex_byte_def)
next
  case (Cons x xs)
  then obtain y ys' where ys: "ys = y # ys'" by (cases ys) (simp_all add: hex_byte_def)
  moreover have "length (hex_byte x) = length (hex_byte y)" by (simp add: hex_byte_def)
  ultimately have "hex_byte x = hex_byte y" "concat (map hex_byte xs) = concat (map hex_byte ys')"
    using Cons.prems by simp_all
  with Cons.IH hex_byte_inj ys show ?case by blast
qed

lemma print_it_inj:
  assumes "print_it label (Some b) (length b) = Inr out" and "print_it label (Some b') (length b') = Inr out" and "out \<noteq> []"
  shows "b = b'"
proof -
  have "b \<noteq> []" "b' \<noteq> []" using assms by (auto simp: print_it_def)
  with assms have "concat (map hex_byte b) = concat (map hex_byte b')" by (auto simp: print_it_def read_at_def)
  then show ?thesis by (rule hex_bytes_inj)
qed

end
