(* ===== verification/TeeMac.thy ===== *)
theory TeeMac
  imports Strings
begin

text \<open>
  \<open>encryption_engine.cpp\<close>, the HMAC half: key generation, signing, verifying and the keyed hash,
  with every failure path.  OpenSSL is a parameter, the record \<open>mac_lib\<close>: each call gives a
  result or fails.  A null pointer is \<open>None\<close>.
\<close>

section \<open>OpenSSL's calls and how the code guards them\<close>

record ('x, 'm, 'k) mac_lib =
  mac_asserts :: bool
  md_ctx_create :: "'x option"
  get_digestbyname :: "string \<Rightarrow> 'm option"
  digest_init :: "'x \<Rightarrow> 'm \<Rightarrow> 'x option"
  sign_init :: "'x \<Rightarrow> 'm \<Rightarrow> 'k \<Rightarrow> 'x option"
  sign_update :: "'x \<Rightarrow> bytes \<Rightarrow> 'x option"
  sign_size :: "'x \<Rightarrow> nat option"
  sign_final :: "'x \<Rightarrow> bytes option"
  ssl_malloc :: "nat \<Rightarrow> bytes option"
  md_size :: "'m \<Rightarrow> nat"
  rand_bytes :: "nat \<Rightarrow> bytes option"
  new_mac_key :: "bytes \<Rightarrow> 'k option"

text \<open>
  \<open>assert(ok); if(!ok) break;\<close>: with assertions on, a failure aborts; otherwise it leaves the
  \<open>do { ... } while(0)\<close>.  \<open>attempt\<close> continues with the value of a call, or takes the exit
  \<open>brk\<close> of the block.
\<close>

definition attempt :: "('x, 'm, 'k) mac_lib \<Rightarrow> 'b \<Rightarrow> 'a option \<Rightarrow> ('a \<Rightarrow> 'b res) \<Rightarrow> 'b res" where
  "attempt M brk r f =
    (case r of None \<Rightarrow> if mac_asserts M then Inl ProcessExit else Inr brk | Some x \<Rightarrow> f x)"

lemma attempt_Some [simp]: "attempt M brk (Some x) f = f x"
  by (simp add: attempt_def)

definition ensure :: "bool \<Rightarrow> unit option" where
  "ensure b = (if b then Some () else None)"

lemma ensure_True [simp]: "ensure True = Some ()"
  by (simp add: ensure_def)

definition hn :: string where
  "hn = ''SHA256''"

definition EVP_MAX_MD_SIZE :: nat where
  "EVP_MAX_MD_SIZE = 64"

text \<open>The five calls with which \<open>sign_it\<close>, \<open>verify_it\<close> and \<open>hmac_it\<close> begin.\<close>

definition digest_sign :: "('x, 'm, 'k) mac_lib \<Rightarrow> 'b \<Rightarrow> bytes \<Rightarrow> 'k \<Rightarrow> ('x \<Rightarrow> 'b res) \<Rightarrow> 'b res" where
  "digest_sign M brk msg pkey f =
    attempt M brk (md_ctx_create M) (\<lambda>ctx.
    attempt M brk (get_digestbyname M hn) (\<lambda>md.
    attempt M brk (digest_init M ctx md) (\<lambda>ctx.
    attempt M brk (sign_init M ctx md pkey) (\<lambda>ctx.
    attempt M brk (sign_update M ctx msg) f))))"

section \<open>Signing, verifying, hashing\<close>

text \<open>
  The common body of \<open>sign_it\<close> and \<open>hmac_it\<close>; the result is the return value, the pointer and the
  length they leave in their last two arguments.  After the allocation a failure leaves the
  allocated buffer behind.  \<open>checked\<close>: whether a length other than the announced one breaks.
\<close>

definition mac_body :: "bool \<Rightarrow> ('x, 'm, 'k) mac_lib \<Rightarrow> bytes \<Rightarrow> 'k \<Rightarrow> (int \<times> bytes option \<times> nat) res" where
  "mac_body checked M msg pkey =
    (let failed = (1, None, 0) in
     digest_sign M failed msg pkey (\<lambda>ctx.
     attempt M failed (sign_size M ctx) (\<lambda>req.
     attempt M failed (ensure (0 < req)) (\<lambda>_.
     attempt M failed (ssl_malloc M req) (\<lambda>buf.
     attempt M (1, Some buf, req) (sign_final M ctx) (\<lambda>d.
     bind_res (write_at buf 0 d) (\<lambda>buf.
       if req = length d then Inr (0, Some buf, length d)
       else if mac_asserts M then Inl ProcessExit
       else Inr (if checked then 1 else 0, Some buf, length d))))))))"

definition sign_it :: "('x, 'm, 'k) mac_lib \<Rightarrow> bytes option \<Rightarrow> bytes option \<Rightarrow> nat \<Rightarrow> 'k option \<Rightarrow>
    (int \<times> bytes option \<times> nat) res" where
  "sign_it M msg sig slen pkey =
    (case (msg, pkey) of
       (Some (b # bs), Some k) \<Rightarrow> mac_body False M (b # bs) k
     | _ \<Rightarrow> if mac_asserts M then Inl ProcessExit else Inr (-1, sig, slen))"

definition hmac_it :: "('x, 'm, 'k) mac_lib \<Rightarrow> bytes option \<Rightarrow> bytes option \<Rightarrow> nat \<Rightarrow> 'k option \<Rightarrow>
    (int \<times> bytes option \<times> nat) res" where
  "hmac_it M msg val vlen pkey =
    (case (msg, pkey) of
       (Some (b # bs), Some k) \<Rightarrow> mac_body True M (b # bs) k
     | _ \<Rightarrow> if mac_asserts M then Inl ProcessExit else Inr (-1, val, vlen))"

definition verify_it :: "('x, 'm, 'k) mac_lib \<Rightarrow> bytes option \<Rightarrow> bytes option \<Rightarrow> 'k option \<Rightarrow> int res" where
  "verify_it M msg sig pkey =
    (case (msg, sig, pkey) of
       (Some (b # bs), Some (s # ss), Some k) \<Rightarrow>
         digest_sign M 1 (b # bs) k (\<lambda>ctx.
         attempt M 1 (sign_final M ctx) (\<lambda>d.
         if EVP_MAX_MD_SIZE < length d then Inl Undefined else
         attempt M 1 (ensure (0 < length d)) (\<lambda>_.
           let m = min (length (s # ss)) (length d) in
           Inr (if take m (s # ss) = take m d then 0 else 1))))
     | _ \<Rightarrow> if mac_asserts M then Inl ProcessExit else Inr (-1))"

definition hmac :: "('x, 'm, 'k) mac_lib \<Rightarrow> 'k option \<Rightarrow> bytes \<Rightarrow> bytes res" where
  "hmac M skey key =
    bind_res (hmac_it M (Some key) None 256 skey) (\<lambda>(res, val, val_len).
      case val of None \<Rightarrow> if val_len = 0 then Inr [] else Inl Undefined
      | Some v \<Rightarrow> read_at v 0 val_len)"

section \<open>Keys\<close>

definition make_keys :: "('x, 'm, 'k) mac_lib \<Rightarrow> (int \<times> 'k option \<times> 'k option) res" where
  "make_keys M =
    (let failed = (1, None, None) in
     attempt M failed (get_digestbyname M hn) (\<lambda>md.
     let size = md_size M md in
     attempt M failed (ensure (16 \<le> size)) (\<lambda>_.
     attempt M failed (ensure (size \<le> EVP_MAX_MD_SIZE)) (\<lambda>_.
     attempt M failed (rand_bytes M size) (\<lambda>hkey.
     attempt M failed (new_mac_key M hkey) (\<lambda>skey.
     attempt M (1, Some skey, None) (new_mac_key M hkey) (\<lambda>vkey.
       Inr (0, Some skey, Some vkey))))))))"

text \<open>The constructor exits the process when there are no keys.\<close>

definition engine_keys :: "('x, 'm, 'k) mac_lib \<Rightarrow> ('k option \<times> 'k option) res" where
  "engine_keys M =
    bind_res (make_keys M) (\<lambda>(rc, skey, vkey).
      if rc \<noteq> 0 \<or> skey = None \<or> vkey = None then Inl ProcessExit else Inr (skey, vkey))"

section \<open>What the functions compute when OpenSSL works\<close>

text \<open>
  \<open>mac_ok M mac\<close>: every call succeeds and the final one gives \<open>mac key msg\<close>, of the announced
  length, which fits a digest buffer.
\<close>

definition mac_ok :: "('x, 'm, 'k) mac_lib \<Rightarrow> ('k \<Rightarrow> bytes \<Rightarrow> bytes) \<Rightarrow> bool" where
  "mac_ok M mac \<longleftrightarrow> (\<exists>ctx md. md_ctx_create M = Some ctx \<and> get_digestbyname M hn = Some md \<and>
    (\<exists>ctx'. digest_init M ctx md = Some ctx' \<and>
      (\<forall>k. \<exists>ctx''. sign_init M ctx' md k = Some ctx'' \<and>
        (\<forall>msg. \<exists>x. sign_update M ctx'' msg = Some x \<and> sign_final M x = Some (mac k msg) \<and>
           sign_size M x = Some (length (mac k msg)) \<and>
           0 < length (mac k msg) \<and> length (mac k msg) \<le> EVP_MAX_MD_SIZE)))) \<and>
    (\<forall>n. \<exists>b. ssl_malloc M n = Some b \<and> length b = n)"

definition digest_ctx :: "('x, 'm, 'k) mac_lib \<Rightarrow> bytes \<Rightarrow> 'k \<Rightarrow> 'x option" where
  "digest_ctx M msg pkey =
    Option.bind (md_ctx_create M) (\<lambda>ctx. Option.bind (get_digestbyname M hn) (\<lambda>md.
    Option.bind (digest_init M ctx md) (\<lambda>ctx. Option.bind (sign_init M ctx md pkey) (\<lambda>ctx.
      sign_update M ctx msg))))"

lemma digest_sign_ctx: "digest_ctx M msg k = Some x \<Longrightarrow> digest_sign M brk msg k f = f x"
  by (auto simp: digest_ctx_def digest_sign_def bind_eq_Some_conv)

lemma mac_okE:
  assumes "mac_ok M mac"
  obtains x where "digest_ctx M msg k = Some x"
    and "sign_final M x = Some (mac k msg)" and "sign_size M x = Some (length (mac k msg))"
    and "0 < length (mac k msg)" and "length (mac k msg) \<le> EVP_MAX_MD_SIZE"
proof -
  from assms obtain ctx md ctx' where 1: "md_ctx_create M = Some ctx" "get_digestbyname M hn = Some md"
    "digest_init M ctx md = Some ctx'" and
    sign: "\<And>k. \<exists>ctx''. sign_init M ctx' md k = Some ctx'' \<and>
        (\<forall>msg. \<exists>x. sign_update M ctx'' msg = Some x \<and> sign_final M x = Some (mac k msg) \<and>
           sign_size M x = Some (length (mac k msg)) \<and>
           0 < length (mac k msg) \<and> length (mac k msg) \<le> EVP_MAX_MD_SIZE)"
    unfolding mac_ok_def by metis
  from sign [of k] obtain ctx'' x where 2: "sign_init M ctx' md k = Some ctx''"
    "sign_update M ctx'' msg = Some x" and x: "sign_final M x = Some (mac k msg)"
    "sign_size M x = Some (length (mac k msg))"
    "0 < length (mac k msg)" "length (mac k msg) \<le> EVP_MAX_MD_SIZE" by metis
  from 1 2 have "digest_ctx M msg k = Some x" by (simp add: digest_ctx_def)
  with x that show thesis by blast
qed

lemma mac_ok_malloc: "mac_ok M mac \<Longrightarrow> \<exists>b. ssl_malloc M n = Some b \<and> length b = n"
  unfolding mac_ok_def by blast

lemma mac_body_ok:
  assumes "mac_ok M mac"
  shows "mac_body checked M msg k = Inr (0, Some (mac k msg), length (mac k msg))"
proof -
  obtain x where x: "digest_ctx M msg k = Some x"
    "sign_final M x = Some (mac k msg)" "sign_size M x = Some (length (mac k msg))"
    "0 < length (mac k msg)"
    using mac_okE [OF assms, where msg = msg and k = k] by metis
  obtain b where "ssl_malloc M (length (mac k msg)) = Some b" "length b = length (mac k msg)"
    using mac_ok_malloc [OF assms] by blast
  with x show ?thesis
    by (simp add: mac_body_def Let_def digest_sign_ctx [OF x(1)] write_at_def overwrite_all)
qed

lemma verify_it_ok:
  assumes "mac_ok M mac" and "msg \<noteq> []" and "s \<noteq> []"
  shows "verify_it M (Some msg) (Some s) (Some k) =
    Inr (let m = min (length s) (length (mac k msg)) in if take m s = take m (mac k msg) then 0 else 1)"
proof -
  obtain x where x: "digest_ctx M msg k = Some x"
    "sign_final M x = Some (mac k msg)" "0 < length (mac k msg)" "length (mac k msg) \<le> EVP_MAX_MD_SIZE"
    using mac_okE [OF assms(1), where msg = msg and k = k] by metis
  obtain b bs c cs where m: "msg = b # bs" "s = c # cs"
    using assms(2,3) by (meson neq_Nil_conv)
  from x(1) have ctx: "digest_ctx M (b # bs) k = Some x" by (simp only: m)
  from x m show ?thesis by (simp add: verify_it_def Let_def digest_sign_ctx [OF ctx])
qed

text \<open>Two strings that agree on the shorter one's length.\<close>

lemma agree_on_shorter:
  "(let m = min (length s) (length t) in take m s = take m t) \<longleftrightarrow> take (length t) s = take (length s) t"
  by (auto simp: Let_def min_def)

end
