(* ===== verification/TeeStorage.thy ===== *)
theory TeeStorage
  imports Prelude
begin

text \<open>
  \<open>ortoa-tee/src/libstorage\<close>: the storage interface as a locale and its implementation on Redis.
  Redis is a parameter, the record \<open>redis\<close>; what the code relies on is \<open>redis_ok\<close>.
\<close>

record 'd redis =
  redis_get :: "'d \<Rightarrow> string \<Rightarrow> bytes option"
  redis_set :: "'d \<Rightarrow> string \<Rightarrow> bytes \<Rightarrow> 'd"
  redis_exec :: "'d \<Rightarrow> (string \<times> bytes) list \<Rightarrow> 'd"

definition redis_ok :: "'d redis \<Rightarrow> bool" where
  "redis_ok R \<longleftrightarrow>
    (\<forall>d k v k'. redis_get R (redis_set R d k v) k' = (if k' = k then Some v else redis_get R d k')) \<and>
    (\<forall>d ops. redis_exec R d ops = foldl (\<lambda>d (k, v). redis_set R d k v) d ops)"

definition redisCli_get :: "'d redis \<Rightarrow> 'd \<Rightarrow> string \<Rightarrow> bytes" where
  "redisCli_get R d key = (case redis_get R d key of None \<Rightarrow> [] | Some v \<Rightarrow> v)"

definition redisCli_put :: "'d redis \<Rightarrow> 'd \<Rightarrow> string \<Rightarrow> bytes \<Rightarrow> 'd" where
  "redisCli_put R d key value = redis_set R d key value"

text \<open>The loop queues one command per pair on a pipeline, which is then run.\<close>

definition redisCli_put_batch :: "'d redis \<Rightarrow> 'd \<Rightarrow> (string \<times> bytes) list \<Rightarrow> 'd" where
  "redisCli_put_batch R d operations =
    redis_exec R d (foldl (\<lambda>pipe ope. pipe @ [(fst ope, snd ope)]) [] operations)"

locale storage =
  fixes get :: "'d \<Rightarrow> string \<Rightarrow> bytes"
    and put :: "'d \<Rightarrow> string \<Rightarrow> bytes \<Rightarrow> 'd"
    and put_batch :: "'d \<Rightarrow> (string \<times> bytes) list \<Rightarrow> 'd"
    and ok :: bool
  assumes get_put: "ok \<Longrightarrow> get (put d k v) = (get d)(k := v)"
    and batch: "ok \<Longrightarrow> put_batch d ops = foldl (\<lambda>d (k, v). put d k v) d ops"
begin

lemma get_foldl_put: "ok \<Longrightarrow>
    get (foldl (\<lambda>d (k, v). put d k v) d ops) k = (case map_of (rev ops) k of None \<Rightarrow> get d k | Some v \<Rightarrow> v)"
  by (induction ops rule: rev_induct) (auto simp: get_put)

text \<open>After a batch every key holds its last value in the batch.\<close>

lemma get_put_batch: "ok \<Longrightarrow>
    get (put_batch d ops) k = (case map_of (rev ops) k of None \<Rightarrow> get d k | Some v \<Rightarrow> v)"
  by (simp add: batch get_foldl_put)

lemma put_put_same: "ok \<Longrightarrow> get (put (put d k v) k w) = get (put d k w)"
  by (simp add: get_put)

end

lemma pipe_all: "foldl (\<lambda>pipe ope. pipe @ [ope]) p ops = p @ ops"
  by (induction ops arbitrary: p) simp_all

interpretation redis_store: storage "redisCli_get R" "redisCli_put R" "redisCli_put_batch R" "redis_ok R"
  for R :: "'d redis"
proof
  fix d k v
  assume "redis_ok R"
  then show "redisCli_get R (redisCli_put R d k v) = (redisCli_get R d)(k := v)"
    by (simp add: redis_ok_def fun_eq_iff redisCli_get_def redisCli_put_def)
next
  fix d ops
  assume "redis_ok R"
  then have "redisCli_put_batch R d ops = foldl (\<lambda>d (k, v). redis_set R d k v) d ops"
    by (simp add: redis_ok_def redisCli_put_batch_def pipe_all)
  also have "(\<lambda>d (k, v). redis_set R d k v) = (\<lambda>d (k, v). redisCli_put R d k v)"
    by (simp add: redisCli_put_def)
  finally show "redisCli_put_batch R d ops = foldl (\<lambda>d (k, v). redisCli_put R d k v) d ops" .
qed

end
