(* ===== verification/TeeHost.thy ===== *)
theory TeeHost
  imports TeeEngine TeeMac TeeStorage
begin

text \<open>
  The enclave (\<open>ortoa-tee/src/enclave/ecalls.cpp\<close>), the call boundary that \<open>ortoa.edl\<close> declares
  and the RPC handler of the host (\<open>ortoa-tee/src/host/host.cpp\<close>), one operation at a time and
  with the host's threads interleaved.
\<close>

section \<open>Operations\<close>

datatype OpType = GET | PUT | EOD

fun op_number :: "OpType \<Rightarrow> int" where
  "op_number GET = 0" | "op_number PUT = 1" | "op_number EOD = 2"

record tee_op =
  t_op :: OpType
  t_key :: string
  t_value :: bytes

section \<open>The enclave\<close>

text \<open>
  \<open>decryptNonDeterministic\<close> works in an uninitialised array of 4096 bytes: \<open>junk\<close> is what
  uninitialised bytes hold.
\<close>

definition access_data :: "('c, 'g) ssl \<Rightarrow> ('x, 'm, 'k) mac_lib \<Rightarrow> byte \<Rightarrow> int \<Rightarrow> bytes \<Rightarrow> bytes \<Rightarrow> bytes \<Rightarrow>
    'g \<Rightarrow> (nat \<times> bytes) res \<times> 'g" where
  "access_data E M junk op_const in_val update_val cipher_text g =
    (case engine_keys M of Inl e \<Rightarrow> (Inl e, g) | Inr _ \<Rightarrow>
     let text = replicate 4096 junk in
     if op_const = 0 then
       (case decryptNonDeterministic E text in_val of Inl e \<Rightarrow> (Inl e, g)
        | Inr val_decrypt \<Rightarrow> encryptNonDeterministic E val_decrypt cipher_text g)
     else
       (case decryptNonDeterministic E text update_val of Inl e \<Rightarrow> (Inl e, g)
        | Inr u_val_decrypt \<Rightarrow> encryptNonDeterministic E u_val_decrypt cipher_text g))"

text \<open>
  The call of the enclave.  \<open>[out, count=in_size]\<close> gives the enclave an output buffer of as many
  bytes as the value read from the storage has, and copies that many bytes back into the host's
  array of 4096 bytes; \<open>out_size\<close> points to a variable of the host.  An \<open>abort\<close> or \<open>exit\<close> in the
  enclave stops the enclave: this call and all later ones return an error code.  The result is
  \<open>Some\<close> of the bytes the handler takes from the array, or \<open>None\<close> for an error code.
\<close>

definition enclave_call :: "('c, 'g) ssl \<Rightarrow> ('x, 'm, 'k) mac_lib \<Rightarrow> byte \<Rightarrow> tee_op \<Rightarrow> bytes \<Rightarrow> bool \<times> 'g \<Rightarrow>
    bytes option res \<times> bool \<times> 'g" where
  "enclave_call E M junk ope rd_value = (\<lambda>(alive, g).
    if \<not> alive then (Inr None, alive, g)
    else
      case access_data E M junk (op_number (t_op ope)) rd_value (t_value ope)
          (replicate (length rd_value) junk) g of
        (Inl ProcessExit, g') \<Rightarrow> (Inr None, False, g')
      | (Inl e, g') \<Rightarrow> (Inl e, alive, g')
      | (Inr (out_size, out_val), g') \<Rightarrow>
          (bind_res (write_at (replicate 4096 junk) 0 out_val) (\<lambda>out.
             bind_res (read_at out 0 out_size) (\<lambda>updated_val. Inr (Some updated_val))), alive, g'))"

section \<open>The host\<close>

record ('d, 'g) host =
  storage_server :: 'd
  alive :: bool
  generator :: 'g

definition host_access :: "('c, 'g) ssl \<Rightarrow> ('x, 'm, 'k) mac_lib \<Rightarrow> 'd redis \<Rightarrow> byte \<Rightarrow> tee_op \<Rightarrow>
    ('d, 'g) host \<Rightarrow> bytes res \<times> ('d, 'g) host" where
  "host_access E M R junk ope h =
    (let rd_value = redisCli_get R (storage_server h) (t_key ope) in
     case enclave_call E M junk ope rd_value (alive h, generator h) of
       (Inl e, a, g) \<Rightarrow> (Inl e, h\<lparr>alive := a, generator := g\<rparr>)
     | (Inr None, a, g) \<Rightarrow> (Inr [], h\<lparr>alive := a, generator := g\<rparr>)
     | (Inr (Some updated_val), a, g) \<Rightarrow>
         (Inr updated_val, h\<lparr>alive := a, generator := g,
            storage_server := redisCli_put R (storage_server h) (t_key ope) updated_val\<rparr>))"

section \<open>One call\<close>

text \<open>The plaintext the operation re-encrypts: what was read for GET, the update otherwise.\<close>

definition source_of :: "tee_op \<Rightarrow> bytes \<Rightarrow> bytes" where
  "source_of ope rd_value = (if t_op ope = GET then rd_value else t_value ope)"

lemma op_number_GET: "op_number x = 0 \<longleftrightarrow> x = GET"
  by (cases x) simp_all

lemma access_data_eq:
  assumes "engine_keys M = Inr ks"
  shows "access_data E M junk (op_number (t_op ope)) rd (t_value ope) out g =
    (case decryptNonDeterministic E (replicate 4096 junk) (source_of ope rd) of Inl e \<Rightarrow> (Inl e, g)
     | Inr v \<Rightarrow> encryptNonDeterministic E v out g)"
  by (simp add: access_data_def assms op_number_GET source_of_def Let_def)

text \<open>A value the engine carries: no NUL, and short enough for the decryption buffer.\<close>

definition carried :: "bytes \<Rightarrow> bool" where
  "carried v \<longleftrightarrow> 0 \<notin> set v \<and> length v + 11 \<le> 4096"

lemma read_overwritten:
  "length d \<le> n \<Longrightarrow> n \<le> length b \<Longrightarrow> length o' = n \<Longrightarrow>
    read_at (overwrite b 0 (overwrite o' 0 d)) 0 (length d) = Inr d"
  by (simp add: read_at_def overwrite_def)

lemma enclave_call_ok:
  assumes E: "ssl_ok E" and M: "engine_keys M = Inr ks" and v: "carried v"
    and src: "sealed E v (source_of ope rd)"
    and fits: "sealed_len (length v) \<le> length rd" and small: "length rd \<le> 4096"
  shows "\<exists>ct g'. enclave_call E M junk ope rd (True, g) = (Inr (Some ct), True, g') \<and> sealed E v ct"
proof -
  let ?buf = "replicate (length rd) junk"
  have "decryptNonDeterministic E (replicate 4096 junk) (source_of ope rd) = Inr v"
    using decrypt_sealed [OF E src, of "replicate 4096 junk"] v by (simp add: carried_def)
  moreover obtain ct where ct: "sealed E v ct" "encryptNonDeterministic E v ?buf g =
      (Inr (sealed_len (length v), overwrite ?buf 0 ct), snd (rand_str E rng_max_len g))"
    using encryptNonDeterministic_eq [OF E, of v ?buf g] fits by auto
  ultimately have "access_data E M junk (op_number (t_op ope)) rd (t_value ope) ?buf g =
      (Inr (length ct, overwrite ?buf 0 ct), snd (rand_str E rng_max_len g))"
    using length_sealed [OF E ct(1)] by (simp add: access_data_eq [OF M])
  moreover have "length (overwrite ?buf 0 ct) = length rd"
    using length_sealed [OF E ct(1)] fits by simp
  moreover have "read_at (overwrite (replicate 4096 junk) 0 (overwrite ?buf 0 ct)) 0 (length ct) = Inr ct"
    using length_sealed [OF E ct(1)] fits small by (intro read_overwritten [where n = "length rd"]) simp_all
  ultimately have "enclave_call E M junk ope rd (True, g) = (Inr (Some ct), True, snd (rand_str E rng_max_len g))"
    using small by (simp add: enclave_call_def write_at_def)
  with ct(1) show ?thesis by blast
qed

text \<open>The new ciphertext is longer than the old one: the enclave writes outside its buffer.\<close>

lemma enclave_call_too_long:
  assumes E: "ssl_ok E" and M: "engine_keys M = Inr ks" and v: "carried v"
    and src: "sealed E v (source_of ope rd)" and "length rd < sealed_len (length v)"
  shows "fst (enclave_call E M junk ope rd (True, g)) = Inl Undefined"
proof -
  have "decryptNonDeterministic E (replicate 4096 junk) (source_of ope rd) = Inr v"
    using decrypt_sealed [OF E src, of "replicate 4096 junk"] v by (simp add: carried_def)
  moreover have "fst (encryptNonDeterministic E v (replicate (length rd) junk) g) = Inl Undefined"
    using encryptNonDeterministic_eq [OF E, of v "replicate (length rd) junk" g] assms(5) by auto
  ultimately show ?thesis
    by (cases "encryptNonDeterministic E v (replicate (length rd) junk) g")
      (simp add: enclave_call_def access_data_eq [OF M])
qed

text \<open>Nothing to decrypt: the enclave aborts.\<close>

lemma enclave_call_empty:
  assumes "ssl_ok E" and "engine_keys M = Inr ks" and "source_of ope rd = []"
  shows "enclave_call E M junk ope rd (True, g) = (Inr None, False, g)"
  using assms by (simp add: enclave_call_def access_data_eq decrypt_empty)

end
