(* ===== verification/TeeService.thy ===== *)
theory TeeService
  imports TeeHost
begin

text \<open>
  What the host and the enclave are together: a store of values when the operations come one after
  the other, and what remains of it when the host's threads interleave.
\<close>

section \<open>One operation after the other\<close>

fun host_run :: "('c, 'g) ssl \<Rightarrow> ('x, 'm, 'k) mac_lib \<Rightarrow> 'd redis \<Rightarrow> byte \<Rightarrow> tee_op list \<Rightarrow>
    ('d, 'g) host \<Rightarrow> bytes res list \<times> ('d, 'g) host" where
  "host_run E M R junk [] h = ([], h)"
| "host_run E M R junk (ope # ops) h =
     (let (r, h') = host_access E M R junk ope h; (rs, h'') = host_run E M R junk ops h' in (r # rs, h''))"

text \<open>
  The abstract store: an operation is its kind, its key and the plain value.  It is undefined for a
  missing key and for a value whose ciphertext is longer than the stored one.
\<close>

fun tee_spec :: "OpType \<times> string \<times> bytes \<Rightarrow> (string \<rightharpoonup> bytes) \<Rightarrow> (bytes \<times> (string \<rightharpoonup> bytes)) option" where
  "tee_spec (x, k, w) V =
    (case V k of None \<Rightarrow> None
     | Some v \<Rightarrow> if x = GET then Some (v, V)
         else if sealed_len (length w) \<le> sealed_len (length v) then Some (w, V(k \<mapsto> w)) else None)"

fun tee_spec_run :: "(OpType \<times> string \<times> bytes) list \<Rightarrow> (string \<rightharpoonup> bytes) \<Rightarrow>
    (bytes list \<times> (string \<rightharpoonup> bytes)) option" where
  "tee_spec_run [] V = Some ([], V)"
| "tee_spec_run (a # as) V = Option.bind (tee_spec a V) (\<lambda>(v, V').
     Option.bind (tee_spec_run as V') (\<lambda>(vs, V''). Some (v # vs, V'')))"

definition op_rep :: "('c, 'g) ssl \<Rightarrow> tee_op \<Rightarrow> OpType \<times> string \<times> bytes \<Rightarrow> bool" where
  "op_rep E ope a \<longleftrightarrow> (case a of (x, k, w) \<Rightarrow> t_op ope = x \<and> t_key ope = k \<and>
     (x \<noteq> GET \<longrightarrow> carried w \<and> sealed E w (t_value ope)))"

definition tee_rep :: "('c, 'g) ssl \<Rightarrow> 'd redis \<Rightarrow> (string \<rightharpoonup> bytes) \<Rightarrow> ('d, 'g) host \<Rightarrow> bool" where
  "tee_rep E R V h \<longleftrightarrow> alive h \<and> (\<forall>k v. V k = Some v \<longrightarrow>
     carried v \<and> sealed E v (redisCli_get R (storage_server h) k) \<and> sealed_len (length v) \<le> 4096)"

lemma host_access_refines:
  assumes E: "ssl_ok E" and M: "engine_keys M = Inr ks" and R: "redis_ok R"
    and rep: "tee_rep E R V h" and ope: "op_rep E ope a" and spec: "tee_spec a V = Some (v, V')"
  shows "\<exists>ct h'. host_access E M R junk ope h = (Inr ct, h') \<and> sealed E v ct \<and> tee_rep E R V' h'"
proof -
  obtain x k w where a: "a = (x, k, w)" by (cases a)
  with spec obtain u where u: "V k = Some u" by (cases "V k") simp_all
  let ?rd = "redisCli_get R (storage_server h) k"
  from rep u have rd: "carried u" "sealed E u ?rd" "sealed_len (length u) \<le> 4096" and up: "alive h"
    by (simp_all add: tee_rep_def)
  note len = length_sealed [OF E rd(2)]
  have v: "carried v" "sealed E v (source_of ope ?rd)" "sealed_len (length v) \<le> length ?rd"
    and V': "V' = V(k \<mapsto> v)"
    using spec ope u rd len by (auto simp: a op_rep_def source_of_def fun_eq_iff split: if_splits)
  have "length ?rd \<le> 4096" using len rd(3) by simp
  from enclave_call_ok [OF E M v this, of junk "generator h"] obtain ct g' where
    call: "enclave_call E M junk ope ?rd (True, generator h) = (Inr (Some ct), True, g')" and ct: "sealed E v ct"
    by blast
  let ?h = "h\<lparr>alive := True, generator := g', storage_server := redisCli_put R (storage_server h) k ct\<rparr>"
  have "t_key ope = k" using ope by (simp add: a op_rep_def)
  then have "host_access E M R junk ope h = (Inr ct, ?h)"
    using up call by (simp add: host_access_def Let_def)
  moreover have "sealed_len (length v) \<le> 4096" using v(3) len rd(3) by simp
  then have "tee_rep E R V' ?h"
    using rep v(1) ct by (simp add: tee_rep_def V' redis_store.get_put [OF R])
  ultimately show ?thesis using ct by blast
qed

lemma host_run_refines:
  assumes E: "ssl_ok E" and M: "engine_keys M = Inr ks" and R: "redis_ok R"
  shows "tee_rep E R V h \<Longrightarrow> list_all2 (op_rep E) ops as \<Longrightarrow> tee_spec_run as V = Some (vs, V') \<Longrightarrow>
    \<exists>cts h'. host_run E M R junk ops h = (map Inr cts, h') \<and> list_all2 (sealed E) vs cts \<and> tee_rep E R V' h'"
proof (induction ops arbitrary: as V h vs)
  case (Cons ope ops)
  from Cons.prems(2) obtain a as' where as: "as = a # as'" "op_rep E ope a" "list_all2 (op_rep E) ops as'"
    by (auto simp: list_all2_Cons1)
  with Cons.prems(3) obtain v V1 vs' where spec: "tee_spec a V = Some (v, V1)"
    "tee_spec_run as' V1 = Some (vs', V')" "vs = v # vs'"
    by (auto simp: bind_eq_Some_conv)
  from host_access_refines [OF E M R Cons.prems(1) as(2) spec(1)] obtain ct h' where
    1: "host_access E M R junk ope h = (Inr ct, h')" "sealed E v ct" "tee_rep E R V1 h'" by blast
  from Cons.IH [OF 1(3) as(3) spec(2)] obtain cts h'' where
    "host_run E M R junk ops h' = (map Inr cts, h'')" "list_all2 (sealed E) vs' cts" "tee_rep E R V' h''"
    by blast
  with 1 spec(3) show ?case by (auto intro!: exI [of _ "ct # cts"])
qed simp

text \<open>Once the enclave is down every access returns the empty answer and changes nothing.\<close>

lemma host_access_dead: "\<not> alive h \<Longrightarrow> host_access E M R junk ope h = (Inr [], h)"
  by (simp add: host_access_def enclave_call_def)

lemma host_run_dead: "\<not> alive h \<Longrightarrow> host_run E M R junk ops h = (replicate (length ops) (Inr []), h)"
  by (induction ops) (simp_all add: host_access_dead)

section \<open>The host's threads\<close>

text \<open>
  A worker thread reads the storage, calls the enclave and writes the storage; nothing makes the
  three one step.  Each thread has the generator of its own \<open>thread_local\<close> variable.  A call whose
  behaviour is undefined (it writes beyond a buffer) leaves its thread \<open>Broken\<close>: from then on C++ gives the
  program no meaning, and what the model lets the other threads do is one of its possible behaviours.
\<close>

datatype thread = Ready tee_op | Fetched tee_op bytes | Computed tee_op bytes | Finished tee_op bytes
  | Broken tee_op

record ('d, 'g) hsys =
  hs_store :: 'd
  hs_alive :: bool
  hs_threads :: "nat \<Rightarrow> thread"
  hs_gens :: "nat \<Rightarrow> 'g"

inductive host_step :: "('c, 'g) ssl \<Rightarrow> ('x, 'm, 'k) mac_lib \<Rightarrow> 'd redis \<Rightarrow> byte \<Rightarrow>
    ('d, 'g) hsys \<Rightarrow> ('d, 'g) hsys \<Rightarrow> bool" for E M R junk where
  fetch: "hs_threads s i = Ready ope \<Longrightarrow>
    host_step E M R junk s (s\<lparr>hs_threads :=
      (hs_threads s)(i := Fetched ope (redisCli_get R (hs_store s) (t_key ope)))\<rparr>)"
| call: "hs_threads s i = Fetched ope rd \<Longrightarrow>
    enclave_call E M junk ope rd (hs_alive s, hs_gens s i) = (Inr (Some out), a, g) \<Longrightarrow>
    host_step E M R junk s (s\<lparr>hs_alive := a, hs_gens := (hs_gens s)(i := g),
      hs_threads := (hs_threads s)(i := Computed ope out)\<rparr>)"
| call_fails: "hs_threads s i = Fetched ope rd \<Longrightarrow>
    enclave_call E M junk ope rd (hs_alive s, hs_gens s i) = (Inr None, a, g) \<Longrightarrow>
    host_step E M R junk s (s\<lparr>hs_alive := a, hs_gens := (hs_gens s)(i := g),
      hs_threads := (hs_threads s)(i := Finished ope [])\<rparr>)"
| overrun: "hs_threads s i = Fetched ope rd \<Longrightarrow>
    enclave_call E M junk ope rd (hs_alive s, hs_gens s i) = (Inl er, a, g) \<Longrightarrow>
    host_step E M R junk s (s\<lparr>hs_alive := a, hs_gens := (hs_gens s)(i := g),
      hs_threads := (hs_threads s)(i := Broken ope)\<rparr>)"
| store: "hs_threads s i = Computed ope out \<Longrightarrow>
    host_step E M R junk s (s\<lparr>hs_store := redisCli_put R (hs_store s) (t_key ope) out,
      hs_threads := (hs_threads s)(i := Finished ope out)\<rparr>)"

inductive_cases host_stepE: "host_step E M R junk s s'"

lemma enclave_call_alive: "enclave_call E M junk ope rd (False, g) = (Inr None, False, g)"
  by (simp add: enclave_call_def)

text \<open>A call that succeeds re-encrypts the value of its source.\<close>

lemma enclave_call_Some:
  assumes E: "ssl_ok E" and M: "engine_keys M = Inr ks" and v: "carried v"
    and src: "sealed E v (source_of ope rd)"
    and call: "enclave_call E M junk ope rd (a, g) = (Inr (Some out), a', g')"
  shows "sealed E v out"
proof -
  have "a" using call by (cases a) (simp_all add: enclave_call_alive)
  have fits: "sealed_len (length v) \<le> length rd"
    using enclave_call_too_long [OF E M v src, of junk g] call \<open>a\<close> by (cases "length rd < sealed_len (length v)") auto
  have "length rd \<le> 4096"
  proof (rule ccontr)
    assume big: "\<not> length rd \<le> 4096"
    let ?buf = "replicate (length rd) junk"
    have "decryptNonDeterministic E (replicate 4096 junk) (source_of ope rd) = Inr v"
      using decrypt_sealed [OF E src, of "replicate 4096 junk"] v by (simp add: carried_def)
    moreover obtain ct where ct: "sealed E v ct" "encryptNonDeterministic E v ?buf g =
        (Inr (sealed_len (length v), overwrite ?buf 0 ct), snd (rand_str E rng_max_len g))"
      using encryptNonDeterministic_eq [OF E, of v ?buf g] fits by auto
    moreover have "length (overwrite ?buf 0 ct) = length rd"
      using length_sealed [OF E ct(1)] fits by simp
    ultimately have "fst (enclave_call E M junk ope rd (True, g)) = Inl Undefined"
      using big by (simp add: enclave_call_def access_data_eq [OF M] write_at_def)
    with call \<open>a\<close> show False by simp
  qed
  from enclave_call_ok [OF E M v src fits this, of junk g] call \<open>a\<close> show ?thesis by auto
qed

section \<open>No interleaving makes up a value\<close>

text \<open>\<open>W k\<close> are the values key \<open>k\<close> held at the start or that some operation writes to it.\<close>

definition seals_some :: "('c, 'g) ssl \<Rightarrow> bytes set \<Rightarrow> bytes \<Rightarrow> bool" where
  "seals_some E A ct \<longleftrightarrow> ct = [] \<or> (\<exists>v \<in> A. carried v \<and> sealed E v ct)"

fun thread_ok :: "('c, 'g) ssl \<Rightarrow> (string \<Rightarrow> bytes set) \<Rightarrow> thread \<Rightarrow> bool" where
  "thread_ok E W (Ready ope) = (t_op ope = GET \<or> seals_some E (W (t_key ope)) (t_value ope))"
| "thread_ok E W (Fetched ope rd) =
     ((t_op ope = GET \<or> seals_some E (W (t_key ope)) (t_value ope)) \<and> seals_some E (W (t_key ope)) rd)"
| "thread_ok E W (Computed ope out) = seals_some E (W (t_key ope)) out"
| "thread_ok E W (Finished ope out) = seals_some E (W (t_key ope)) out"
| "thread_ok E W (Broken ope) = True"

definition hsys_ok :: "('c, 'g) ssl \<Rightarrow> 'd redis \<Rightarrow> (string \<Rightarrow> bytes set) \<Rightarrow> ('d, 'g) hsys \<Rightarrow> bool" where
  "hsys_ok E R W s \<longleftrightarrow> (\<forall>k. seals_some E (W k) (redisCli_get R (hs_store s) k)) \<and>
     (\<forall>i. thread_ok E W (hs_threads s i))"

lemma call_seals_some:
  assumes E: "ssl_ok E" and M: "engine_keys M = Inr ks"
    and call: "enclave_call E M junk ope rd (a, g) = (Inr (Some out), a', g')"
    and src: "seals_some E A (source_of ope rd)"
  shows "seals_some E A out"
proof (cases "source_of ope rd = []")
  case True
  with call enclave_call_empty [OF E M True] show ?thesis
    by (cases a) (simp_all add: enclave_call_alive)
next
  case False
  with src obtain v where "v \<in> A" "carried v" "sealed E v (source_of ope rd)"
    by (auto simp: seals_some_def)
  with enclave_call_Some [OF E M this(2,3) call] show ?thesis by (auto simp: seals_some_def)
qed

lemma host_step_ok:
  assumes E: "ssl_ok E" and M: "engine_keys M = Inr ks" and R: "redis_ok R"
    and step: "host_step E M R junk s s'" and ok: "hsys_ok E R W s"
  shows "hsys_ok E R W s'"
  using step
proof cases
  case (fetch i ope)
  with ok have "thread_ok E W (Ready ope)" unfolding hsys_ok_def by metis
  with fetch ok show ?thesis by (simp add: hsys_ok_def)
next
  case (call i ope rd out a g)
  with ok have t: "thread_ok E W (Fetched ope rd)" unfolding hsys_ok_def by metis
  then have "seals_some E (W (t_key ope)) (source_of ope rd)" by (auto simp: source_of_def)
  from call_seals_some [OF E M call(3) this] call(1) ok show ?thesis by (simp add: hsys_ok_def)
next
  case (call_fails i ope rd a g)
  with ok show ?thesis by (simp add: hsys_ok_def seals_some_def)
next
  case (overrun i ope rd er a g)
  with ok show ?thesis by (simp add: hsys_ok_def)
next
  case (store i ope out)
  with ok have "thread_ok E W (Computed ope out)" unfolding hsys_ok_def by metis
  with store(1) ok show ?thesis by (simp add: hsys_ok_def redis_store.get_put [OF R])
qed

lemma host_steps_ok:
  assumes "ssl_ok E" and "engine_keys M = Inr ks" and "redis_ok R"
    and "(host_step E M R junk)\<^sup>*\<^sup>* s s'" and "hsys_ok E R W s"
  shows "hsys_ok E R W s'"
  using assms(4,5) by induction (auto intro: host_step_ok [OF assms(1-3)])

section \<open>A GET can undo a PUT\<close>

text \<open>
  A GET writes back what it read.  When a PUT to the same key runs to its end between the GET's read
  and its write, the value of the PUT is lost.
\<close>

lemma lost_update:
  assumes E: "ssl_ok E" and M: "engine_keys M = Inr ks" and R: "redis_ok R"
    and alive: "hs_alive s" and i: "hs_threads s i = Ready get" "t_op get = GET" "t_key get = k"
    and j: "hs_threads s j = Ready put" "t_op put \<noteq> GET" "t_key put = k" and "i \<noteq> j"
    and v: "carried v" "sealed E v (redisCli_get R (hs_store s) k)" "sealed_len (length v) \<le> 4096"
    and w: "carried w" "sealed E w (t_value put)" "sealed_len (length w) \<le> sealed_len (length v)"
  shows "\<exists>s1 s2 ct ct'. (host_step E M R junk)\<^sup>*\<^sup>* s s1 \<and> (host_step E M R junk)\<^sup>*\<^sup>* s1 s2 \<and>
    hs_threads s1 j = Finished put ct \<and> sealed E w ct \<and> redisCli_get R (hs_store s1) k = ct \<and>
    hs_threads s2 i = Finished get ct' \<and> sealed E v ct' \<and> redisCli_get R (hs_store s2) k = ct'"
proof -
  let ?rd = "redisCli_get R (hs_store s) k"
  let ?step = "host_step E M R junk"
  note len = length_sealed [OF E v(2)]
  have small: "length ?rd \<le> 4096" and fits: "sealed_len (length v) \<le> length ?rd" "sealed_len (length w) \<le> length ?rd"
    using len v(3) w(3) by simp_all
  have src: "sealed E v (source_of get ?rd)" "sealed E w (source_of put ?rd)"
    using v(2) w(2) i(2) j(2) by (simp_all add: source_of_def)
  obtain cv g where cv: "enclave_call E M junk get ?rd (True, hs_gens s i) = (Inr (Some cv), True, g)" "sealed E v cv"
    using enclave_call_ok [OF E M v(1) src(1) fits(1) small] by blast
  obtain cw g' where cw: "enclave_call E M junk put ?rd (True, hs_gens s j) = (Inr (Some cw), True, g')" "sealed E w cw"
    using enclave_call_ok [OF E M w(1) src(2) fits(2) small] by blast
  define a where "a = s\<lparr>hs_threads := (hs_threads s)(i := Fetched get ?rd)\<rparr>"
  define b where "b = a\<lparr>hs_threads := (hs_threads a)(j := Fetched put ?rd)\<rparr>"
  define c where "c = b\<lparr>hs_alive := True, hs_gens := (hs_gens b)(j := g'),
    hs_threads := (hs_threads b)(j := Computed put cw)\<rparr>"
  define d where "d = c\<lparr>hs_store := redisCli_put R (hs_store c) k cw,
    hs_threads := (hs_threads c)(j := Finished put cw)\<rparr>"
  define e where "e = d\<lparr>hs_alive := True, hs_gens := (hs_gens d)(i := g),
    hs_threads := (hs_threads d)(i := Computed get cv)\<rparr>"
  define f where "f = e\<lparr>hs_store := redisCli_put R (hs_store e) k cv,
    hs_threads := (hs_threads e)(i := Finished get cv)\<rparr>"
  note defs = a_def b_def c_def d_def e_def f_def
  have 1: "?step s a" using host_step.fetch [OF i(1)] i(3) by (simp add: a_def)
  have 2: "?step a b"
    using host_step.fetch [of a j put E M R junk] j(1,3) \<open>i \<noteq> j\<close> by (simp add: b_def a_def)
  have 3: "?step b c"
    using host_step.call [of b j put ?rd E M junk cw True g' R] cw(1) alive \<open>i \<noteq> j\<close>
    by (simp add: c_def b_def a_def)
  have 4: "?step c d"
    using host_step.store [of c j put cw E M R junk] j(3) by (simp add: d_def c_def)
  have 5: "?step d e"
    using host_step.call [of d i get ?rd E M junk cv True g R] cv(1) alive \<open>i \<noteq> j\<close>
    by (simp add: e_def d_def c_def b_def a_def)
  have 6: "?step e f"
    using host_step.store [of e i get cv E M R junk] i(3) by (simp add: f_def e_def)
  have "?step\<^sup>*\<^sup>* s d"
    by (rule two_steps [where r = ?step, OF two_steps [where r = ?step, OF rtranclp.rtrancl_refl 1 2] 3 4])
  moreover have "?step\<^sup>*\<^sup>* d f"
    by (rule two_steps [where r = ?step, OF rtranclp.rtrancl_refl 5 6])
  moreover have "hs_threads d j = Finished put cw" "redisCli_get R (hs_store d) k = cw"
    "hs_threads f i = Finished get cv" "redisCli_get R (hs_store f) k = cv"
    by (simp_all add: d_def f_def redis_store.get_put [OF R])
  ultimately show ?thesis using cv(2) cw(2) by blast
qed

end
