(* ===== verification/TeeWorkload.thy ===== *)
theory TeeWorkload
  imports TeeService
begin

text \<open>
  The client of ORTOA-TEE (\<open>ortoa-tee/src/client\<close>): reading or generating operations, the shared
  queue and the threads around it, and filling the database.  \<open>rand()\<close> and \<open>randombytes_buf\<close> are
  a parameter, the record \<open>draw\<close> of one operation; command line parsing and timing are left out.
\<close>

section \<open>Configuration and operations\<close>

text \<open>
  \<open>seed_data\<close> is what is left of the seed file and \<open>at_eof\<close> its end-of-file flag.  \<open>below_p_get r\<close> says
  whether \<open>(double) r / RAND_MAX < p_get\<close>.
\<close>

record config =
  seed_data :: string
  at_eof :: bool
  use_seed :: bool
  num_operations :: int
  below_p_get :: "nat \<Rightarrow> bool"
  max_key :: int
  max_value :: int

record draw =
  d_first :: nat
  d_second :: nat
  d_third :: nat
  d_bytes :: bytes

text \<open>The array that \<open>randombytes_buf\<close> fills has 160 bytes.\<close>

definition draw_ok :: "draw \<Rightarrow> bool" where
  "draw_ok d \<longleftrightarrow> length (d_bytes d) = 160"

definition moreOperationsExist :: "config \<Rightarrow> bool" where
  "moreOperationsExist cfg \<longleftrightarrow>
    (use_seed cfg \<and> \<not> at_eof cfg) \<or> (\<not> use_seed cfg \<and> 0 < num_operations cfg)"

definition clientEncrypt :: "('c, 'g) ssl \<Rightarrow> ('x, 'm, 'k) mac_lib \<Rightarrow> byte \<Rightarrow> bytes \<Rightarrow> 'g \<Rightarrow> bytes res \<times> 'g" where
  "clientEncrypt E M junk val g =
    (case engine_keys M of Inl e \<Rightarrow> (Inl e, g) | Inr _ \<Rightarrow>
     case encryptNonDeterministic E val (replicate 4096 junk) g of
       (Inl e, g') \<Rightarrow> (Inl e, g')
     | (Inr (out_len, cipher_text), g') \<Rightarrow> (read_at cipher_text 0 out_len, g'))"

definition make_op :: "('c, 'g) ssl \<Rightarrow> ('x, 'm, 'k) mac_lib \<Rightarrow> byte \<Rightarrow> OpType \<Rightarrow> string \<Rightarrow> bytes res \<Rightarrow> 'g \<Rightarrow>
    tee_op res \<times> 'g" where
  "make_op E M junk x key val g =
    (case val of Inl e \<Rightarrow> (Inl e, g) | Inr v \<Rightarrow>
     case clientEncrypt E M junk v g of
       (Inl e, g') \<Rightarrow> (Inl e, g')
     | (Inr ct, g') \<Rightarrow> (Inr \<lparr>t_op = x, t_key = key, t_value = ct\<rparr>, g'))"

text \<open>\<open>std::getline\<close>.\<close>

definition get_line :: "string \<times> bool \<Rightarrow> string \<times> string \<times> bool" where
  "get_line = (\<lambda>(rest, eof).
    if eof then ([], rest, eof)
    else let line = takeWhile (\<lambda>c. c \<noteq> CHR 0x0A) rest; left = dropWhile (\<lambda>c. c \<noteq> CHR 0x0A) rest in
      (line, tl left, left = []))"

definition getSeedOperation :: "('c, 'g) ssl \<Rightarrow> ('x, 'm, 'k) mac_lib \<Rightarrow> byte \<Rightarrow> draw \<Rightarrow> config \<Rightarrow> 'g \<Rightarrow>
    tee_op res \<times> config \<times> 'g" where
  "getSeedOperation E M junk d cfg g =
    (let (line, rest, eof) = get_line (seed_data cfg, at_eof cfg);
         (operation, ss) = next_word line; (key, ss) = next_word ss; (val, ss) = next_word ss;
         x = (if operation = ''GET'' then GET else PUT);
         v = (if x = GET then string_of_array (d_bytes d) else Inr (to_bytes val));
         (r, g') = make_op E M junk x key v g
     in (r, cfg\<lparr>seed_data := rest, at_eof := eof\<rparr>, g'))"

text \<open>\<open>std::to_string\<close> of an \<open>int\<close>.\<close>

definition int_to_string :: "int \<Rightarrow> string" where
  "int_to_string i = (if i < 0 then CHR ''-'' # to_string (nat (- i)) else to_string (nat i))"

text \<open>\<open>rand() % n\<close>; dividing by zero has no meaning.\<close>

definition rand_mod :: "nat \<Rightarrow> int \<Rightarrow> int res" where
  "rand_mod r n = (if n = 0 then Inl Undefined else Inr (int r mod \<bar>n\<bar>))"

definition genRandInitValue :: "('c, 'g) ssl \<Rightarrow> ('x, 'm, 'k) mac_lib \<Rightarrow> byte \<Rightarrow> draw \<Rightarrow> config \<Rightarrow> 'g \<Rightarrow>
    tee_op res \<times> config \<times> 'g" where
  "genRandInitValue E M junk d cfg g =
    (let val = bind_res (rand_mod (d_first d) (max_value cfg)) (\<lambda>i. Inr (to_bytes (int_to_string i)));
         key = int_to_string (max_key cfg - num_operations cfg);
         (r, g') = make_op E M junk GET key val g
     in (r, cfg\<lparr>num_operations := num_operations cfg - 1\<rparr>, g'))"

definition genRandOperation :: "('c, 'g) ssl \<Rightarrow> ('x, 'm, 'k) mac_lib \<Rightarrow> byte \<Rightarrow> draw \<Rightarrow> config \<Rightarrow> 'g \<Rightarrow>
    tee_op res \<times> config \<times> 'g" where
  "genRandOperation E M junk d cfg g =
    (case rand_mod (d_second d) (max_key cfg) of Inl e \<Rightarrow> (Inl e, cfg, g) | Inr key \<Rightarrow>
     let x = (if below_p_get cfg (d_first d) then GET else PUT);
         val = (if x = GET then string_of_array (d_bytes d)
           else bind_res (rand_mod (d_third d) (max_value cfg)) (\<lambda>put_val. Inr (to_bytes (int_to_string put_val))));
         (r, g') = make_op E M junk x (int_to_string key) val g
     in (r, cfg\<lparr>num_operations := num_operations cfg - 1\<rparr>, g'))"

definition getInitKV :: "('c, 'g) ssl \<Rightarrow> ('x, 'm, 'k) mac_lib \<Rightarrow> byte \<Rightarrow> draw \<Rightarrow> config \<Rightarrow> 'g \<Rightarrow>
    tee_op res \<times> config \<times> 'g" where
  "getInitKV E M junk d cfg g =
    (if use_seed cfg then getSeedOperation E M junk d cfg g else genRandInitValue E M junk d cfg g)"

definition getOperation :: "('c, 'g) ssl \<Rightarrow> ('x, 'm, 'k) mac_lib \<Rightarrow> byte \<Rightarrow> draw \<Rightarrow> config \<Rightarrow> 'g \<Rightarrow>
    tee_op res \<times> config \<times> 'g" where
  "getOperation E M junk d cfg g =
    (if use_seed cfg then getSeedOperation E M junk d cfg g else genRandOperation E M junk d cfg g)"

section \<open>Filling the database\<close>

text \<open>What is left to read or to generate.\<close>

definition work_left :: "config \<Rightarrow> nat" where
  "work_left cfg = (if use_seed cfg then (if at_eof cfg then 0 else length (seed_data cfg) + 1)
     else nat (num_operations cfg))"

lemma work_left_seed:
  assumes "use_seed cfg" and "\<not> at_eof cfg"
  shows "work_left (fst (snd (getSeedOperation E M junk d cfg g))) < work_left cfg"
proof -
  let ?left = "dropWhile (\<lambda>c. c \<noteq> CHR 0x0A) (seed_data cfg)"
  have "length (tl ?left) < length (seed_data cfg)" if "?left \<noteq> []"
    using that length_dropWhile_le [of "\<lambda>c. c \<noteq> CHR 0x0A" "seed_data cfg"]
    by (cases ?left) simp_all
  with assms show ?thesis
    by (auto simp: work_left_def getSeedOperation_def get_line_def case_prod_beta Let_def)
qed

lemma work_left_init:
  "moreOperationsExist cfg \<Longrightarrow> work_left (fst (snd (getInitKV E M junk d cfg g))) < work_left cfg"
  using work_left_seed [of cfg E M junk d g]
  by (auto simp: moreOperationsExist_def getInitKV_def genRandInitValue_def case_prod_beta Let_def)
    (simp add: work_left_def)

text \<open>The loop of \<open>initDB\<close>; \<open>ds n\<close> are the random numbers of its \<open>n\<close>-th turn.\<close>

function init_loop :: "('c, 'g) ssl \<Rightarrow> ('x, 'm, 'k) mac_lib \<Rightarrow> byte \<Rightarrow> (nat \<Rightarrow> draw) \<Rightarrow> nat \<Rightarrow> config \<Rightarrow> 'g \<Rightarrow>
    (string \<times> bytes) list res \<times> config \<times> 'g" where
  "init_loop E M junk ds n cfg g =
    (if \<not> moreOperationsExist cfg then (Inr [], cfg, g)
     else case getInitKV E M junk (ds n) cfg g of
       (Inl e, cfg', g') \<Rightarrow> (Inl e, cfg', g')
     | (Inr ope, cfg', g') \<Rightarrow>
        (case init_loop E M junk ds (Suc n) cfg' g' of
           (r, cfg'', g'') \<Rightarrow> (bind_res r (\<lambda>ops. Inr ((t_key ope, t_value ope) # ops)), cfg'', g'')))"
  by pat_completeness auto

termination
proof (relation "measure (\<lambda>(E, M, junk, ds, n, cfg, g). work_left cfg)", goal_cases)
  case (2 E M junk ds n cfg g r cg ope cfg' g')
  then show ?case
    using work_left_init [of cfg E M junk "ds n" g] by (cases cg) (simp flip: 2(2))
qed simp

declare init_loop.simps [simp del]

definition initDB :: "('c, 'g) ssl \<Rightarrow> ('x, 'm, 'k) mac_lib \<Rightarrow> 'd redis \<Rightarrow> byte \<Rightarrow> (nat \<Rightarrow> draw) \<Rightarrow> config \<Rightarrow> 'g \<Rightarrow> 'd \<Rightarrow>
    'd res" where
  "initDB E M R junk ds cfg g d =
    (case init_loop E M junk ds 0 (cfg\<lparr>num_operations := max_key cfg\<rparr>) g of
       (r, cfg', g') \<Rightarrow> bind_res r (\<lambda>ops. Inr (redisCli_put_batch R d ops)))"

section \<open>The shared queue\<close>

record shared =
  queue :: "tee_op list"
  conf :: config

definition enqueue :: "('c, 'g) ssl \<Rightarrow> ('x, 'm, 'k) mac_lib \<Rightarrow> byte \<Rightarrow> draw \<Rightarrow> shared \<Rightarrow> 'g \<Rightarrow>
    int res \<times> shared \<times> 'g" where
  "enqueue E M junk d q g =
    (if \<not> moreOperationsExist (conf q) then (Inr 1, q, g)
     else case getOperation E M junk d (conf q) g of
       (Inl e, cfg, g') \<Rightarrow> (Inl e, q\<lparr>conf := cfg\<rparr>, g')
     | (Inr ope, cfg, g') \<Rightarrow> (Inr 0, q\<lparr>conf := cfg, queue := queue q @ [ope]\<rparr>, g'))"

definition EOD_op :: tee_op where
  "EOD_op = \<lparr>t_op = EOD, t_key = [], t_value = []\<rparr>"

definition dequeue :: "shared \<Rightarrow> tee_op \<times> shared" where
  "dequeue q = (case queue q of [] \<Rightarrow> (EOD_op, q) | ope # ops \<Rightarrow> (ope, q\<lparr>queue := ops\<rparr>))"

section \<open>What the client sends\<close>

text \<open>The numbers the generated workload writes.\<close>

definition number :: "int \<Rightarrow> bytes" where
  "number i = to_bytes (int_to_string i)"

lemma number_nonneg: "0 \<le> i \<Longrightarrow> number i = to_bytes (to_string (nat i))"
  by (simp add: number_def int_to_string_def)

lemma length_number: "0 \<le> i \<Longrightarrow> i < 10 ^ k \<Longrightarrow> 0 < k \<Longrightarrow> length (number i) \<le> k"
proof -
  assume "0 \<le> i" "i < 10 ^ k" "0 < k"
  then have "nat i < 10 ^ k" by (simp add: nat_less_iff)
  with \<open>0 < k\<close> \<open>0 \<le> i\<close> show ?thesis
    using length_to_string [of "nat i" k] by (simp add: number_nonneg to_bytes_def)
qed

lemma carried_number: "0 \<le> i \<Longrightarrow> i < 10 ^ 10 \<Longrightarrow> carried (number i)"
  using length_number [of i 10] to_bytes_to_string [of "nat i"]
  by (simp add: carried_def number_nonneg)

lemma sealed_len_cases: "n \<le> 4 \<Longrightarrow> sealed_len n = 16"
  by (simp add: sealed_len_def cipher_len_def rng_max_len_def)

lemma sealed_len_mono: "m \<le> n \<Longrightarrow> sealed_len m \<le> sealed_len n"
  by (simp add: sealed_len_def cipher_len_def div_le_mono)

lemma sealed_len_small: "n \<le> 1000 \<Longrightarrow> sealed_len n \<le> 4096"
  using sealed_len_mono [of n 1000] by (simp add: sealed_len_def cipher_len_def rng_max_len_def)

lemma clientEncrypt_ok:
  assumes "ssl_ok E" and "engine_keys M = Inr ks" and "length v \<le> 1000"
  shows "\<exists>ct g'. clientEncrypt E M junk v g = (Inr ct, g') \<and> sealed E v ct"
proof -
  obtain ct where ct: "sealed E v ct" "encryptNonDeterministic E v (replicate 4096 junk) g =
      (Inr (sealed_len (length v), overwrite (replicate 4096 junk) 0 ct), snd (rand_str E rng_max_len g))"
    using encryptNonDeterministic_eq [OF assms(1), of v "replicate 4096 junk" g]
      sealed_len_small [OF assms(3)] by auto
  moreover have small: "length ct \<le> length (replicate 4096 junk)"
    using length_sealed [OF assms(1) ct(1)] sealed_len_small [OF assms(3)] by simp
  then have "read_at (overwrite (replicate 4096 junk) 0 ct) 0 (length ct) = Inr ct"
    by (simp add: read_at_def take_overwrite [OF small])
  ultimately show ?thesis
    using length_sealed [OF assms(1) ct(1)] by (simp add: clientEncrypt_def assms(2))
qed

lemma make_op_ok:
  assumes "ssl_ok E" and "engine_keys M = Inr ks" and "length v \<le> 1000"
  shows "\<exists>ct g'. make_op E M junk x key (Inr v) g = (Inr \<lparr>t_op = x, t_key = key, t_value = ct\<rparr>, g') \<and> sealed E v ct"
  using clientEncrypt_ok [OF assms, of junk g] by (auto simp: make_op_def)

lemma rand_mod_range: "0 < n \<Longrightarrow> \<exists>i. rand_mod r n = Inr i \<and> 0 \<le> i \<and> i < n"
  by (simp add: rand_mod_def)

text \<open>An operation of the generator: its key is one of the keys, a PUT writes a number.\<close>

lemma genRandOperation_result:
  assumes E: "ssl_ok E" and M: "engine_keys M = Inr ks"
    and gen: "genRandOperation E M junk d cfg g = (Inr ope, cfg', g')"
    and mk: "0 < max_key cfg" and mv: "0 < max_value cfg" "max_value cfg \<le> 10 ^ 10"
  shows "(\<exists>i. 0 \<le> i \<and> i < max_key cfg \<and> t_key ope = int_to_string i) \<and> t_op ope \<noteq> EOD \<and>
    (t_op ope \<noteq> GET \<longrightarrow> (\<exists>r. 0 \<le> r \<and> r < max_value cfg \<and> sealed E (number r) (t_value ope)))"
proof -
  obtain i where i: "rand_mod (d_second d) (max_key cfg) = Inr i" "0 \<le> i" "i < max_key cfg"
    using rand_mod_range [OF mk] by blast
  obtain r where r: "rand_mod (d_third d) (max_value cfg) = Inr r" "0 \<le> r" "r < max_value cfg"
    using rand_mod_range [OF mv(1)] by blast
  show ?thesis
  proof (cases "below_p_get cfg (d_first d)")
    case True
    with gen i show ?thesis
      by (auto simp: genRandOperation_def make_op_def case_prod_beta Let_def split: sum.splits prod.splits)
  next
    case False
    have "length (number r) \<le> 1000" using length_number [of r 10] r mv(2) by simp
    from make_op_ok [OF E M this, of junk PUT "int_to_string i" g] obtain ct g1 where
      "make_op E M junk PUT (int_to_string i) (Inr (number r)) g =
        (Inr \<lparr>t_op = PUT, t_key = int_to_string i, t_value = ct\<rparr>, g1)" "sealed E (number r) ct" by blast
    with False gen i r show ?thesis
      by (auto simp: genRandOperation_def number_def)
  qed
qed

section \<open>The filled database\<close>

lemma init_loop_rand:
  assumes E: "ssl_ok E" and M: "engine_keys M = Inr ks"
  shows "\<not> use_seed cfg \<Longrightarrow> num_operations cfg = int m \<Longrightarrow> 0 < max_value cfg \<Longrightarrow> max_value cfg \<le> 10 ^ 10 \<Longrightarrow>
    \<exists>ops cfg' g'. init_loop E M junk ds n cfg g = (Inr ops, cfg', g') \<and>
      map fst ops = map (\<lambda>i. int_to_string (max_key cfg - int i)) (rev [1..<Suc m]) \<and>
      (\<forall>(k, ct) \<in> set ops. \<exists>r. 0 \<le> r \<and> r < max_value cfg \<and> sealed E (number r) ct)"
proof (induction m arbitrary: cfg n g)
  case 0
  then show ?case by (subst init_loop.simps) (simp add: moreOperationsExist_def)
next
  case (Suc m)
  let ?cfg = "cfg\<lparr>num_operations := num_operations cfg - 1\<rparr>"
  let ?key = "int_to_string (max_key cfg - num_operations cfg)"
  obtain r where r: "rand_mod (d_first (ds n)) (max_value cfg) = Inr r" "0 \<le> r" "r < max_value cfg"
    using rand_mod_range [OF Suc.prems(3)] by blast
  have "length (number r) \<le> 1000" using length_number [of r 10] r Suc.prems(4) by simp
  from make_op_ok [OF E M this, of junk GET ?key g] obtain ct g1 where
    "make_op E M junk GET ?key (Inr (number r)) g = (Inr \<lparr>t_op = GET, t_key = ?key, t_value = ct\<rparr>, g1)"
    and ct: "sealed E (number r) ct" by blast
  with r Suc.prems(1) have get: "getInitKV E M junk (ds n) cfg g =
      (Inr \<lparr>t_op = GET, t_key = ?key, t_value = ct\<rparr>, ?cfg, g1)"
    by (simp add: getInitKV_def genRandInitValue_def number_def)
  obtain ops cfg' g' where "init_loop E M junk ds (Suc n) ?cfg g1 = (Inr ops, cfg', g')"
    and keys: "map fst ops = map (\<lambda>i. int_to_string (max_key cfg - int i)) (rev [1..<Suc m])"
    and vals: "\<forall>(k, ct) \<in> set ops. \<exists>r. 0 \<le> r \<and> r < max_value cfg \<and> sealed E (number r) ct"
    using Suc.IH [of ?cfg "Suc n" g1] Suc.prems by auto
  with get Suc.prems(1,2) have "init_loop E M junk ds n cfg g = (Inr ((?key, ct) # ops), cfg', g')"
    by (subst init_loop.simps) (simp add: moreOperationsExist_def)
  moreover have "map fst ((?key, ct) # ops) = map (\<lambda>i. int_to_string (max_key cfg - int i)) (rev [1..<Suc (Suc m)])"
    using keys Suc.prems(2) by (simp del: upt_Suc add: upt_Suc_append)
  moreover have "\<forall>(k, ct) \<in> set ((?key, ct) # ops). \<exists>r. 0 \<le> r \<and> r < max_value cfg \<and> sealed E (number r) ct"
    using vals r(2,3) ct by auto
  ultimately show ?case by blast
qed

lemma map_of_last:
  assumes "k \<in> fst ` set xs" and "\<And>v. (k, v) \<in> set xs \<Longrightarrow> P v"
  shows "\<exists>v. map_of (rev xs) k = Some v \<and> P v"
proof -
  from assms(1) have "map_of (rev xs) k \<noteq> None"
    by (simp add: map_of_eq_None_iff)
  then obtain v where v: "map_of (rev xs) k = Some v" by blast
  then have "(k, v) \<in> set xs" by (metis map_of_SomeD set_rev)
  with v assms(2) show ?thesis by blast
qed

text \<open>Every key below \<open>max_key\<close> holds a number below \<open>max_value\<close>.\<close>

lemma initDB_fills:
  assumes E: "ssl_ok E" and M: "engine_keys M = Inr ks" and R: "redis_ok R"
    and "\<not> use_seed cfg" and mv: "0 < max_value cfg" "max_value cfg \<le> 10 ^ 10" and mk: "0 \<le> max_key cfg"
  shows "\<exists>d'. initDB E M R junk ds cfg g d = Inr d' \<and>
    (\<forall>i. 0 \<le> i \<and> i < max_key cfg \<longrightarrow>
      (\<exists>r. 0 \<le> r \<and> r < max_value cfg \<and> sealed E (number r) (redisCli_get R d' (int_to_string i))))"
proof -
  let ?cfg = "cfg\<lparr>num_operations := max_key cfg\<rparr>"
  have "num_operations ?cfg = int (nat (max_key cfg))" using mk by simp
  with init_loop_rand [OF E M, of ?cfg "nat (max_key cfg)" junk ds 0 g] assms(4) mv
  obtain ops cfg' g' where loop: "init_loop E M junk ds 0 ?cfg g = (Inr ops, cfg', g')"
    and keys: "map fst ops = map (\<lambda>i. int_to_string (max_key cfg - int i)) (rev [1..<Suc (nat (max_key cfg))])"
    and vals: "\<forall>(k, ct) \<in> set ops. \<exists>r. 0 \<le> r \<and> r < max_value cfg \<and> sealed E (number r) ct"
    by auto
  let ?d = "redisCli_put_batch R d ops"
  have "\<exists>r. 0 \<le> r \<and> r < max_value cfg \<and> sealed E (number r) (redisCli_get R ?d (int_to_string i))"
    if i: "0 \<le> i" "i < max_key cfg" for i
  proof -
    have key: "int_to_string i = int_to_string (max_key cfg - int (nat (max_key cfg - i)))"
      using i by simp
    have "1 \<le> nat (max_key cfg - i)" "nat (max_key cfg - i) \<le> nat (max_key cfg)"
      using i by linarith+
    then have "nat (max_key cfg - i) \<in> set (rev [1..<Suc (nat (max_key cfg))])"
      by (simp del: upt_Suc)
    with key have "int_to_string i \<in> set (map fst ops)"
      unfolding keys set_map by (rule image_eqI)
    then have "int_to_string i \<in> fst ` set ops" by simp
    from map_of_last [OF this, of "\<lambda>ct. \<exists>r. 0 \<le> r \<and> r < max_value cfg \<and> sealed E (number r) ct"] vals
    obtain ct where "map_of (rev ops) (int_to_string i) = Some ct"
      "\<exists>r. 0 \<le> r \<and> r < max_value cfg \<and> sealed E (number r) ct" by blast
    then show ?thesis by (simp add: redis_store.get_put_batch [OF R])
  qed
  moreover have "initDB E M R junk ds cfg g d = Inr ?d"
    by (simp add: initDB_def loop)
  ultimately show ?thesis by blast
qed

end
