(* ===== verification/TeeThreads.thy ===== *)
theory TeeThreads
  imports TeeWorkload
begin

text \<open>
  The threads of the ORTOA-TEE client around the shared queue (\<open>SharedQueue.h\<close>): the producers
  (\<open>DataHandler\<close>), the warm-up threads and the measured runners, as step relations over the
  critical sections and atomic operations of the code.
\<close>

section \<open>The producers\<close>

text \<open>
  Each turn of a \<open>DataHandler\<close> is one call of \<open>enqueue\<close> under the queue's mutex; a thread ends
  when the call returns 1.  Every thread has its own random number generator.  A call whose behaviour is
  undefined (the random bytes of a GET hold no zero, \<open>clientUtils.cpp:47\<close> and \<open>81\<close>, or a value of the
  file does not fit the buffer) leaves \<open>p_failed\<close>: C++ gives what the program does then no meaning.
\<close>

record 'g producers =
  p_shared :: shared
  p_active :: "nat set"
  p_gens :: "nat \<Rightarrow> 'g"
  p_failed :: "error option"

inductive producer_step :: "('c, 'g) ssl \<Rightarrow> ('x, 'm, 'k) mac_lib \<Rightarrow> byte \<Rightarrow>
    'g producers \<Rightarrow> 'g producers \<Rightarrow> bool" for E M junk where
  push: "i \<in> p_active s \<Longrightarrow> p_failed s = None \<Longrightarrow> draw_ok d \<Longrightarrow>
    enqueue E M junk d (p_shared s) (p_gens s i) = (Inr 0, q, g) \<Longrightarrow>
    producer_step E M junk s (s\<lparr>p_shared := q, p_gens := (p_gens s)(i := g)\<rparr>)"
| stop: "i \<in> p_active s \<Longrightarrow> p_failed s = None \<Longrightarrow>
    enqueue E M junk d (p_shared s) (p_gens s i) = (Inr 1, q, g) \<Longrightarrow>
    producer_step E M junk s (s\<lparr>p_active := p_active s - {i}\<rparr>)"
| fail: "i \<in> p_active s \<Longrightarrow> p_failed s = None \<Longrightarrow> draw_ok d \<Longrightarrow>
    enqueue E M junk d (p_shared s) (p_gens s i) = (Inl er, q, g) \<Longrightarrow>
    producer_step E M junk s (s\<lparr>p_shared := q, p_gens := (p_gens s)(i := g), p_failed := Some er\<rparr>)"

text \<open>The start: nothing is queued.\<close>

definition producers_start :: "nat \<Rightarrow> config \<Rightarrow> (nat \<Rightarrow> 'g) \<Rightarrow> 'g producers" where
  "producers_start n cfg gens = \<lparr>p_shared = \<lparr>queue = [], conf = cfg\<rparr>, p_active = {..<n}, p_gens = gens, p_failed = None\<rparr>"

inductive_cases producer_stepE: "producer_step E M junk s s'"

lemma enqueue_fails:
  assumes "enqueue E M junk d q g = (Inl er, q', g')"
  shows "moreOperationsExist (conf q) \<and> (\<exists>cfg. getOperation E M junk d (conf q) g = (Inl er, cfg, g') \<and> q' = q\<lparr>conf := cfg\<rparr>)"
  using assms by (auto simp: enqueue_def split: if_splits sum.splits prod.splits)

text \<open>With an engine that works, whatever goes wrong is undefined behaviour.\<close>

lemma make_op_fails:
  assumes E: "ssl_ok E" and M: "engine_keys M = Inr ks" and op: "make_op E M junk x key v g = (Inl er, g')"
    and v: "\<And>e. v = Inl e \<Longrightarrow> e = Undefined"
  shows "er = Undefined"
proof (cases v)
  case (Inl e)
  with op v show ?thesis by (simp add: make_op_def)
next
  case (Inr w)
  have "clientEncrypt E M junk w g = (Inl er, g')"
    using op Inr by (auto simp: make_op_def split: sum.splits prod.splits)
  with encryptNonDeterministic_eq [OF E, of w "replicate 4096 junk" g] M show ?thesis
    by (auto simp: clientEncrypt_def read_at_def split: if_splits)
qed

lemma getOperation_fails:
  assumes E: "ssl_ok E" and M: "engine_keys M = Inr ks" and op: "getOperation E M junk d cfg g = (Inl er, cfg', g')"
  shows "er = Undefined"
proof (cases "use_seed cfg")
  case True
  let ?line = "fst (get_line (seed_data cfg, at_eof cfg))"
  let ?x = "if fst (next_word ?line) = ''GET'' then GET else PUT" and ?key = "fst (next_word (snd (next_word ?line)))"
  let ?val = "if ?x = GET then string_of_array (d_bytes d)
    else Inr (to_bytes (fst (next_word (snd (next_word (snd (next_word ?line)))))))"
  have "make_op E M junk ?x ?key ?val g = (Inl er, g')"
    using op True unfolding getOperation_def getSeedOperation_def case_prod_beta Let_def by (simp add: prod_eq_iff)
  then show ?thesis by (rule make_op_fails [OF E M]) (auto simp: string_of_array_def split: if_splits)
next
  case False
  then have gen: "genRandOperation E M junk d cfg g = (Inl er, cfg', g')" using op by (simp add: getOperation_def)
  show ?thesis
  proof (cases "rand_mod (d_second d) (max_key cfg)")
    case (Inl e)
    with gen show ?thesis by (auto simp: genRandOperation_def rand_mod_def split: if_splits)
  next
    case (Inr key)
    let ?x = "if below_p_get cfg (d_first d) then GET else PUT"
    let ?val = "if ?x = GET then string_of_array (d_bytes d)
      else bind_res (rand_mod (d_third d) (max_value cfg)) (\<lambda>put_val. Inr (to_bytes (int_to_string put_val)))"
    have "make_op E M junk ?x (int_to_string key) ?val g = (Inl er, g')"
      using gen Inr unfolding genRandOperation_def case_prod_beta Let_def by (simp add: prod_eq_iff)
    then show ?thesis
      by (rule make_op_fails [OF E M]) (auto simp: string_of_array_def rand_mod_def split: if_splits)
  qed
qed

lemma enqueue_0:
  assumes "enqueue E M junk d q g = (Inr 0, q', g')"
  shows "moreOperationsExist (conf q) \<and> (\<exists>ope cfg. getOperation E M junk d (conf q) g = (Inr ope, cfg, g') \<and>
    q' = q\<lparr>conf := cfg, queue := queue q @ [ope]\<rparr>)"
  using assms by (auto simp: enqueue_def split: if_splits sum.splits prod.splits)

lemma enqueue_1:
  assumes "enqueue E M junk d q g = (Inr 1, q', g')"
  shows "\<not> moreOperationsExist (conf q) \<and> q' = q"
  using assms by (auto simp: enqueue_def split: if_splits sum.splits prod.splits)

lemma work_left_rand:
  "\<not> use_seed cfg \<Longrightarrow> 0 < num_operations cfg \<Longrightarrow> genRandOperation E M junk d cfg g = (Inr ope, cfg', g') \<Longrightarrow>
    cfg' = cfg\<lparr>num_operations := num_operations cfg - 1\<rparr>"
  by (auto simp: genRandOperation_def case_prod_beta Let_def split: sum.splits)

lemma work_left_get:
  assumes "moreOperationsExist cfg" and "getOperation E M junk d cfg g = (Inr ope, cfg', g')"
  shows "work_left cfg' < work_left cfg"
proof (cases "use_seed cfg")
  case True
  with assms work_left_seed [of cfg E M junk d g] show ?thesis
    by (simp add: moreOperationsExist_def getOperation_def)
next
  case False
  with assms work_left_rand [of cfg E M junk d g ope cfg' g'] show ?thesis
    by (simp add: moreOperationsExist_def getOperation_def work_left_def)
qed

lemma work_left_get_le:
  assumes "moreOperationsExist cfg" and "getOperation E M junk d cfg g = (r, cfg', g')"
  shows "work_left cfg' \<le> work_left cfg"
proof (cases "use_seed cfg")
  case True
  with assms work_left_seed [of cfg E M junk d g] show ?thesis
    by (simp add: moreOperationsExist_def getOperation_def)
next
  case False
  with assms show ?thesis
    by (auto simp: getOperation_def genRandOperation_def case_prod_beta Let_def work_left_def split: sum.splits)
qed

text \<open>Every step uses up an operation, ends a thread or is the last, so the producers end.\<close>

definition producers_measure :: "'g producers \<Rightarrow> nat" where
  "producers_measure s = work_left (conf (p_shared s)) + card (p_active s) + (if p_failed s = None then 1 else 0)"

lemma producer_step_measure:
  "producer_step E M junk s s' \<Longrightarrow> finite (p_active s) \<Longrightarrow>
    finite (p_active s') \<and> producers_measure s' < producers_measure s"
proof (induction rule: producer_step.induct)
  case (push i s d q g)
  from enqueue_0 [OF push(4)] obtain ope cfg where "moreOperationsExist (conf (p_shared s))"
    "getOperation E M junk d (conf (p_shared s)) (p_gens s i) = (Inr ope, cfg, g)"
    "q = (p_shared s)\<lparr>conf := cfg, queue := queue (p_shared s) @ [ope]\<rparr>" by blast
  with work_left_get push(5) show ?case by (simp add: producers_measure_def)
next
  case (stop i s d q g)
  then have "0 < card (p_active s)" by (auto simp: card_gt_0_iff)
  with stop show ?case by (simp add: producers_measure_def card_Diff_singleton)
next
  case (fail i s d er q g)
  from enqueue_fails [OF fail(4)] obtain cfg where "moreOperationsExist (conf (p_shared s))"
    "getOperation E M junk d (conf (p_shared s)) (p_gens s i) = (Inl er, cfg, g)" "q = (p_shared s)\<lparr>conf := cfg\<rparr>" by blast
  with work_left_get_le fail(2,5) show ?case by (fastforce simp: producers_measure_def)
qed

interpretation producing: ranked_steps "producer_step E M junk" "\<lambda>s. finite (p_active s)" producers_measure
  by unfold_locales (simp_all add: producer_step_measure)

section \<open>Reading a seed file\<close>

text \<open>The operation kind and key of each line, in the order of the file.\<close>

definition parse_line :: "string \<Rightarrow> OpType \<times> string" where
  "parse_line line = (let (operation, ss) = next_word line; (key, ss) = next_word ss
     in (if operation = ''GET'' then GET else PUT, key))"

fun split_lines :: "string \<Rightarrow> string list" where
  "split_lines [] = [[]]"
| "split_lines (c # cs) = (if c = CHR 0x0A then [] # split_lines cs
     else case split_lines cs of [] \<Rightarrow> [[c]] | l # ls \<Rightarrow> (c # l) # ls)"

lemma split_lines_Cons: "\<exists>l ls. split_lines s = l # ls"
  by (induction s) (auto split: list.splits)

lemma split_lines_getline:
  "split_lines s = takeWhile (\<lambda>c. c \<noteq> CHR 0x0A) s #
    (let left = dropWhile (\<lambda>c. c \<noteq> CHR 0x0A) s in if left = [] then [] else split_lines (tl left))"
proof (induction s)
  case (Cons c cs)
  then show ?case using split_lines_Cons [of cs] by (auto simp: Let_def)
qed simp

definition lines_left :: "config \<Rightarrow> string list" where
  "lines_left cfg = (if at_eof cfg then [] else split_lines (seed_data cfg))"

text \<open>The third word of a line, and an operation that a line asks for: a PUT carries this word, encrypted.\<close>

definition line_value :: "string \<Rightarrow> bytes" where
  "line_value line = to_bytes (fst (next_word (snd (next_word (snd (next_word line))))))"

definition line_op :: "('c, 'g) ssl \<Rightarrow> tee_op \<Rightarrow> string \<Rightarrow> bool" where
  "line_op E ope line \<longleftrightarrow> (t_op ope, t_key ope) = parse_line line \<and>
     (\<exists>v. sealed E v (t_value ope) \<and> (t_op ope = PUT \<longrightarrow> v = line_value line))"

lemma make_op_result:
  assumes E: "ssl_ok E" and op: "make_op E M junk x key val g = (Inr ope, g')"
  shows "\<exists>v. val = Inr v \<and> t_op ope = x \<and> t_key ope = key \<and> sealed E v (t_value ope)"
proof -
  obtain v ct where v: "val = Inr v" "clientEncrypt E M junk v g = (Inr ct, g')" "ope = \<lparr>t_op = x, t_key = key, t_value = ct\<rparr>"
    using op by (auto simp: make_op_def split: sum.splits prod.splits)
  let ?out = "replicate 4096 junk"
  obtain c where c: "sealed E v c" "encryptNonDeterministic E v ?out g =
      ((if sealed_len (length v) \<le> length ?out then Inr (sealed_len (length v), overwrite ?out 0 c) else Inl Undefined),
       snd (rand_str E rng_max_len g))" using encryptNonDeterministic_eq [OF E, of v ?out g] by blast
  note len = length_sealed [OF E c(1)]
  have fits: "sealed_len (length v) \<le> length ?out"
    using v(2) c(2) by (auto simp: clientEncrypt_def split: sum.splits if_splits)
  then have small: "length c \<le> length ?out" using len by simp
  then have "read_at (overwrite ?out 0 c) 0 (length c) = Inr c"
    by (simp add: read_at_def take_overwrite [OF small])
  then have "ct = c" using v(2) c(2) fits len by (auto simp: clientEncrypt_def split: sum.splits)
  with v c(1) show ?thesis by simp
qed

lemma getSeedOperation_conf:
  "fst (snd (getSeedOperation E M junk d cfg g)) =
    cfg\<lparr>seed_data := fst (snd (get_line (seed_data cfg, at_eof cfg))),
      at_eof := snd (snd (get_line (seed_data cfg, at_eof cfg)))\<rparr>"
  unfolding getSeedOperation_def case_prod_beta Let_def fst_conv snd_conv ..

lemma getSeedOperation_op:
  assumes E: "ssl_ok E" and "getSeedOperation E M junk d cfg g = (Inr ope, cfg', g')"
  shows "line_op E ope (fst (get_line (seed_data cfg, at_eof cfg)))"
proof -
  let ?line = "fst (get_line (seed_data cfg, at_eof cfg))"
  let ?x = "if fst (next_word ?line) = ''GET'' then GET else PUT" and ?key = "fst (next_word (snd (next_word ?line)))"
  let ?val = "if ?x = GET then string_of_array (d_bytes d) else Inr (line_value ?line)"
  have "make_op E M junk ?x ?key ?val g = (Inr ope, g')"
    using assms(2) unfolding getSeedOperation_def case_prod_beta Let_def line_value_def by (simp add: prod_eq_iff)
  from make_op_result [OF E this] show ?thesis
    by (auto simp: line_op_def parse_line_def case_prod_beta Let_def split: if_splits)
qed

lemma lines_left_update: "lines_left (cfg\<lparr>seed_data := r, at_eof := e\<rparr>) = (if e then [] else split_lines r)"
  by (simp add: lines_left_def)

lemma getSeedOperation_plan:
  assumes E: "ssl_ok E" and "\<not> at_eof cfg" and "getSeedOperation E M junk d cfg g = (Inr ope, cfg', g')"
  shows "\<exists>line. lines_left cfg = line # lines_left cfg' \<and> line_op E ope line"
proof -
  let ?line = "takeWhile (\<lambda>c. c \<noteq> CHR 0x0A) (seed_data cfg)"
  let ?left = "dropWhile (\<lambda>c. c \<noteq> CHR 0x0A) (seed_data cfg)"
  have line: "get_line (seed_data cfg, at_eof cfg) = (?line, tl ?left, ?left = [])"
    using assms(2) by (simp add: get_line_def Let_def)
  have cfg': "cfg' = cfg\<lparr>seed_data := tl ?left, at_eof := ?left = []\<rparr>"
    using getSeedOperation_conf [of E M junk d cfg g] unfolding assms(3) line fst_conv snd_conv .
  have "split_lines (seed_data cfg) = ?line # (if ?left = [] then [] else split_lines (tl ?left))"
    using split_lines_getline [of "seed_data cfg"] unfolding Let_def .
  moreover have "lines_left cfg = split_lines (seed_data cfg)" by (simp only: lines_left_def assms(2) if_False)
  ultimately have "lines_left cfg = ?line # lines_left cfg'" unfolding cfg' lines_left_update by simp
  with getSeedOperation_op [OF E assms(3)] show ?thesis unfolding line by auto
qed

text \<open>
  Whichever threads read it, the queue holds the operations of the first lines of the file, and the
  others are still to be read, as long as nothing has failed.
\<close>

definition follows_file :: "('c, 'g) ssl \<Rightarrow> string list \<Rightarrow> 'g producers \<Rightarrow> bool" where
  "follows_file E lines s \<longleftrightarrow> use_seed (conf (p_shared s)) \<and>
     (\<exists>read rest. lines = read @ rest \<and> list_all2 (line_op E) (queue (p_shared s)) read \<and>
       (p_failed s = None \<longrightarrow> rest = lines_left (conf (p_shared s))))"

lemma producer_step_file:
  assumes "producer_step E M junk s s'" and E: "ssl_ok E" and "follows_file E lines s"
  shows "follows_file E lines s'"
proof -
  from assms(3) obtain read rest where pre: "use_seed (conf (p_shared s))" "lines = read @ rest"
    "list_all2 (line_op E) (queue (p_shared s)) read" "p_failed s = None \<longrightarrow> rest = lines_left (conf (p_shared s))"
    unfolding follows_file_def by (elim conjE exE) (rule that)
  have same: "use_seed cfg' = use_seed cfg" if "getSeedOperation E M junk d cfg g = (r, cfg', g')" for d cfg g r cfg' g'
    using getSeedOperation_conf [of E M junk d cfg g] that by simp
  from assms(1) show ?thesis
  proof cases
    case (push i d q g)
    from enqueue_0 [OF push(5)] pre(1) obtain ope cfg where op: "\<not> at_eof (conf (p_shared s))"
      "getSeedOperation E M junk d (conf (p_shared s)) (p_gens s i) = (Inr ope, cfg, g)"
      "q = (p_shared s)\<lparr>conf := cfg, queue := queue (p_shared s) @ [ope]\<rparr>"
      by (auto simp: getOperation_def moreOperationsExist_def)
    from getSeedOperation_plan [OF E op(1,2)] pre(4) push(3) obtain line where
      "rest = line # lines_left cfg" "line_op E ope line" by auto
    then have "lines = (read @ [line]) @ lines_left cfg" "list_all2 (line_op E) (queue q) (read @ [line])"
      using pre(2,3) op(3) by (simp_all add: list_all2_appendI)
    moreover have "conf q = cfg" using op(3) by simp
    ultimately show ?thesis
      using same [OF op(2)] pre(1) unfolding follows_file_def push(1)
      by (intro conjI exI [of _ "read @ [line]"] exI [of _ "lines_left cfg"]) simp_all
  next
    case (stop i d q g)
    with assms(3) show ?thesis by (simp add: follows_file_def)
  next
    case (fail i d er q g)
    from enqueue_fails [OF fail(5)] pre(1) obtain cfg where
      "getSeedOperation E M junk d (conf (p_shared s)) (p_gens s i) = (Inl er, cfg, g)" "q = (p_shared s)\<lparr>conf := cfg\<rparr>"
      by (auto simp: getOperation_def)
    with same [OF this(1)] pre show ?thesis unfolding follows_file_def fail(1) by auto
  qed
qed

lemma producer_steps_file:
  assumes "(producer_step E M junk)\<^sup>*\<^sup>* s s'" and "ssl_ok E" and "follows_file E lines s"
  shows "follows_file E lines s'"
  using assms by induction (auto intro: producer_step_file)

text \<open>With an engine that works, a producer fails by undefined behaviour only.\<close>

lemma producer_steps_failed:
  assumes "(producer_step E M junk)\<^sup>*\<^sup>* s s'" and "ssl_ok E" and "engine_keys M = Inr ks" and "p_failed s \<in> {None, Some Undefined}"
  shows "p_failed s' \<in> {None, Some Undefined}"
  using assms(1)
proof (induction rule: rtranclp_induct)
  case (step y z)
  from step(2) show ?case
  proof cases
    case (fail i d er q g)
    with enqueue_fails [OF fail(5)] getOperation_fails [OF assms(2,3)] show ?thesis by auto
  qed (use step(3) in simp_all)
qed (rule assms(4))

text \<open>A thread ends only when there is nothing left, so when all have ended nothing is left.\<close>

lemma producer_steps_stop:
  assumes "(producer_step E M junk)\<^sup>*\<^sup>* s s'" and "p_active s' \<noteq> p_active s" and "p_failed s' = None"
  shows "\<not> moreOperationsExist (conf (p_shared s'))"
  using assms
proof induction
  case (step s1 s2)
  have ok: "p_failed s1 = None" using step(2,5) by cases auto
  show ?case
  proof (cases "p_active s1 = p_active s")
    case True
    with step(2,4,5) show ?thesis by cases (auto dest: enqueue_1)
  next
    case False
    with step ok have "\<not> moreOperationsExist (conf (p_shared s1))" by blast
    with step(2,5) show ?thesis by cases (auto dest: enqueue_0)
  qed
qed simp

section \<open>Generated operations\<close>

lemma producer_step_count:
  assumes "producer_step E M junk s s'" and "\<not> use_seed (conf (p_shared s))" and "0 \<le> num_operations (conf (p_shared s))"
    and "p_failed s' = None"
  shows "\<not> use_seed (conf (p_shared s')) \<and> 0 \<le> num_operations (conf (p_shared s')) \<and>
    int (length (queue (p_shared s'))) + num_operations (conf (p_shared s')) =
    int (length (queue (p_shared s))) + num_operations (conf (p_shared s))"
  using assms
proof (induction rule: producer_step.induct)
  case (push i s d q g)
  from enqueue_0 [OF push(4)] obtain ope cfg where "moreOperationsExist (conf (p_shared s))"
    "getOperation E M junk d (conf (p_shared s)) (p_gens s i) = (Inr ope, cfg, g)"
    "q = (p_shared s)\<lparr>conf := cfg, queue := queue (p_shared s) @ [ope]\<rparr>" by blast
  with push(5,6) work_left_rand [of "conf (p_shared s)" E M junk d "p_gens s i" ope cfg g]
  show ?case by (simp add: getOperation_def moreOperationsExist_def)
qed simp_all

lemma producer_step_ok: "producer_step E M junk s s' \<Longrightarrow> p_failed s = None"
  by (erule producer_stepE) simp_all

lemma producer_steps_count:
  assumes "(producer_step E M junk)\<^sup>*\<^sup>* s s'" and "\<not> use_seed (conf (p_shared s))" and "0 \<le> num_operations (conf (p_shared s))"
    and "p_failed s' = None"
  shows "\<not> use_seed (conf (p_shared s')) \<and> 0 \<le> num_operations (conf (p_shared s')) \<and>
    int (length (queue (p_shared s'))) + num_operations (conf (p_shared s')) =
    int (length (queue (p_shared s))) + num_operations (conf (p_shared s))"
  using assms
proof induction
  case (step y z)
  from step.IH [OF step.prems(1,2) producer_step_ok [OF step.hyps(2)]] producer_step_count [OF step.hyps(2) _ _ step.prems(3)]
  show ?case by simp
qed simp

section \<open>The warm-up\<close>

text \<open>
  \<open>while (warmupOperations--)\<close>: one atomic step reads and decrements the counter, which all the
  warm-up threads share and which wraps around; a second step takes an operation from the queue.
  The measured runners (\<open>ClientRunner\<close>) take operations from the same queue at the same time.
\<close>

datatype warm_pc = AtLoop | Claimed | Exited

record warm =
  w_counter :: "32 word"
  w_queue :: "tee_op list"
  w_pc :: "nat \<Rightarrow> warm_pc"
  w_measured :: "tee_op list"

inductive warm_step :: "warm \<Rightarrow> warm \<Rightarrow> bool" where
  claim: "w_pc s i = AtLoop \<Longrightarrow> w_counter s \<noteq> 0 \<Longrightarrow>
    warm_step s (s\<lparr>w_counter := w_counter s - 1, w_pc := (w_pc s)(i := Claimed)\<rparr>)"
| finish_loop: "w_pc s i = AtLoop \<Longrightarrow> w_counter s = 0 \<Longrightarrow>
    warm_step s (s\<lparr>w_counter := w_counter s - 1, w_pc := (w_pc s)(i := Exited)\<rparr>)"
| take_op: "w_pc s i = Claimed \<Longrightarrow> w_queue s = ope # ops \<Longrightarrow>
    warm_step s (s\<lparr>w_queue := ops, w_pc := (w_pc s)(i := AtLoop)\<rparr>)"
| no_op: "w_pc s i = Claimed \<Longrightarrow> w_queue s = [] \<Longrightarrow>
    warm_step s (s\<lparr>w_pc := (w_pc s)(i := Exited)\<rparr>)"
| measured: "w_queue s = ope # ops \<Longrightarrow>
    warm_step s (s\<lparr>w_queue := ops, w_measured := w_measured s @ [ope]\<rparr>)"

text \<open>
  \<open>D\<close> is the number of decrements so far.  A decrement that does not end its thread is paid for by
  a queued operation, so there are at most as many as operations and threads.
\<close>

definition at_loop :: "nat \<Rightarrow> warm \<Rightarrow> nat set" where
  "at_loop n s = {i. i < n \<and> w_pc s i = AtLoop}"

definition exited :: "nat \<Rightarrow> warm \<Rightarrow> nat set" where
  "exited n s = {i. i < n \<and> w_pc s i = Exited}"

definition warm_inv :: "nat \<Rightarrow> nat \<Rightarrow> nat \<Rightarrow> warm \<Rightarrow> bool" where
  "warm_inv n W L s \<longleftrightarrow> (\<forall>i \<ge> n. w_pc s i = Exited) \<and>
    (\<exists>D. w_counter s = of_nat W - of_nat D \<and> D + length (w_queue s) + card (at_loop n s) \<le> L + n \<and>
      (w_queue s = [] \<or> card (exited n s) \<le> (if W < D then 1 else 0)))"

lemma finite_pcs [simp]: "finite (at_loop n s)" "finite (exited n s)"
  by (simp_all add: at_loop_def exited_def)

lemma counter_zero:
  assumes "(of_nat W :: 32 word) - of_nat D = 0" and "W < 2 ^ 32" and "D < 2 ^ 32"
  shows "D = W"
proof -
  from assms(1) have "(of_nat W :: 32 word) = of_nat D" by simp
  then have "unat (of_nat W :: 32 word) = unat (of_nat D :: 32 word)" by simp
  with assms(2,3) show ?thesis by (simp add: unat_of_nat)
qed

lemma leave_loop:
  assumes "i < n" and "w_pc s i = AtLoop" and "p \<noteq> AtLoop" and "w_pc s' = (w_pc s)(i := p)"
  shows "card (at_loop n s) = Suc (card (at_loop n s'))" and
    "card (exited n s') = (if p = Exited then Suc (card (exited n s)) else card (exited n s))"
proof -
  have "at_loop n s = insert i (at_loop n s')" "i \<notin> at_loop n s'"
    using assms by (auto simp: at_loop_def split: if_splits)
  then show "card (at_loop n s) = Suc (card (at_loop n s'))" by simp
  have "exited n s' = (if p = Exited then insert i (exited n s) else exited n s)" "i \<notin> exited n s"
    using assms by (auto simp: exited_def split: if_splits)
  then show "card (exited n s') = (if p = Exited then Suc (card (exited n s)) else card (exited n s))" by simp
qed

lemma enter_loop:
  assumes "i < n" and "w_pc s i = Claimed" and "w_pc s' = (w_pc s)(i := AtLoop)"
  shows "card (at_loop n s') = Suc (card (at_loop n s))" and "exited n s' = exited n s"
proof -
  have "at_loop n s' = insert i (at_loop n s)" "i \<notin> at_loop n s"
    using assms by (auto simp: at_loop_def split: if_splits)
  then show "card (at_loop n s') = Suc (card (at_loop n s))" by simp
  show "exited n s' = exited n s" using assms by (auto simp: exited_def split: if_splits)
qed

lemma warm_step_inv:
  assumes "warm_step s s'" and inv: "warm_inv n W L s" and small: "W < 2 ^ 32" "L + n < 2 ^ 32"
  shows "warm_inv n W L s'"
proof -
  from inv obtain D where out: "\<And>i. n \<le> i \<Longrightarrow> w_pc s i = Exited"
    and D: "w_counter s = of_nat W - of_nat D" "D + length (w_queue s) + card (at_loop n s) \<le> L + n"
    and ex: "w_queue s = [] \<or> card (exited n s) \<le> (if W < D then 1 else 0)"
    unfolding warm_inv_def by blast
  have inside: "i < n" if "w_pc s i \<noteq> Exited" for i using out that by (cases "i < n") auto
  have next_D: "w_counter s - 1 = of_nat W - of_nat (Suc D)" by (simp add: D(1))
  from assms(1) show ?thesis
  proof cases
    case (claim i)
    note pcs = leave_loop [OF inside claim(2), of Claimed s'] 
    have "D + 1 + length (w_queue s') + card (at_loop n s') \<le> L + n"
      using pcs claim D(2) by simp
    moreover have "w_queue s' = [] \<or> card (exited n s') \<le> (if W < Suc D then 1 else 0)"
      using pcs claim ex by (auto split: if_splits)
    ultimately show ?thesis
      using claim out next_D unfolding warm_inv_def by (auto intro!: exI [of _ "Suc D"])
  next
    case (finish_loop i)
    have i: "i < n" using inside finish_loop(2) by simp
    note pcs = leave_loop [OF i finish_loop(2), of Exited s']
    have "D < 2 ^ 32" using D(2) small(2) by simp
    with counter_zero [of W D] finish_loop(3) D(1) small(1) have "D = W" by simp
    then have "w_queue s' = [] \<or> card (exited n s') \<le> (if W < Suc D then 1 else 0)"
      using pcs finish_loop ex by auto
    moreover have "Suc D + length (w_queue s') + card (at_loop n s') \<le> L + n"
      using pcs finish_loop D(2) by simp
    ultimately show ?thesis
      using finish_loop out next_D unfolding warm_inv_def by (auto intro!: exI [of _ "Suc D"])
  next
    case (take_op i ope ops)
    have i: "i < n" using inside take_op(2) by simp
    note pcs = enter_loop [OF i take_op(2), of s']
    have "D + length (w_queue s') + card (at_loop n s') \<le> L + n" using pcs take_op D(2) by simp
    moreover have "card (exited n s') \<le> (if W < D then 1 else 0)" using pcs take_op ex by auto
    ultimately show ?thesis
      using take_op out i D(1) unfolding warm_inv_def by (auto intro!: exI [of _ D])
  next
    case (no_op i)
    then have "at_loop n s' = at_loop n s" by (auto simp: at_loop_def)
    with no_op D out show ?thesis unfolding warm_inv_def by (auto intro!: exI [of _ D])
  next
    case (measured ope ops)
    then have "at_loop n s' = at_loop n s" "exited n s' = exited n s"
      by (simp_all add: at_loop_def exited_def)
    with measured D ex out show ?thesis unfolding warm_inv_def by (auto intro!: exI [of _ D])
  qed
qed

definition warm_start :: "nat \<Rightarrow> nat \<Rightarrow> tee_op list \<Rightarrow> warm" where
  "warm_start n W ops = \<lparr>w_counter = of_nat W, w_queue = ops,
     w_pc = (\<lambda>i. if i < n then AtLoop else Exited), w_measured = []\<rparr>"

lemma warm_start_inv: "warm_inv n W (length ops) (warm_start n W ops)"
proof -
  have "at_loop n (warm_start n W ops) = {..<n}" "exited n (warm_start n W ops) = {}"
    by (auto simp: at_loop_def exited_def warm_start_def)
  then show ?thesis
    unfolding warm_inv_def by (auto simp: warm_start_def intro!: exI [of _ 0])
qed

lemma warm_steps_inv:
  assumes "warm_step\<^sup>*\<^sup>* s s'" and "warm_inv n W L s" and "W < 2 ^ 32" and "L + n < 2 ^ 32"
  shows "warm_inv n W L s'"
  using assms(1,2) by induction (auto intro: warm_step_inv [OF _ _ assms(3,4)])

text \<open>When two or more warm-up threads have all ended, they have emptied the queue.\<close>

lemma warm_end_empty:
  assumes "warm_inv n W L s" and "\<forall>i < n. w_pc s i = Exited" and "2 \<le> n"
  shows "w_queue s = []"
proof -
  have "exited n s = {..<n}" using assms(2) by (auto simp: exited_def)
  with assms(1,3) show ?thesis unfolding warm_inv_def by (auto split: if_splits)
qed

section \<open>One runner\<close>

text \<open>
  The loop of a \<open>ClientRunner\<close> that has the queue to itself: it sends every operation and stops at
  the end-of-data operation the empty queue gives.
\<close>

function client_runner :: "(tee_op \<Rightarrow> 's \<Rightarrow> bytes res \<times> 's) \<Rightarrow> shared \<times> 's \<Rightarrow> bytes res list \<times> shared \<times> 's" where
  "client_runner access (q, s) =
    (case dequeue q of (ope, q') \<Rightarrow>
       if t_op ope = EOD then ([], q', s)
       else let (r, s') = access ope s; (rs, qs) = client_runner access (q', s') in (r # rs, qs))"
  by pat_completeness auto

termination
proof (relation "measure (\<lambda>(access, q, s). length (queue q))", goal_cases)
  case (2 access q s ope q')
  then show ?case by (auto simp: dequeue_def EOD_op_def split: list.splits)
qed simp

declare client_runner.simps [simp del]

lemma client_runner_host:
  "(\<And>ope. ope \<in> set ops \<Longrightarrow> t_op ope \<noteq> EOD) \<Longrightarrow>
    client_runner (host_access E M R junk) (q\<lparr>queue := ops\<rparr>, h) =
    (fst (host_run E M R junk ops h), q\<lparr>queue := []\<rparr>, snd (host_run E M R junk ops h))"
proof (induction ops arbitrary: h)
  case Nil
  show ?case by (subst client_runner.simps) (simp add: dequeue_def EOD_op_def)
next
  case (Cons ope ops)
  then have "t_op ope \<noteq> EOD" by simp
  with Cons show ?case
    by (subst client_runner.simps) (simp add: dequeue_def case_prod_beta Let_def)
qed

section \<open>The generated benchmark\<close>

text \<open>Every generated operation meets a key of the filled database and a value that fits.\<close>

definition bench_ok :: "('c, 'g) ssl \<Rightarrow> 'd redis \<Rightarrow> int \<Rightarrow> ('d, 'g) host \<Rightarrow> bool" where
  "bench_ok E R mk h \<longleftrightarrow> (\<exists>V. tee_rep E R V h \<and> (\<forall>i. 0 \<le> i \<and> i < mk \<longrightarrow> int_to_string i \<in> dom V) \<and>
     (\<forall>k v. V k = Some v \<longrightarrow> sealed_len (length v) = 16))"

definition bench_op :: "('c, 'g) ssl \<Rightarrow> int \<Rightarrow> tee_op \<Rightarrow> bool" where
  "bench_op E mk ope \<longleftrightarrow> (\<exists>i. 0 \<le> i \<and> i < mk \<and> t_key ope = int_to_string i) \<and>
     (t_op ope \<noteq> GET \<longrightarrow> (\<exists>r. 0 \<le> r \<and> r < 10000 \<and> sealed E (number r) (t_value ope)))"

lemma number_16: "0 \<le> r \<Longrightarrow> r < 10000 \<Longrightarrow> carried (number r) \<and> sealed_len (length (number r)) = 16"
  using carried_number [of r] length_number [of r 4] by (simp add: sealed_len_cases)

lemma bench_access:
  assumes E: "ssl_ok E" and M: "engine_keys M = Inr ks" and R: "redis_ok R"
    and h: "bench_ok E R mk h" and ope: "bench_op E mk ope"
  shows "\<exists>v ct h'. host_access E M R junk ope h = (Inr ct, h') \<and> sealed E v ct \<and> bench_ok E R mk h'"
proof -
  from h obtain V where V: "tee_rep E R V h" "\<And>i. 0 \<le> i \<Longrightarrow> i < mk \<Longrightarrow> int_to_string i \<in> dom V"
    "\<And>k v. V k = Some v \<Longrightarrow> sealed_len (length v) = 16"
    unfolding bench_ok_def by blast
  from ope V(2) obtain u where u: "V (t_key ope) = Some u" unfolding bench_op_def by (metis domD)
  obtain w where w: "t_op ope \<noteq> GET \<Longrightarrow> carried w \<and> sealed_len (length w) = 16 \<and> sealed E w (t_value ope)"
    using ope number_16 unfolding bench_op_def by metis
  let ?a = "(t_op ope, t_key ope, w)" and ?v = "if t_op ope = GET then u else w"
  have "op_rep E ope ?a" using w by (simp add: op_rep_def)
  moreover have "tee_spec ?a V = Some (?v, V(t_key ope \<mapsto> ?v))"
    using u w V(3) [OF u] by (auto simp: fun_eq_iff)
  ultimately obtain ct h' where step: "host_access E M R junk ope h = (Inr ct, h')" "sealed E ?v ct"
    and rep: "tee_rep E R (V(t_key ope \<mapsto> ?v)) h'"
    using host_access_refines [OF E M R V(1)] by blast
  have "bench_ok E R mk h'"
    unfolding bench_ok_def
  proof (intro exI conjI allI impI)
    show "tee_rep E R (V(t_key ope \<mapsto> ?v)) h'" by (rule rep)
    show "int_to_string i \<in> dom (V(t_key ope \<mapsto> ?v))" if "0 \<le> i \<and> i < mk" for i
      using V(2) that by auto
    show "sealed_len (length v) = 16" if "(V(t_key ope \<mapsto> ?v)) k = Some v" for k v
      using that V(3) w u by (auto split: if_splits)
  qed
  with step show ?thesis by blast
qed

lemma bench_run:
  assumes E: "ssl_ok E" and M: "engine_keys M = Inr ks" and R: "redis_ok R"
  shows "bench_ok E R mk h \<Longrightarrow> \<forall>ope \<in> set ops. bench_op E mk ope \<Longrightarrow>
    \<exists>cts h'. host_run E M R junk ops h = (map Inr cts, h') \<and> (\<forall>ct \<in> set cts. \<exists>v. sealed E v ct)"
proof (induction ops arbitrary: h)
  case (Cons ope ops)
  from bench_access [OF E M R Cons.prems(1), of ope junk] Cons.prems(2) obtain v ct h' where
    1: "host_access E M R junk ope h = (Inr ct, h')" "sealed E v ct" "bench_ok E R mk h'" by auto
  from Cons.IH [OF 1(3)] Cons.prems(2) obtain cts h'' where
    "host_run E M R junk ops h' = (map Inr cts, h'')" "\<forall>ct \<in> set cts. \<exists>v. sealed E v ct" by auto
  with 1 show ?case by (auto intro!: exI [of _ "ct # cts"])
qed simp

text \<open>Operations that \<open>genRandOperation\<close> made with the configuration's bounds.\<close>

definition generated :: "('c, 'g) ssl \<Rightarrow> ('x, 'm, 'k) mac_lib \<Rightarrow> byte \<Rightarrow> config \<Rightarrow> tee_op list \<Rightarrow> bool" where
  "generated E M junk cfg ops \<longleftrightarrow> (\<forall>ope \<in> set ops. \<exists>d cfg1 g1 cfg2 g2.
     genRandOperation E M junk d cfg1 g1 = (Inr ope, cfg2, g2) \<and>
     max_key cfg1 = max_key cfg \<and> max_value cfg1 = max_value cfg)"

lemma generated_bench_ops:
  assumes E: "ssl_ok E" and M: "engine_keys M = Inr ks" and ops: "generated E M junk cfg ops"
    and cfg: "0 < max_value cfg" "max_value cfg \<le> 10000" "0 < max_key cfg"
  shows "\<forall>ope \<in> set ops. bench_op E (max_key cfg) ope \<and> t_op ope \<noteq> EOD"
proof
  fix ope
  assume "ope \<in> set ops"
  with ops obtain dr cfg1 g1 cfg2 g2 where gen: "genRandOperation E M junk dr cfg1 g1 = (Inr ope, cfg2, g2)"
    and cfg1: "max_key cfg1 = max_key cfg" "max_value cfg1 = max_value cfg" unfolding generated_def by blast
  have "0 < max_key cfg1" "0 < max_value cfg1" "max_value cfg1 \<le> 10 ^ 10" using cfg1 cfg by simp_all
  from genRandOperation_result [OF E M gen this]
  have res: "\<exists>i. 0 \<le> i \<and> i < max_key cfg \<and> t_key ope = int_to_string i" "t_op ope \<noteq> EOD"
    "t_op ope \<noteq> GET \<Longrightarrow> \<exists>r. 0 \<le> r \<and> r < max_value cfg \<and> sealed E (number r) (t_value ope)"
    unfolding cfg1 by simp_all
  have "\<exists>r. 0 \<le> r \<and> r < 10000 \<and> sealed E (number r) (t_value ope)" if put: "t_op ope \<noteq> GET"
  proof -
    from res(3) [OF put] obtain r where "0 \<le> r" "r < max_value cfg" "sealed E (number r) (t_value ope)" by blast
    with cfg(2) show ?thesis by (intro exI [of _ r]) simp
  qed
  with res(1,2) show "bench_op E (max_key cfg) ope \<and> t_op ope \<noteq> EOD" by (simp add: bench_op_def)
qed

lemma initDB_fits:
  assumes "ssl_ok E" and "engine_keys M = Inr ks" and "redis_ok R"
    and "\<not> use_seed cfg" and "0 < max_value cfg" and mv: "max_value cfg \<le> 10000" and "0 < max_key cfg"
    and "initDB E M R junk ds cfg g d = Inr d'"
  shows "\<forall>i. 0 \<le> i \<and> i < max_key cfg \<longrightarrow>
    (\<exists>r. 0 \<le> r \<and> r < 10000 \<and> sealed E (number r) (redisCli_get R d' (int_to_string i)))"
proof (intro allI impI)
  fix i
  assume i: "0 \<le> i \<and> i < max_key cfg"
  have "max_value cfg \<le> 10 ^ 10" "0 \<le> max_key cfg" using mv assms(7) by simp_all
  from initDB_fills [OF assms(1-5) this, of junk ds g d] assms(8) i obtain r where
    "0 \<le> r" "r < max_value cfg" "sealed E (number r) (redisCli_get R d' (int_to_string i))" by auto
  with mv show "\<exists>r. 0 \<le> r \<and> r < 10000 \<and> sealed E (number r) (redisCli_get R d' (int_to_string i))"
    by (intro exI [of _ r]) simp
qed

lemma bench_start:
  assumes "\<forall>i. 0 \<le> i \<and> i < mk \<longrightarrow>
      (\<exists>r. 0 \<le> r \<and> r < 10000 \<and> sealed E (number r) (redisCli_get R d (int_to_string i)))"
  shows "bench_ok E R mk \<lparr>storage_server = d, alive = True, generator = g\<rparr>"
proof -
  let ?K = "int_to_string ` {0..<mk}"
  let ?P = "\<lambda>k v. carried v \<and> sealed_len (length v) = 16 \<and> sealed E v (redisCli_get R d k)"
  have "\<forall>k \<in> ?K. \<exists>v. ?P k v"
  proof
    fix k
    assume "k \<in> ?K"
    then obtain i where "k = int_to_string i" "0 \<le> i \<and> i < mk" by auto
    with assms obtain r where "0 \<le> r" "r < 10000" "sealed E (number r) (redisCli_get R d k)" by blast
    with number_16 show "\<exists>v. ?P k v" by blast
  qed
  from bchoice [OF this] obtain f where f: "\<forall>k \<in> ?K. ?P k (f k)" by blast
  let ?V = "\<lambda>k. if k \<in> ?K then Some (f k) else None"
  have "tee_rep E R ?V \<lparr>storage_server = d, alive = True, generator = g\<rparr>"
    using f by (auto simp: tee_rep_def)
  moreover have "\<forall>i. 0 \<le> i \<and> i < mk \<longrightarrow> int_to_string i \<in> dom ?V" by (auto simp: dom_def)
  moreover have "\<forall>k v. ?V k = Some v \<longrightarrow> sealed_len (length v) = 16" using f by auto
  ultimately show ?thesis unfolding bench_ok_def by blast
qed

end
