(* ===== verification/TeeExamples.thy ===== *)
theory TeeExamples
  imports TeeThreads
begin

text \<open>
  Concrete instances of the parameters of ORTOA-TEE, on which its theorems are applied: a cipher
  that only pads (as PKCS 7 does), a keyed hash that starts with the key, a Redis that is a map.
\<close>

definition toy_pad :: "bytes \<Rightarrow> bytes" where
  "toy_pad pt = pt @ replicate (16 - length pt mod 16) (of_nat (16 - length pt mod 16))"

definition toy_unpad :: "bytes \<Rightarrow> bytes" where
  "toy_unpad ct = take (length ct - unat (last ct)) ct"

definition toy_ssl :: "(bytes, nat) ssl" where
  "toy_ssl = \<lparr>asserts = True, ctx_new = True,
     enc_init = (\<lambda>key iv. Some []), enc_update = (\<lambda>c d. Some (d, [])), enc_final = (\<lambda>c. Some (toy_pad c)),
     dec_init = (\<lambda>key iv. Some []), dec_update = (\<lambda>c d. Some (d, [])),
     dec_final = (\<lambda>c. if c = [] then None else Some (toy_unpad c)),
     uniform = (\<lambda>a b g. (a, g))\<rparr>"

lemma length_toy_pad: "length (toy_pad pt) = cipher_len (length pt)"
proof -
  have "length pt = 16 * (length pt div 16) + length pt mod 16" "length pt mod 16 < 16" by simp_all
  then show ?thesis unfolding toy_pad_def cipher_len_def length_append length_replicate by presburger
qed

lemma toy_unpad_pad: "toy_unpad (toy_pad pt) = pt"
proof -
  define n where "n = 16 - length pt mod 16"
  have "length pt mod 16 < 16" by simp
  then have n: "0 < n" "n \<le> 16" by (simp_all add: n_def)
  have pad: "toy_pad pt = pt @ replicate n (of_nat n)" by (simp add: toy_pad_def n_def)
  from n have "last (toy_pad pt) = of_nat n" by (simp add: pad)
  moreover have "unat (of_nat n :: byte) = n" using n by (simp add: unat_of_nat)
  ultimately show ?thesis by (simp add: toy_unpad_def pad)
qed

lemma toy_pad_nonempty: "toy_pad pt \<noteq> []"
  using length_toy_pad [of pt] by (auto simp: cipher_len_def)

lemma toy_ssl_ok: "ssl_ok toy_ssl"
proof -
  have "cipher_law toy_ssl"
    unfolding cipher_law_def
    by (simp add: cbc_encrypt_def cbc_decrypt_def toy_ssl_def length_toy_pad toy_unpad_pad toy_pad_nonempty)
  moreover have "empty_law toy_ssl" "uniform_law toy_ssl" "ctx_new toy_ssl"
    by (simp_all add: empty_law_def uniform_law_def toy_ssl_def)
  ultimately show ?thesis by (simp add: ssl_ok_def)
qed

definition toy_hash :: "bytes \<Rightarrow> bytes \<Rightarrow> bytes" where
  "toy_hash key msg = [of_nat (length key), of_nat (length msg), 1, 2, 3]"

definition toy_mac :: "(bytes \<times> bytes, unit, bytes) mac_lib" where
  "toy_mac = \<lparr>mac_asserts = True, md_ctx_create = Some ([], []), get_digestbyname = (\<lambda>n. Some ()),
     digest_init = (\<lambda>x m. Some x), sign_init = (\<lambda>x m k. Some (k, [])),
     sign_update = (\<lambda>x d. Some (fst x, d)), sign_size = (\<lambda>x. Some 5),
     sign_final = (\<lambda>x. Some (toy_hash (fst x) (snd x))), ssl_malloc = (\<lambda>n. Some (replicate n 0)),
     md_size = (\<lambda>m. 32), rand_bytes = (\<lambda>n. Some (replicate n 7)), new_mac_key = (\<lambda>k. Some k)\<rparr>"

lemma toy_mac_ok: "mac_ok toy_mac toy_hash"
  by (simp add: mac_ok_def toy_mac_def toy_hash_def EVP_MAX_MD_SIZE_def)

lemma toy_engine: "engine_keys toy_mac = Inr (Some (replicate 32 7), Some (replicate 32 7))"
  by (simp add: engine_keys_def make_keys_def toy_mac_def EVP_MAX_MD_SIZE_def)

definition toy_redis :: "(string \<rightharpoonup> bytes) redis" where
  "toy_redis = \<lparr>redis_get = (\<lambda>d k. d k), redis_set = (\<lambda>d k v. d(k \<mapsto> v)),
     redis_exec = (\<lambda>d ops. foldl (\<lambda>d (k, v). d(k \<mapsto> v)) d ops)\<rparr>"

lemma toy_redis_ok: "redis_ok toy_redis"
  by (simp add: redis_ok_def toy_redis_def)

text \<open>A ciphertext of a value, and operations on the key \<open>5\<close>.\<close>

definition toy_ct :: "bytes \<Rightarrow> bytes" where
  "toy_ct v = seal toy_ssl (v @ [35] @ replicate 10 48)"

lemma toy_sealed: "sealed toy_ssl v (toy_ct v)"
proof -
  have "set (replicate 10 (48 :: byte)) \<subseteq> digits"
    by (simp add: digits_def alphanum_def to_bytes_def)
  then show ?thesis
    unfolding sealed_def toy_ct_def by (intro exI [of _ "replicate 10 48"]) (simp add: rng_max_len_def)
qed

lemma length_toy_ct: "length (toy_ct v) = sealed_len (length v)"
  by (rule length_sealed [OF toy_ssl_ok toy_sealed])

definition tget :: tee_op where
  "tget = \<lparr>t_op = GET, t_key = ''5'', t_value = []\<rparr>"

definition tput :: "bytes \<Rightarrow> tee_op" where
  "tput v = \<lparr>t_op = PUT, t_key = ''5'', t_value = toy_ct v\<rparr>"

definition toy_host :: "bytes \<Rightarrow> (string \<rightharpoonup> bytes, nat) host" where
  "toy_host v = \<lparr>storage_server = [''5'' \<mapsto> toy_ct v], alive = True, generator = 0\<rparr>"

lemma toy_stored [simp]: "redisCli_get toy_redis (storage_server (toy_host v)) ''5'' = toy_ct v"
  by (simp add: redisCli_get_def toy_redis_def toy_host_def)

lemma toy_rep: "carried v \<Longrightarrow> sealed_len (length v) \<le> 4096 \<Longrightarrow>
    tee_rep toy_ssl toy_redis [''5'' \<mapsto> v] (toy_host v)"
  using toy_sealed [of v] by (simp add: tee_rep_def) (simp add: toy_host_def)

lemma toy_carried: "carried [65]" "carried [66, 66]"
  by (simp_all add: carried_def)

end
