(* ===== verification/TeeProperties.thy ===== *)
theory TeeProperties
  imports TeeExamples
begin

text \<open>
  The properties of ORTOA-TEE: host and enclave are a store for values that fit, what happens to
  values that do not, to missing keys and to interleaved requests, and what the client's queue and
  threads do.  Each property with hypotheses is applied to the instances of \<open>TeeExamples\<close>.
\<close>

section \<open>Host and enclave\<close>

text \<open>
  C7: any sequence of requests that the abstract store allows (every key stored, no value whose
  ciphertext is longer than the one it replaces) is answered without an error: every answer is an
  encryption of the value the abstract store returns, and the database represents its values.
\<close>

theorem host_implements_store:
  assumes "ssl_ok E" and "engine_keys M = Inr ks" and "redis_ok R" and "tee_rep E R V h"
    and "list_all2 (op_rep E) ops as" and "tee_spec_run as V = Some (vs, V')"
  shows "\<exists>cts h'. host_run E M R junk ops h = (map Inr cts, h') \<and> list_all2 (sealed E) vs cts \<and> tee_rep E R V' h'"
  using host_run_refines [OF assms(1-3)] assms(4-6) by blast

theorem host_implements_store_witness:
  "\<exists>c1 c2 c3 h'. host_run toy_ssl toy_mac toy_redis 0 [tget, tput [66, 66], tget] (toy_host [65]) =
      ([Inr c1, Inr c2, Inr c3], h') \<and> sealed toy_ssl [65] c1 \<and> sealed toy_ssl [66, 66] c3"
proof -
  let ?as = "[(GET, ''5'', []), (PUT, ''5'', [66, 66]), (GET, ''5'', [])]"
  have "list_all2 (op_rep toy_ssl) [tget, tput [66, 66], tget] ?as"
    by (simp add: op_rep_def tget_def tput_def toy_sealed carried_def)
  moreover have "tee_spec_run ?as [''5'' \<mapsto> [65]] =
      Some ([[65], [66, 66], [66, 66]], [''5'' \<mapsto> [66, 66]])"
    by (simp add: sealed_len_cases)
  moreover have "tee_rep toy_ssl toy_redis [''5'' \<mapsto> [65]] (toy_host [65])"
    by (rule toy_rep) (simp_all add: carried_def sealed_len_cases)
  ultimately show ?thesis
    using host_implements_store [OF toy_ssl_ok toy_engine toy_redis_ok, of _ _ "[tget, tput [66, 66], tget]" ?as _ _ 0]
    by (fastforce simp: list_all2_Cons1)
qed

text \<open>
  C17: encrypting a value into the 4096-byte buffer and decrypting the bytes written gives the value
  back when it has no NUL byte, whatever separators it contains and whatever the salt was.
\<close>

theorem salted_roundtrip:
  assumes "ssl_ok E" and "0 \<notin> set v" and "length v \<le> 4069" and "length out = 4096" and "length text = 4096"
  shows "\<exists>n out' g'. encryptNonDeterministic E v out g = (Inr (n, out'), g') \<and> length out' = 4096 \<and>
    n \<le> 4096 \<and> decryptNonDeterministic E text (take n out') = Inr v"
proof -
  have fits: "sealed_len (length v) \<le> 4096"
    using sealed_len_mono [OF assms(3)] by (simp add: sealed_len_def cipher_len_def rng_max_len_def)
  obtain ct where ct: "sealed E v ct" "encryptNonDeterministic E v out g =
      (Inr (sealed_len (length v), overwrite out 0 ct), snd (rand_str E rng_max_len g))"
    using encryptNonDeterministic_eq [OF assms(1), of v out g] fits assms(4) by auto
  have len: "length ct = sealed_len (length v)" by (rule length_sealed [OF assms(1) ct(1)])
  then have "take (length ct) (overwrite out 0 ct) = ct" using fits assms(4) by (intro take_overwrite) simp
  moreover have "decryptNonDeterministic E text ct = Inr v"
    using decrypt_sealed [OF assms(1) ct(1), of "text"] assms(2,3,5) by simp
  ultimately show ?thesis using ct(2) len fits assms(4) by simp
qed

theorem salted_roundtrip_witness:
  "\<exists>n out' g'. encryptNonDeterministic toy_ssl [65, 35, 66] (replicate 4096 0) 0 = (Inr (n, out'), g') \<and>
    decryptNonDeterministic toy_ssl (replicate 4096 1) (take n out') = Inr [65, 35, 66]"
  using salted_roundtrip [OF toy_ssl_ok, of "[65, 35, 66]" "replicate 4096 0" "replicate 4096 1" 0] by auto

text \<open>
  A value with a NUL byte comes back cut: decryption keeps the bytes before the NUL, and of
  these only the ones before their last separator.
\<close>

lemma nul_cuts_value:
  assumes "ssl_ok E" and "sealed E (u @ 0 # w) ct" and "0 \<notin> set u" and "length u + length w + 12 \<le> length text"
  shows "decryptNonDeterministic E text ct = Inr (extractKey u) \<and> (35 \<notin> set u \<longrightarrow> extractKey u = u) \<and>
    (\<exists>k. extractKey u = take k u)"
proof -
  have "takeWhile (\<lambda>b. b \<noteq> 0) (u @ 0 # w) = u" using assms(3) by (simp add: takeWhile_append)
  then show ?thesis
    using decrypt_sealed [OF assms(1,2), of "text"] assms(4) extractKey_none [of u] extractKey_prefix [of u] by simp
qed

text \<open>
  C33: a PUT whose ciphertext is longer than the stored one makes the enclave write past the end of
  the buffer that \<open>[out, count=in_size]\<close> gives it.
\<close>

theorem longer_put_overruns:
  assumes "ssl_ok E" and "engine_keys M = Inr ks" and "alive h" and "t_op ope \<noteq> GET" and "carried w"
    and "sealed E w (t_value ope)"
    and "length (redisCli_get R (storage_server h) (t_key ope)) < sealed_len (length w)"
  shows "fst (host_access E M R junk ope h) = Inl Undefined"
proof -
  let ?rd = "redisCli_get R (storage_server h) (t_key ope)"
  have "sealed E w (source_of ope ?rd)" using assms(4,6) by (simp add: source_of_def)
  from enclave_call_too_long [OF assms(1,2,5) this assms(7), of junk "generator h"]
  show ?thesis
    using assms(3)
    by (cases "enclave_call E M junk ope ?rd (True, generator h)") (simp add: host_access_def)
qed

theorem longer_put_overruns_witness:
  "fst (host_access toy_ssl toy_mac toy_redis 0 (tput [66, 66, 66, 66, 66, 66]) (toy_host [65])) = Inl Undefined"
proof (rule longer_put_overruns [OF toy_ssl_ok toy_engine])
  show "carried [66, 66, 66, 66, 66, 66]" by (simp add: carried_def)
  show "sealed toy_ssl [66, 66, 66, 66, 66, 66] (t_value (tput [66, 66, 66, 66, 66, 66]))"
    by (simp add: tput_def toy_sealed)
  show "length (redisCli_get toy_redis (storage_server (toy_host [65])) (t_key (tput [66, 66, 66, 66, 66, 66]))) <
      sealed_len (length [66, 66, 66, 66, 66, 66 :: byte])"
    by (simp add: tput_def length_toy_ct sealed_len_cases) (simp add: sealed_len_def cipher_len_def rng_max_len_def)
qed (simp_all add: tput_def toy_host_def)

text \<open>
  C34: a GET of a key that is not stored aborts the enclave, and with it the service: that request
  and every later one returns the empty answer and changes no value.
\<close>

theorem missing_key_stops_service:
  assumes "ssl_ok E" and "engine_keys M = Inr ks" and "alive h" and "t_op ope = GET"
    and "redis_get R (storage_server h) (t_key ope) = None"
  shows "\<exists>h'. host_run E M R junk (ope # ops) h = (replicate (Suc (length ops)) (Inr []), h') \<and>
    storage_server h' = storage_server h \<and> \<not> alive h'"
proof -
  let ?h = "h\<lparr>alive := False\<rparr>"
  have "redisCli_get R (storage_server h) (t_key ope) = []" using assms(5) by (simp add: redisCli_get_def)
  then have "host_access E M R junk ope h = (Inr [], ?h)"
    using enclave_call_empty [OF assms(1,2), of ope "[]" junk "generator h"] assms(3,4)
    by (simp add: host_access_def source_of_def)
  then show ?thesis by (simp add: host_run_dead)
qed

theorem missing_key_stops_service_witness:
  "\<exists>h'. host_run toy_ssl toy_mac toy_redis 0 [tget\<lparr>t_key := ''6''\<rparr>, tget] (toy_host [65]) =
    ([Inr [], Inr []], h') \<and> \<not> alive h'"
  using missing_key_stops_service [OF toy_ssl_ok toy_engine, of "toy_host [65]" "tget\<lparr>t_key := ''6''\<rparr>" toy_redis 0 "[tget]"]
  by (auto simp: tget_def toy_redis_def toy_host_def)

section \<open>Interleaved requests\<close>

text \<open>
  C18: with the host's threads interleaved in any way, every stored record and every answer of an
  operation on a key is empty or encrypts a value that the key held at the start or that some
  operation writes to it.
\<close>

theorem threads_make_up_nothing:
  assumes "ssl_ok E" and "engine_keys M = Inr ks" and "redis_ok R"
    and "(host_step E M R junk)\<^sup>*\<^sup>* s s'" and "hsys_ok E R W s"
  shows "(\<forall>k. seals_some E (W k) (redisCli_get R (hs_store s') k)) \<and>
    (\<forall>i ope out. hs_threads s' i = Finished ope out \<longrightarrow> seals_some E (W (t_key ope)) out)"
proof -
  from host_steps_ok [OF assms] have ok: "hsys_ok E R W s'" .
  have "seals_some E (W (t_key ope)) out" if "hs_threads s' i = Finished ope out" for i ope out
  proof -
    from ok have "thread_ok E W (hs_threads s' i)" by (simp add: hsys_ok_def)
    with that show ?thesis by simp
  qed
  with ok show ?thesis by (simp add: hsys_ok_def)
qed

definition toy_sys :: "((string \<rightharpoonup> bytes), nat) hsys" where
  "toy_sys = \<lparr>hs_store = [''5'' \<mapsto> toy_ct [65]], hs_alive = True,
     hs_threads = (\<lambda>i. if i = 0 then Ready tget else Ready (tput [66])), hs_gens = (\<lambda>i. i)\<rparr>"

lemma toy_sys_get: "redisCli_get toy_redis (hs_store toy_sys) k = (if k = ''5'' then toy_ct [65] else [])"
  by (simp add: redisCli_get_def toy_redis_def toy_sys_def)

lemma toy_sys_ok: "hsys_ok toy_ssl toy_redis (\<lambda>k. if k = ''5'' then {[65], [66]} else {}) toy_sys"
proof -
  have "seals_some toy_ssl {[65], [66]} (toy_ct [65])" "seals_some toy_ssl {[65], [66]} (toy_ct [66])"
    using toy_sealed by (auto simp: seals_some_def carried_def)
  moreover have "seals_some toy_ssl {} []" by (simp add: seals_some_def)
  ultimately show ?thesis
    by (simp add: hsys_ok_def toy_sys_get) (simp add: toy_sys_def tget_def tput_def)
qed

theorem threads_make_up_nothing_witness:
  "\<exists>s'. host_step toy_ssl toy_mac toy_redis 0 toy_sys s' \<and>
    seals_some toy_ssl {[65], [66]} (redisCli_get toy_redis (hs_store s') ''5'')"
proof -
  let ?W = "\<lambda>k. if k = ''5'' then {[65], [66 :: byte]} else {}"
  have "hs_threads toy_sys 0 = Ready tget" by (simp add: toy_sys_def)
  from host_step.fetch [OF this, of toy_ssl toy_mac toy_redis 0] obtain s' where
    s': "host_step toy_ssl toy_mac toy_redis 0 toy_sys s'" by blast
  from threads_make_up_nothing [OF toy_ssl_ok toy_engine toy_redis_ok r_into_rtranclp [where r = "host_step toy_ssl toy_mac toy_redis 0", OF s'] toy_sys_ok]
  have "seals_some toy_ssl (?W ''5'') (redisCli_get toy_redis (hs_store s') ''5'')" by blast
  with s' show ?thesis by auto
qed

text \<open>
  C31: the read, the enclave call and the write of a request are not one step: a GET that reads
  before a PUT to the same key and writes after it has ended restores the old value, so the value of
  a PUT that was answered is lost.
\<close>

theorem get_undoes_put:
  assumes "ssl_ok E" and "engine_keys M = Inr ks" and "redis_ok R"
    and "hs_alive s" and "hs_threads s i = Ready get" and "t_op get = GET" and "t_key get = k"
    and "hs_threads s j = Ready put" and "t_op put \<noteq> GET" and "t_key put = k" and "i \<noteq> j"
    and "carried v" and "sealed E v (redisCli_get R (hs_store s) k)" and "sealed_len (length v) \<le> 4096"
    and "carried w" and "sealed E w (t_value put)" and "sealed_len (length w) \<le> sealed_len (length v)"
  shows "\<exists>s1 s2 ct ct'. (host_step E M R junk)\<^sup>*\<^sup>* s s1 \<and> (host_step E M R junk)\<^sup>*\<^sup>* s1 s2 \<and>
    hs_threads s1 j = Finished put ct \<and> sealed E w ct \<and> redisCli_get R (hs_store s1) k = ct \<and>
    hs_threads s2 i = Finished get ct' \<and> sealed E v ct' \<and> redisCli_get R (hs_store s2) k = ct'"
  by (rule lost_update [OF assms])

theorem get_undoes_put_witness:
  "\<exists>s1 s2 ct ct'. (host_step toy_ssl toy_mac toy_redis 0)\<^sup>*\<^sup>* toy_sys s1 \<and>
    (host_step toy_ssl toy_mac toy_redis 0)\<^sup>*\<^sup>* s1 s2 \<and>
    hs_threads s1 1 = Finished (tput [66]) ct \<and> sealed toy_ssl [66] ct \<and>
    hs_threads s2 0 = Finished tget ct' \<and> sealed toy_ssl [65] ct' \<and>
    redisCli_get toy_redis (hs_store s2) ''5'' = ct'"
proof -
  have "sealed toy_ssl [65] (redisCli_get toy_redis (hs_store toy_sys) ''5'')"
    by (simp add: toy_sys_get toy_sealed)
  with get_undoes_put [OF toy_ssl_ok toy_engine toy_redis_ok, of toy_sys 0 tget "''5''" 1 "tput [66]" "[65]" "[66]" 0]
  have "\<exists>s1 s2 ct ct'. (host_step toy_ssl toy_mac toy_redis 0)\<^sup>*\<^sup>* toy_sys s1 \<and>
      (host_step toy_ssl toy_mac toy_redis 0)\<^sup>*\<^sup>* s1 s2 \<and>
      hs_threads s1 1 = Finished (tput [66]) ct \<and> sealed toy_ssl [66] ct \<and>
      redisCli_get toy_redis (hs_store s1) ''5'' = ct \<and>
      hs_threads s2 0 = Finished tget ct' \<and> sealed toy_ssl [65] ct' \<and>
      redisCli_get toy_redis (hs_store s2) ''5'' = ct'"
    by (simp add: toy_sys_def tget_def tput_def carried_def toy_sealed sealed_len_cases)
  then show ?thesis by blast
qed

section \<open>The client\<close>

definition toy_config :: config where
  "toy_config = \<lparr>seed_data = [], at_eof = False, use_seed = False, num_operations = 3,
     below_p_get = (\<lambda>r. r < 5), max_key = 3, max_value = 10000\<rparr>"

definition toy_draw :: draw where
  "toy_draw = \<lparr>d_first = 7, d_second = 8, d_third = 9, d_bytes = 1 # replicate 159 0\<rparr>"

lemma toy_config_ok:
  "\<not> use_seed toy_config" "0 < max_value toy_config" "max_value toy_config \<le> 10000" "0 < max_key toy_config"
  by (simp_all add: toy_config_def)

lemma toy_filled:
  obtains d' where "initDB toy_ssl toy_mac toy_redis 0 (\<lambda>_. toy_draw) toy_config 0 Map.empty = Inr d'"
  using initDB_fills [OF toy_ssl_ok toy_engine toy_redis_ok toy_config_ok(1,2), of 0 "\<lambda>_. toy_draw" 0 Map.empty]
  by (auto simp: toy_config_def)

lemma toy_generated:
  obtains ope where "fst (genRandOperation toy_ssl toy_mac 0 toy_draw toy_config 0) = Inr ope"
    and "\<And>ops. set ops \<subseteq> {ope} \<Longrightarrow> generated toy_ssl toy_mac 0 toy_config ops"
proof -
  have "length (number 9) \<le> 1000" using length_number [of 9 10] by simp
  from make_op_ok [OF toy_ssl_ok toy_engine this, of 0 PUT "int_to_string 2" 0] obtain ct g1 where
    "make_op toy_ssl toy_mac 0 PUT (int_to_string 2) (Inr (number 9)) 0 =
      (Inr \<lparr>t_op = PUT, t_key = int_to_string 2, t_value = ct\<rparr>, g1)" by blast
  then have gen: "genRandOperation toy_ssl toy_mac 0 toy_draw toy_config 0 =
      (Inr \<lparr>t_op = PUT, t_key = int_to_string 2, t_value = ct\<rparr>, toy_config\<lparr>num_operations := 2\<rparr>, g1)"
    by (simp add: genRandOperation_def toy_draw_def toy_config_def rand_mod_def number_def)
  show thesis
  proof (rule that)
    show "generated toy_ssl toy_mac 0 toy_config ops" if "set ops \<subseteq> {\<lparr>t_op = PUT, t_key = int_to_string 2, t_value = ct\<rparr>}" for ops
      unfolding generated_def using gen that by blast
  qed (simp add: gen)
qed

text \<open>
  The default benchmark never meets the flaws of the enclave: after the database is filled, any
  sequence of generated operations with numbers of at most four digits is answered without an error,
  each answer being an encryption of a value.
\<close>

lemma generated_benchmark_runs:
  assumes "ssl_ok E" and "engine_keys M = Inr ks" and "redis_ok R"
    and "\<not> use_seed cfg" and "0 < max_value cfg" and "max_value cfg \<le> 10000" and "0 < max_key cfg"
    and "initDB E M R junk ds cfg g d = Inr d'" and "generated E M junk cfg ops"
  shows "\<exists>cts. fst (host_run E M R junk ops \<lparr>storage_server = d', alive = True, generator = g'\<rparr>) = map Inr cts \<and>
    length cts = length ops \<and> (\<forall>ct \<in> set cts. \<exists>v. sealed E v ct)"
proof -
  from bench_start [OF initDB_fits [OF assms(1-8)]] generated_bench_ops [OF assms(1,2,9,5-7)]
    bench_run [OF assms(1-3), of "max_key cfg" "\<lparr>storage_server = d', alive = True, generator = g'\<rparr>" ops junk]
  obtain cts h' where
    run: "host_run E M R junk ops \<lparr>storage_server = d', alive = True, generator = g'\<rparr> = (map Inr cts, h')"
    and cts: "\<forall>ct \<in> set cts. \<exists>v. sealed E v ct" by blast
  have "length (fst (host_run E M R junk ops h)) = length ops" for h
    by (induction ops arbitrary: h) (simp_all add: case_prod_beta Let_def)
  from this [of "\<lparr>storage_server = d', alive = True, generator = g'\<rparr>"] run cts show ?thesis by auto
qed

text \<open>
  C37: a seed file that has not been read, at least one producer thread and an engine that works.  However
  the threads are scheduled, at all times the queue holds one operation for each of the first lines of
  the file, in the order of the file, with the kind and key of its line and an encryption, for a PUT of the third
  word of its line.  A producer fails by undefined behaviour only (a GET whose random bytes hold no zero, a value that
  does not fit the buffer), and that ends the run of the producers; when they have all ended without,
  the queue holds all the lines, where an empty line after the last line break counts.
\<close>

theorem producers_queue_the_file:
  assumes "ssl_ok E" and "engine_keys M = Inr ks" and "(producer_step E M junk)\<^sup>*\<^sup>* s s'"
    and "use_seed (conf (p_shared s))" and "\<not> at_eof (conf (p_shared s))"
    and "queue (p_shared s) = []" and "p_active s \<noteq> {}" and "p_failed s = None"
  defines "lines \<equiv> split_lines (seed_data (conf (p_shared s)))"
  shows "list_all2 (line_op E) (queue (p_shared s')) (take (length (queue (p_shared s'))) lines) \<and>
    p_failed s' \<in> {None, Some Undefined} \<and>
    (p_active s' = {} \<and> p_failed s' = None \<longrightarrow> length (queue (p_shared s')) = length lines)"
proof -
  have "follows_file E lines s"
    using assms(4-6) by (simp add: follows_file_def lines_def lines_left_def)
  from producer_steps_file [OF assms(3,1) this] obtain read rest where pre: "use_seed (conf (p_shared s'))" "lines = read @ rest"
    "list_all2 (line_op E) (queue (p_shared s')) read" "p_failed s' = None \<longrightarrow> rest = lines_left (conf (p_shared s'))"
    unfolding follows_file_def by (elim conjE exE) (rule that)
  have len: "length (queue (p_shared s')) = length read" using pre(3) by (rule list_all2_lengthD)
  have "rest = []" if "p_active s' = {}" "p_failed s' = None"
    using producer_steps_stop [OF assms(3) _ that(2)] assms(7) that pre(1,4)
    by (simp add: moreOperationsExist_def lines_left_def)
  moreover have "p_failed s' \<in> {None, Some Undefined}" by (rule producer_steps_failed [OF assms(3,1,2)]) (simp add: assms(8))
  ultimately show ?thesis using pre(2,3) len by auto
qed

text \<open>
  Without a seed file the producers queue exactly \<open>num_operations\<close> operations, and they end: no run
  of theirs has more steps than there are operations and threads, and one if a producer fails.
\<close>

lemma producers_queue_and_end:
  assumes "(producer_step E M junk ^^ k) s s'" and "\<not> use_seed (conf (p_shared s))"
    and "0 \<le> num_operations (conf (p_shared s))" and "queue (p_shared s) = []"
    and "p_active s \<noteq> {}" and "finite (p_active s)" and "p_failed s = None"
  shows "k \<le> nat (num_operations (conf (p_shared s))) + card (p_active s) + 1 \<and> (p_failed s' = None \<longrightarrow>
    int (length (queue (p_shared s'))) \<le> num_operations (conf (p_shared s)) \<and>
    (p_active s' = {} \<longrightarrow> int (length (queue (p_shared s'))) = num_operations (conf (p_shared s))))"
proof -
  have steps: "(producer_step E M junk)\<^sup>*\<^sup>* s s'" using assms(1) by (rule relpowp_imp_rtranclp)
  note count = producer_steps_count [OF steps assms(2,3)]
  have bound: "k \<le> nat (num_operations (conf (p_shared s))) + card (p_active s) + 1"
    using producing.bounded [OF assms(1,6)] assms(2) by (simp add: producers_measure_def work_left_def split: if_splits)
  have "int (length (queue (p_shared s'))) = num_operations (conf (p_shared s))"
    if ok: "p_failed s' = None" and "p_active s' = {}"
  proof -
    have "p_active s' \<noteq> p_active s" using assms(5) that(2) by simp
    from producer_steps_stop [OF steps this ok] count [OF ok] have "num_operations (conf (p_shared s')) = 0"
      by (simp add: moreOperationsExist_def)
    with count [OF ok] assms(4) show ?thesis by simp
  qed
  moreover have "int (length (queue (p_shared s'))) \<le> num_operations (conf (p_shared s))" if "p_failed s' = None"
    using count [OF that] assms(4) by simp
  ultimately show ?thesis using bound by blast
qed

definition toy_producers :: "config \<Rightarrow> nat producers" where
  "toy_producers cfg = producers_start 1 cfg (\<lambda>i. i)"

theorem producers_queue_the_file_witness:
  "\<exists>s' ope. (producer_step toy_ssl toy_mac 0)\<^sup>*\<^sup>*
      (toy_producers (toy_config\<lparr>use_seed := True, seed_data := ''PUT 7 1''\<rparr>)) s' \<and>
    queue (p_shared s') = [ope] \<and> t_op ope = PUT \<and> t_key ope = ''7'' \<and> sealed toy_ssl (to_bytes ''1'') (t_value ope)"
proof -
  let ?cfg = "toy_config\<lparr>use_seed := True, seed_data := ''PUT 7 1''\<rparr>"
  let ?s = "toy_producers ?cfg"
  have "length (to_bytes ''1'') \<le> 1000" by (simp add: to_bytes_def)
  from make_op_ok [OF toy_ssl_ok toy_engine this, of 0 PUT "''7''" 0] obtain ct g where
    op: "make_op toy_ssl toy_mac 0 PUT ''7'' (Inr (to_bytes ''1'')) 0 =
      (Inr \<lparr>t_op = PUT, t_key = ''7'', t_value = ct\<rparr>, g)" by blast
  let ?ope = "\<lparr>t_op = PUT, t_key = ''7'', t_value = ct\<rparr>"
  let ?q = "\<lparr>queue = [?ope], conf = ?cfg\<lparr>seed_data := [], at_eof := True\<rparr>\<rparr>"
  have words: "get_line (''PUT 7 1'', False) = (''PUT 7 1'', [], True)"
    "next_word ''PUT 7 1'' = (''PUT'', '' 7 1'')" "next_word '' 7 1'' = (''7'', '' 1'')"
    "next_word '' 1'' = (''1'', [])"
    by (simp_all add: get_line_def next_word_def is_space_def)
  have push: "enqueue toy_ssl toy_mac 0 toy_draw (p_shared ?s) (p_gens ?s 0) = (Inr 0, ?q, g)"
    by (simp add: enqueue_def toy_producers_def producers_start_def toy_config_def moreOperationsExist_def getOperation_def
        getSeedOperation_def words op)
  let ?s1 = "?s\<lparr>p_shared := ?q, p_gens := (p_gens ?s)(0 := g)\<rparr>"
  have 1: "producer_step toy_ssl toy_mac 0 ?s ?s1"
    by (rule producer_step.push [OF _ _ _ push]) (simp_all add: toy_producers_def producers_start_def draw_ok_def toy_draw_def)
  have stop: "enqueue toy_ssl toy_mac 0 toy_draw (p_shared ?s1) (p_gens ?s1 0) = (Inr 1, ?q, g)"
    by (simp add: enqueue_def moreOperationsExist_def toy_config_def)
  let ?s2 = "?s1\<lparr>p_active := p_active ?s1 - {0}\<rparr>"
  have 2: "producer_step toy_ssl toy_mac 0 ?s1 ?s2"
    by (rule producer_step.stop [OF _ _ stop]) (simp_all add: toy_producers_def producers_start_def)
  have steps: "(producer_step toy_ssl toy_mac 0)\<^sup>*\<^sup>* ?s ?s2"
    by (rule two_steps [where r = "producer_step toy_ssl toy_mac 0", OF rtranclp.rtrancl_refl 1 2])
  have lines: "split_lines (seed_data (conf (p_shared ?s))) = [''PUT 7 1'']"
    by (simp add: toy_producers_def producers_start_def toy_config_def)
  have q: "queue (p_shared ?s2) = [?ope]" by simp
  from producers_queue_the_file [OF toy_ssl_ok toy_engine steps] have "line_op toy_ssl ?ope ''PUT 7 1''"
    unfolding lines q by (simp add: toy_producers_def producers_start_def toy_config_def lessThan_Suc)
  then have "sealed toy_ssl (to_bytes ''1'') ct" by (simp add: line_op_def line_value_def words)
  with steps q show ?thesis by fastforce
qed

text \<open>
  A runner that has the queue to itself sends every queued operation exactly once, in order, and
  leaves the queue empty.
\<close>

lemma runner_sends_queue:
  assumes "\<forall>ope \<in> set (queue q). t_op ope \<noteq> EOD"
  shows "client_runner (host_access E M R junk) (q, h) =
    (fst (host_run E M R junk (queue q) h), q\<lparr>queue := []\<rparr>, snd (host_run E M R junk (queue q) h))"
  using client_runner_host [of "queue q" E M R junk q h] assms by simp

section \<open>Keyed hashes\<close>

text \<open>
  What \<open>sign_it\<close> signs \<open>verify_it\<close> accepts, but it accepts every other non-empty string that
  agrees with the signature on the shorter of the two lengths: a one-byte prefix is enough.
\<close>

lemma verify_accepts_prefixes:
  assumes "mac_ok M mac" and "msg \<noteq> []" and "s \<noteq> []"
  shows "sign_it M (Some msg) sig slen (Some k) = Inr (0, Some (mac k msg), length (mac k msg)) \<and>
    (verify_it M (Some msg) (Some s) (Some k) = Inr 0 \<longleftrightarrow> take (length (mac k msg)) s = take (length s) (mac k msg))"
proof -
  obtain b bs where "msg = b # bs" using assms(2) by (cases msg) simp_all
  then have "sign_it M (Some msg) sig slen (Some k) = Inr (0, Some (mac k msg), length (mac k msg))"
    using mac_body_ok [OF assms(1)] by (simp add: sign_it_def)
  then show ?thesis
    using verify_it_ok [OF assms] agree_on_shorter [of s "mac k msg"] by (auto simp: Let_def)
qed

lemma verify_accepts_prefixes_example:
  "verify_it toy_mac (Some [9, 9]) (Some (take 1 (toy_hash [1, 2, 3, 4] [9, 9]))) (Some [1, 2, 3, 4]) = Inr 0"
  using verify_accepts_prefixes [OF toy_mac_ok, of "[9, 9]" "take 1 (toy_hash [1, 2, 3, 4] [9, 9])" None 0 "[1, 2, 3, 4]"]
  by (simp add: toy_hash_def)

text \<open>
  \<open>hmac\<close> returns the keyed hash of a non-empty string; for the empty one it aborts, or, built
  without assertions, makes a string of 256 bytes from a null pointer.
\<close>

lemma hmac_result:
  assumes "mac_ok M mac"
  shows "hmac M (Some k) msg = (if msg \<noteq> [] then Inr (mac k msg)
    else Inl (if mac_asserts M then ProcessExit else Undefined))"
proof (cases msg)
  case Nil
  then show ?thesis by (simp add: hmac_def hmac_it_def)
next
  case (Cons b bs)
  then show ?thesis
    using mac_body_ok [OF assms, of True msg k] by (simp add: hmac_def hmac_it_def read_at_def)
qed

end
