(* ===== verification/TeeRun.thy ===== *)
theory TeeRun
  imports TeeThreads "HOL-Library.Multiset"
begin

text \<open>
  \<open>ClientHandler::runThreaded\<close> (\<open>ortoa-tee/src/client/client.cpp\<close>) with the host behind it: the warm-up
  threads and the runner threads take operations from the shared queue, send them, and wait for the
  answers, while the host's threads serve them in any order.  The producers have ended before.
\<close>

section \<open>State and steps\<close>

text \<open>
  Client \<open>i\<close> is a \<open>WarmUpRunner\<close> for \<open>i < n\<close> and a \<open>ClientRunner\<close> for \<open>n \<le> i\<close>; thread \<open>i\<close> of the host
  serves its connection.  A runner records the latency of each of its operations, a warm-up thread does not.  A warm-up thread decrements the shared counter in one step and takes an
  operation in another.
\<close>

datatype runner = Idle | Decremented | Sent tee_op | Ended

record ('d, 'g) trun =
  r_counter :: "32 word"
  r_shared :: shared
  r_clients :: "runner list"
  r_host :: "('d, 'g) hsys"
  r_answers :: "(tee_op \<times> bytes) list"
  r_latencies :: nat

definition become :: "nat \<Rightarrow> runner \<Rightarrow> ('d, 'g) trun \<Rightarrow> ('d, 'g) trun" where
  "become i pc s = s\<lparr>r_clients := (r_clients s)[i := pc]\<rparr>"

definition send :: "nat \<Rightarrow> tee_op \<Rightarrow> ('d, 'g) hsys \<Rightarrow> ('d, 'g) hsys" where
  "send i ope h = h\<lparr>hs_threads := (hs_threads h)(i := Ready ope)\<rparr>"

text \<open>A client that is about to take an operation.\<close>

definition takes :: "nat \<Rightarrow> nat \<Rightarrow> ('d, 'g) trun \<Rightarrow> bool" where
  "takes n i s \<longleftrightarrow> i < length (r_clients s) \<and> r_clients s ! i = (if i < n then Decremented else Idle)"

inductive run_step :: "('c, 'g) ssl \<Rightarrow> ('x, 'm, 'k) mac_lib \<Rightarrow> 'd redis \<Rightarrow> byte \<Rightarrow> nat \<Rightarrow>
    ('d, 'g) trun \<Rightarrow> ('d, 'g) trun \<Rightarrow> bool" for E M R junk n where
  decrement: "i < n \<Longrightarrow> i < length (r_clients s) \<Longrightarrow> r_clients s ! i = Idle \<Longrightarrow> r_counter s \<noteq> 0 \<Longrightarrow>
    run_step E M R junk n s (become i Decremented (s\<lparr>r_counter := r_counter s - 1\<rparr>))"
| warm_over: "i < n \<Longrightarrow> i < length (r_clients s) \<Longrightarrow> r_clients s ! i = Idle \<Longrightarrow> r_counter s = 0 \<Longrightarrow>
    run_step E M R junk n s (become i Ended (s\<lparr>r_counter := r_counter s - 1\<rparr>))"
| take_op: "takes n i s \<Longrightarrow> dequeue (r_shared s) = (ope, q) \<Longrightarrow> t_op ope \<noteq> EOD \<Longrightarrow>
    run_step E M R junk n s (become i (Sent ope) (s\<lparr>r_shared := q, r_host := send i ope (r_host s)\<rparr>))"
| end_of_data: "takes n i s \<Longrightarrow> dequeue (r_shared s) = (ope, q) \<Longrightarrow> t_op ope = EOD \<Longrightarrow>
    run_step E M R junk n s (become i Ended (s\<lparr>r_shared := q\<rparr>))"
| serve: "host_step E M R junk (r_host s) h \<Longrightarrow> run_step E M R junk n s (s\<lparr>r_host := h\<rparr>)"
| answer: "i < length (r_clients s) \<Longrightarrow> r_clients s ! i = Sent ope \<Longrightarrow>
    hs_threads (r_host s) i = Finished ope' out \<Longrightarrow>
    run_step E M R junk n s (become i Idle (s\<lparr>r_answers := r_answers s @ [(ope, out)],
      r_latencies := if i < n then r_latencies s else r_latencies s + 1\<rparr>))"

definition run_start :: "nat \<Rightarrow> nat \<Rightarrow> shared \<Rightarrow> ('d, 'g) hsys \<Rightarrow> ('d, 'g) trun" where
  "run_start n warmups q h = \<lparr>r_counter = of_nat warmups, r_shared = q, r_clients = replicate (2 * n) Idle,
     r_host = h, r_answers = [], r_latencies = 0\<rparr>"

lemma become_simps [simp]:
  "r_counter (become i pc s) = r_counter s" "r_shared (become i pc s) = r_shared s"
  "r_clients (become i pc s) = (r_clients s)[i := pc]" "r_host (become i pc s) = r_host s"
  "r_answers (become i pc s) = r_answers s" "r_latencies (become i pc s) = r_latencies s"
  by (simp_all add: become_def)

lemma send_simps [simp]:
  "hs_threads (send i ope h) = (hs_threads h)(i := Ready ope)" "hs_store (send i ope h) = hs_store h"
  "hs_alive (send i ope h) = hs_alive h" "hs_gens (send i ope h) = hs_gens h"
  by (simp_all add: send_def)

lemma dequeue_cases:
  assumes "dequeue q = (ope, q')" and "\<forall>x \<in> set (queue q). t_op x \<noteq> EOD"
  shows "if t_op ope = EOD then queue q = [] \<and> q' = q else queue q = ope # queue q'"
  using assms by (auto simp: dequeue_def EOD_op_def split: list.splits)

section \<open>Every operation is sent once\<close>

fun op_of_thread :: "thread \<Rightarrow> tee_op" where
  "op_of_thread (Ready ope) = ope"
| "op_of_thread (Fetched ope rd) = ope"
| "op_of_thread (Computed ope out) = ope"
| "op_of_thread (Finished ope out) = ope"
| "op_of_thread (Broken ope) = ope"

fun to_go :: "thread \<Rightarrow> nat" where
  "to_go (Ready ope) = 3"
| "to_go (Fetched ope rd) = 2"
| "to_go (Computed ope out) = 1"
| "to_go (Finished ope out) = 0"
| "to_go (Broken ope) = 0"

lemma host_step_thread:
  assumes "host_step E M R junk h h'"
  obtains i t where "hs_threads h' = (hs_threads h)(i := t)" and "op_of_thread t = op_of_thread (hs_threads h i)"
    and "to_go t < to_go (hs_threads h i)"
  using assms by (cases rule: host_step.cases) (fastforce intro: that)+

fun in_flight :: "runner \<Rightarrow> tee_op multiset" where
  "in_flight (Sent ope) = {#ope#}"
| "in_flight _ = {#}"

text \<open>A thread of the host works only for the client whose connection it serves.\<close>

fun client_ok :: "nat \<Rightarrow> nat \<Rightarrow> runner \<Rightarrow> thread \<Rightarrow> bool" where
  "client_ok n i (Sent ope) t \<longleftrightarrow> op_of_thread t = ope"
| "client_ok n i Decremented t \<longleftrightarrow> i < n \<and> to_go t = 0"
| "client_ok n i Idle t \<longleftrightarrow> to_go t = 0"
| "client_ok n i Ended t \<longleftrightarrow> to_go t = 0"

text \<open>The operations are in the queue, on their way or answered.\<close>

definition all_ops :: "('d, 'g) trun \<Rightarrow> tee_op multiset" where
  "all_ops s = mset (queue (r_shared s)) + sum_list (map in_flight (r_clients s)) + mset (map fst (r_answers s))"

definition run_inv :: "nat \<Rightarrow> tee_op multiset \<Rightarrow> ('d, 'g) trun \<Rightarrow> bool" where
  "run_inv n A s \<longleftrightarrow> length (r_clients s) = 2 * n \<and> (\<forall>ope \<in># A. t_op ope \<noteq> EOD) \<and> all_ops s = A \<and>
    (\<forall>i < 2 * n. client_ok n i (r_clients s ! i) (hs_threads (r_host s) i)) \<and>
    (\<forall>i \<ge> 2 * n. to_go (hs_threads (r_host s) i) = 0)"

lemma run_invD:
  assumes "run_inv n A s"
  shows "length (r_clients s) = 2 * n"
    "\<And>i. i < 2 * n \<Longrightarrow> client_ok n i (r_clients s ! i) (hs_threads (r_host s) i)"
    "\<And>i. 2 * n \<le> i \<Longrightarrow> to_go (hs_threads (r_host s) i) = 0"
    "\<And>ope. ope \<in> set (queue (r_shared s)) \<Longrightarrow> t_op ope \<noteq> EOD"
    "all_ops s = A"
proof -
  show "t_op ope \<noteq> EOD" if "ope \<in> set (queue (r_shared s))" for ope
  proof -
    from that have "ope \<in># all_ops s" by (simp add: all_ops_def)
    with assms show ?thesis unfolding run_inv_def by blast
  qed
qed (use assms in \<open>simp_all add: run_inv_def\<close>)

lemma run_inv_cong:
  assumes "run_inv n A s" and "r_clients s' = r_clients s" and "all_ops s' = all_ops s"
    and "\<And>i. i < 2 * n \<Longrightarrow> client_ok n i (r_clients s ! i) (hs_threads (r_host s') i)"
    and "\<And>i. 2 * n \<le> i \<Longrightarrow> to_go (hs_threads (r_host s') i) = 0"
  shows "run_inv n A s'"
  using assms by (simp add: run_inv_def)

lemma all_ops_become:
  assumes "i < length (r_clients s)"
  shows "all_ops (become i pc s) + in_flight (r_clients s ! i) = all_ops s + in_flight pc"
  using sum_list_map_update [OF assms, of in_flight pc] by (simp add: all_ops_def ac_simps)

text \<open>A step of client \<open>i\<close>, with what it does to the rest of the state.\<close>

lemma run_inv_become:
  assumes inv: "run_inv n A s" and i: "i < length (r_clients s)" and same: "r_clients s' = r_clients s"
    and others: "\<And>k. k \<noteq> i \<Longrightarrow> hs_threads (r_host s') k = hs_threads (r_host s) k"
    and ok: "client_ok n i pc (hs_threads (r_host s') i)"
    and ops: "all_ops s' + in_flight pc = all_ops s + in_flight (r_clients s ! i)"
  shows "run_inv n A (become i pc s')"
proof -
  have "all_ops (become i pc s') + in_flight (r_clients s ! i) = all_ops s' + in_flight pc"
    using all_ops_become [of i s' pc] i same by simp
  with ops have "all_ops (become i pc s') = all_ops s" by simp
  moreover have "client_ok n k (r_clients (become i pc s') ! k) (hs_threads (r_host s') k)" if "k < 2 * n" for k
    using run_invD(2) [OF inv that] ok others [of k] i by (cases "k = i") (simp_all add: same)
  moreover have "to_go (hs_threads (r_host s') k) = 0" if "2 * n \<le> k" for k
    using run_invD(3) [OF inv that] run_invD(1) [OF inv] others [of k] that i by (cases "k = i") simp_all
  ultimately show ?thesis using inv same by (simp add: run_inv_def)
qed

text \<open>Only a client that waits for an answer has work at the host.\<close>

lemma working_client:
  assumes "run_inv n A s" and "0 < to_go (hs_threads (r_host s) i)"
  shows "i < 2 * n \<and> r_clients s ! i = Sent (op_of_thread (hs_threads (r_host s) i))"
proof -
  from assms run_invD(3) [OF assms(1), of i] have i: "i < 2 * n" by (cases "i < 2 * n") simp_all
  with run_invD(2) [OF assms(1) i] assms(2) show ?thesis by (cases "r_clients s ! i") simp_all
qed

lemma takes_pc: "takes n i s \<Longrightarrow> i < length (r_clients s) \<and> in_flight (r_clients s ! i) = {#} \<and>
    (client_ok n i (r_clients s ! i) t \<longrightarrow> to_go t = 0)"
  by (simp add: takes_def)

lemma run_step_inv:
  assumes "run_step E M R junk n s s'" and inv: "run_inv n A s"
  shows "run_inv n A s'"
  using assms(1)
proof cases
  case (decrement i)
  from run_invD(1,2) [OF inv] decrement(3,4) have "to_go (hs_threads (r_host s) i) = 0" by force
  with decrement show ?thesis
    by (auto intro!: run_inv_become [OF inv] simp: all_ops_def)
next
  case (warm_over i)
  from run_invD(1,2) [OF inv] warm_over(3,4) have "to_go (hs_threads (r_host s) i) = 0" by force
  with warm_over show ?thesis
    by (auto intro!: run_inv_become [OF inv] simp: all_ops_def)
next
  case (take_op i ope q)
  from dequeue_cases [OF take_op(3)] run_invD(4) [OF inv] take_op(4) have q: "queue (r_shared s) = ope # queue q"
    by simp
  from takes_pc [OF take_op(2)] have i: "i < length (r_clients s)" "in_flight (r_clients s ! i) = {#}" by blast+
  show ?thesis
    unfolding take_op(1) by (rule run_inv_become [OF inv i(1)]) (simp_all add: all_ops_def q i(2))
next
  case (end_of_data i ope q)
  from dequeue_cases [OF end_of_data(3)] run_invD(4) [OF inv] end_of_data(4) have q: "q = r_shared s" by simp
  from takes_pc [OF end_of_data(2)] have i: "i < length (r_clients s)" "in_flight (r_clients s ! i) = {#}" by blast+
  from run_invD(1,2) [OF inv] i(1) takes_pc [OF end_of_data(2)] have "to_go (hs_threads (r_host s) i) = 0" by metis
  then show ?thesis
    unfolding end_of_data(1) by (intro run_inv_become [OF inv i(1)]) (simp_all add: all_ops_def q i(2))
next
  case (serve h)
  from serve(2) obtain i t where h: "hs_threads h = (hs_threads (r_host s))(i := t)"
    "op_of_thread t = op_of_thread (hs_threads (r_host s) i)" "to_go t < to_go (hs_threads (r_host s) i)"
    by (rule host_step_thread)
  from working_client [OF inv, of i] h(3) have i: "i < 2 * n" "client_ok n i (r_clients s ! i) t"
    by (simp_all add: h(2))
  with run_invD(2,3) [OF inv] h(1) show ?thesis
    unfolding serve(1) by (intro run_inv_cong [OF inv]) (auto simp: all_ops_def)
next
  case (answer i ope ope' out)
  then show ?thesis
    unfolding answer(1) by (intro run_inv_become [OF inv]) (simp_all add: all_ops_def)
qed

lemma run_steps_inv: "(run_step E M R junk n)\<^sup>*\<^sup>* s s' \<Longrightarrow> run_inv n A s \<Longrightarrow> run_inv n A s'"
  by (induction rule: rtranclp_induct) (auto intro: run_step_inv)

lemma sum_list_no_ops: "sum_list (map in_flight (replicate m Idle)) = {#}"
  by (induction m) simp_all

text \<open>The start: the host's threads have nothing to do.\<close>

lemma run_start_inv:
  assumes "\<And>i. to_go (hs_threads h i) = 0" and "\<forall>ope \<in> set (queue q). t_op ope \<noteq> EOD"
  shows "run_inv n (mset (queue q)) (run_start n W q h)"
  using assms sum_list_no_ops [of "2 * n"] by (simp add: run_inv_def run_start_def all_ops_def)

text \<open>A runner ends only when the queue is empty, and nothing fills it again.\<close>

definition drained :: "nat \<Rightarrow> ('d, 'g) trun \<Rightarrow> bool" where
  "drained n s \<longleftrightarrow> (\<forall>i. n \<le> i \<and> i < length (r_clients s) \<and> r_clients s ! i = Ended \<longrightarrow> queue (r_shared s) = [])"

lemma run_step_drained:
  assumes "run_step E M R junk n s s'" and inv: "run_inv n A s" and "drained n s"
  shows "drained n s'"
  using assms(1)
proof cases
  case (take_op i ope q)
  from dequeue_cases [OF take_op(3)] run_invD(4) [OF inv] take_op(4) have "queue (r_shared s) = ope # queue q" by simp
  with assms(3) have "r_clients s ! k \<noteq> Ended" if "n \<le> k" "k < length (r_clients s)" for k
    using that unfolding drained_def by (metis list.distinct(1))
  with takes_pc [OF take_op(2)] show ?thesis
    unfolding take_op(1) drained_def by (auto simp: nth_list_update split: if_splits)
next
  case (end_of_data i ope q)
  from dequeue_cases [OF end_of_data(3)] run_invD(4) [OF inv] end_of_data(4) have "queue q = []" by auto
  with end_of_data(1) show ?thesis by (simp add: drained_def)
qed (use assms(3) in \<open>auto simp: drained_def nth_list_update split: if_splits\<close>)

lemma run_steps_drained:
  "(run_step E M R junk n)\<^sup>*\<^sup>* s s' \<Longrightarrow> run_inv n A s \<Longrightarrow> drained n s \<Longrightarrow> drained n s'"
proof (induction rule: rtranclp_induct)
  case (step y z)
  from run_steps_inv [OF step(1,4)] step show ?case by (blast intro: run_step_drained)
qed simp

lemma run_start_drained: "drained n (run_start n W q h)"
  by (auto simp: drained_def run_start_def)

text \<open>When every client has ended, every operation has been answered, and once only.\<close>

lemma all_ended:
  assumes "run_inv n A s" and "drained n s" and "0 < n" and "\<forall>i < 2 * n. r_clients s ! i = Ended"
  shows "queue (r_shared s) = [] \<and> mset (map fst (r_answers s)) = A"
proof -
  have "queue (r_shared s) = []"
    using assms(2-4) run_invD(1) [OF assms(1)] unfolding drained_def by (auto dest!: spec [of _ n])
  moreover have "r_clients s = replicate (2 * n) Ended"
    using assms(4) run_invD(1) [OF assms(1)] by (intro nth_equalityI) simp_all
  moreover have "sum_list (map in_flight (replicate m Ended)) = {#}" for m by (induction m) simp_all
  ultimately show ?thesis using run_invD(5) [OF assms(1)] by (simp add: all_ops_def)
qed

section \<open>The run ends\<close>

text \<open>Every operation costs at most six steps and every client two more.\<close>

fun runner_to_go :: "runner \<Rightarrow> nat" where
  "runner_to_go (Sent ope) = 3"
| "runner_to_go Idle = 2"
| "runner_to_go Decremented = 1"
| "runner_to_go Ended = 0"

definition run_measure :: "nat \<Rightarrow> ('d, 'g) trun \<Rightarrow> nat" where
  "run_measure n s = 6 * length (queue (r_shared s)) + sum_list (map runner_to_go (r_clients s)) +
    (\<Sum>i < 2 * n. to_go (hs_threads (r_host s) i))"

lemma runner_to_go_update:
  "i < length cs \<Longrightarrow> sum_list (map runner_to_go (cs[i := pc])) + runner_to_go (cs ! i) =
    sum_list (map runner_to_go cs) + runner_to_go pc"
  by (rule sum_list_map_update)

lemma to_go_update:
  fixes m :: nat
  assumes "i < m"
  shows "(\<Sum>k < m. to_go ((h(i := t)) k)) + to_go (h i) = (\<Sum>k < m. to_go (h k)) + to_go t"
  using sum_change_one [OF assms, of "\<lambda>k. to_go ((h(i := t)) k)" "\<lambda>k. to_go (h k)"] by simp

lemma run_step_measure:
  assumes "run_step E M R junk n s s'" and inv: "run_inv n A s"
  shows "run_measure n s' < run_measure n s"
  using assms(1)
proof cases
  case (decrement i)
  with runner_to_go_update [of i "r_clients s" Decremented] show ?thesis by (simp add: run_measure_def)
next
  case (warm_over i)
  with runner_to_go_update [of i "r_clients s" Ended] show ?thesis by (simp add: run_measure_def)
next
  case (take_op i ope q)
  from dequeue_cases [OF take_op(3)] run_invD(4) [OF inv] take_op(4) have q: "queue (r_shared s) = ope # queue q"
    by simp
  have i: "i < length (r_clients s)" "0 < runner_to_go (r_clients s ! i)" using take_op(2) by (simp_all add: takes_def)
  with to_go_update [of i "2 * n" "hs_threads (r_host s)" "Ready ope"] runner_to_go_update [OF i(1), of "Sent ope"]
    run_invD(1) [OF inv] takes_pc [OF take_op(2)] run_invD(2) [OF inv, of i]
  show ?thesis by (simp add: run_measure_def take_op(1) q)
next
  case (end_of_data i ope q)
  from dequeue_cases [OF end_of_data(3)] run_invD(4) [OF inv] end_of_data(4) have q: "q = r_shared s" by simp
  have i: "i < length (r_clients s)" "0 < runner_to_go (r_clients s ! i)" using end_of_data(2) by (simp_all add: takes_def)
  with runner_to_go_update [OF i(1), of Ended] show ?thesis by (simp add: run_measure_def end_of_data(1) q)
next
  case (serve h)
  from serve(2) obtain i t where h: "hs_threads h = (hs_threads (r_host s))(i := t)"
    "to_go t < to_go (hs_threads (r_host s) i)"
    by (rule host_step_thread)
  from working_client [OF inv, of i] h(2) have "i < 2 * n" by simp
  from to_go_update [OF this, of "hs_threads (r_host s)" t] h(2) show ?thesis
    by (simp add: run_measure_def serve(1) h(1))
next
  case (answer i ope ope' out)
  with runner_to_go_update [of i "r_clients s" Idle] show ?thesis by (simp add: run_measure_def)
qed

interpretation trun: ranked_steps "run_step E M R junk n" "run_inv n A" "run_measure n"
  by unfold_locales (rule run_step_inv run_step_measure; assumption)+

lemma run_start_measure:
  assumes "\<And>i. to_go (hs_threads h i) = 0"
  shows "run_measure n (run_start n W q h) = 6 * length (queue q) + 4 * n"
proof -
  have "sum_list (map runner_to_go (replicate m Idle)) = 2 * m" for m by (induction m) simp_all
  from this [of "2 * n"] assms show ?thesis by (simp add: run_measure_def run_start_def)
qed

section \<open>The warm-up threads\<close>

text \<open>
  For the warm-up threads the run is \<open>warm_step\<close>: a client that waits for its answer is in the loop
  still, and the runners only take operations.
\<close>

fun warm_of :: "runner \<Rightarrow> warm_pc" where
  "warm_of Idle = AtLoop"
| "warm_of (Sent ope) = AtLoop"
| "warm_of Decremented = Claimed"
| "warm_of Ended = Exited"

definition follows :: "nat \<Rightarrow> ('d, 'g) trun \<Rightarrow> warm \<Rightarrow> bool" where
  "follows n s w \<longleftrightarrow> w_counter w = r_counter s \<and> w_queue w = queue (r_shared s) \<and>
    w_pc w = (\<lambda>i. if i < n then warm_of (r_clients s ! i) else Exited)"

lemma follows_become:
  assumes "follows n s w" and "i < length (r_clients s)" and "r_clients s' = r_clients s"
    and "w_counter w' = r_counter s'" and "w_queue w' = queue (r_shared s')"
    and "w_pc w' = (if i < n then (w_pc w)(i := warm_of pc) else w_pc w)"
  shows "follows n (become i pc s') w'"
  using assms by (auto simp: follows_def fun_eq_iff)

lemma run_step_warm:
  assumes "run_step E M R junk n s s'" and inv: "run_inv n A s" and w: "follows n s w"
  shows "\<exists>w'. warm_step\<^sup>*\<^sup>* w w' \<and> follows n s' w'"
  using assms(1)
proof cases
  case (decrement i)
  with w have "warm_step w (w\<lparr>w_counter := w_counter w - 1, w_pc := (w_pc w)(i := Claimed)\<rparr>)"
    by (intro warm_step.claim) (simp_all add: follows_def)
  moreover have "follows n s' (w\<lparr>w_counter := w_counter w - 1, w_pc := (w_pc w)(i := Claimed)\<rparr>)"
    unfolding decrement(1) by (rule follows_become [OF w decrement(3)]) (use w decrement in \<open>simp_all add: follows_def\<close>)
  ultimately show ?thesis by blast
next
  case (warm_over i)
  with w have "warm_step w (w\<lparr>w_counter := w_counter w - 1, w_pc := (w_pc w)(i := Exited)\<rparr>)"
    by (intro warm_step.finish_loop) (simp_all add: follows_def)
  moreover have "follows n s' (w\<lparr>w_counter := w_counter w - 1, w_pc := (w_pc w)(i := Exited)\<rparr>)"
    unfolding warm_over(1) by (rule follows_become [OF w warm_over(3)]) (use w warm_over in \<open>simp_all add: follows_def\<close>)
  ultimately show ?thesis by blast
next
  case (take_op i ope q)
  from dequeue_cases [OF take_op(3)] run_invD(4) [OF inv] take_op(4) have q: "queue (r_shared s) = ope # queue q" by simp
  let ?w = "if i < n then w\<lparr>w_queue := queue q, w_pc := (w_pc w)(i := AtLoop)\<rparr>
    else w\<lparr>w_queue := queue q, w_measured := w_measured w @ [ope]\<rparr>"
  have "warm_step w ?w"
    using w q take_op(2) warm_step.take_op [of w i ope "queue q"] warm_step.measured [of w ope "queue q"]
    by (simp add: follows_def takes_def)
  moreover have "follows n s' ?w"
    unfolding take_op(1) using takes_pc [OF take_op(2)] w by (intro follows_become [OF w]) (simp_all add: follows_def)
  ultimately show ?thesis by blast
next
  case (end_of_data i ope q)
  from dequeue_cases [OF end_of_data(3)] run_invD(4) [OF inv] end_of_data(4) have q: "queue (r_shared s) = []" "q = r_shared s"
    by auto
  let ?w = "if i < n then w\<lparr>w_pc := (w_pc w)(i := Exited)\<rparr> else w"
  have "warm_step\<^sup>*\<^sup>* w ?w"
    using w q end_of_data(2) warm_step.no_op [of w i] by (auto simp: follows_def takes_def)
  moreover have "follows n s' ?w"
    unfolding end_of_data(1) q(2) using takes_pc [OF end_of_data(2)] w
    by (intro follows_become [OF w]) (simp_all add: follows_def)
  ultimately show ?thesis by blast
next
  case (serve h)
  with w have "follows n s' w" by (auto simp: follows_def fun_eq_iff)
  then show ?thesis by blast
next
  case (answer i ope ope' out)
  have "follows n s' w"
    unfolding answer(1) using w answer(2,3) by (intro follows_become [OF w]) (auto simp: follows_def fun_eq_iff)
  then show ?thesis by blast
qed

lemma run_steps_warm:
  "(run_step E M R junk n)\<^sup>*\<^sup>* s s' \<Longrightarrow> run_inv n A s \<Longrightarrow> follows n s w \<Longrightarrow>
    \<exists>w'. warm_step\<^sup>*\<^sup>* w w' \<and> follows n s' w'"
proof (induction rule: rtranclp_induct)
  case (step y z)
  then obtain w' where w': "warm_step\<^sup>*\<^sup>* w w'" "follows n y w'" by blast
  from run_step_warm [OF step(2) run_steps_inv [OF step(1,4)] w'(2)] w'(1) show ?case
    by (meson rtranclp_trans)
qed blast

lemma run_start_warm: "follows n (run_start n W q h) (warm_start n W (queue q))"
  by (auto simp: follows_def run_start_def warm_start_def fun_eq_iff)

section \<open>The generated benchmark\<close>

text \<open>An encryption of a number the benchmark writes, and a thread that works on such values.\<close>

definition fits :: "('c, 'g) ssl \<Rightarrow> bytes \<Rightarrow> bool" where
  "fits E ct \<longleftrightarrow> (\<exists>r. 0 \<le> r \<and> r < 10000 \<and> sealed E (number r) ct)"

fun thread_fits :: "('c, 'g) ssl \<Rightarrow> int \<Rightarrow> thread \<Rightarrow> bool" where
  "thread_fits E mk (Ready ope) \<longleftrightarrow> bench_op E mk ope"
| "thread_fits E mk (Fetched ope rd) \<longleftrightarrow> bench_op E mk ope \<and> fits E rd"
| "thread_fits E mk (Computed ope out) \<longleftrightarrow> bench_op E mk ope \<and> fits E out"
| "thread_fits E mk (Finished ope out) \<longleftrightarrow> fits E out"
| "thread_fits E mk (Broken ope) \<longleftrightarrow> False"

definition bench_run_ok :: "('c, 'g) ssl \<Rightarrow> 'd redis \<Rightarrow> int \<Rightarrow> ('d, 'g) trun \<Rightarrow> bool" where
  "bench_run_ok E R mk s \<longleftrightarrow> hs_alive (r_host s) \<and>
    (\<forall>i. 0 \<le> i \<and> i < mk \<longrightarrow> fits E (redisCli_get R (hs_store (r_host s)) (int_to_string i))) \<and>
    (\<forall>ope \<in> set (queue (r_shared s)). bench_op E mk ope) \<and> (\<forall>(ope, out) \<in> set (r_answers s). fits E out) \<and>
    (\<forall>i < length (r_clients s). in_flight (r_clients s ! i) \<noteq> {#} \<longrightarrow> thread_fits E mk (hs_threads (r_host s) i))"

lemma call_fits:
  assumes "ssl_ok E" and "engine_keys M = Inr ks" and "bench_op E mk ope" and "fits E rd"
  shows "\<exists>ct g'. enclave_call E M junk ope rd (True, g) = (Inr (Some ct), True, g') \<and> fits E ct"
proof -
  from assms(3,4) have "fits E (source_of ope rd)" by (auto simp: bench_op_def fits_def source_of_def)
  then obtain r where r: "0 \<le> r" "r < 10000" "sealed E (number r) (source_of ope rd)"
    by (auto simp: fits_def)
  from assms(4) obtain u where "0 \<le> u" "u < 10000" "sealed E (number u) rd" by (auto simp: fits_def)
  with length_sealed [OF assms(1) this(3)] number_16 [of u] have "length rd = 16" by simp
  with enclave_call_ok [OF assms(1,2) _ r(3), of junk g] number_16 [OF r(1,2)] r(1,2) show ?thesis
    by (auto simp: fits_def)
qed

lemma store_fits:
  assumes "redis_ok R" and "\<forall>i. 0 \<le> i \<and> i < mk \<longrightarrow> fits E (redisCli_get R d (int_to_string i))" and "fits E out"
  shows "\<forall>i. 0 \<le> i \<and> i < mk \<longrightarrow> fits E (redisCli_get R (redisCli_put R d k out) (int_to_string i))"
  using assms(2,3) by (simp add: redis_store.get_put [OF assms(1)])

text \<open>A step of the host, from a thread that works for a client.\<close>

lemma host_step_fits:
  assumes E: "ssl_ok E" and M: "engine_keys M = Inr ks" and R: "redis_ok R"
    and step: "host_step E M R junk h h'" and alive: "hs_alive h"
    and filled: "\<forall>i. 0 \<le> i \<and> i < mk \<longrightarrow> fits E (redisCli_get R (hs_store h) (int_to_string i))"
    and threads: "\<And>i. 0 < to_go (hs_threads h i) \<Longrightarrow> thread_fits E mk (hs_threads h i)"
  shows "hs_alive h' \<and> (\<forall>i. 0 \<le> i \<and> i < mk \<longrightarrow> fits E (redisCli_get R (hs_store h') (int_to_string i))) \<and>
    (\<exists>i t. hs_threads h' = (hs_threads h)(i := t) \<and> thread_fits E mk t \<and> 0 < to_go (hs_threads h i))"
  using step
proof cases
  case (fetch i ope)
  with threads [of i] have "bench_op E mk ope" by simp
  moreover from this filled have "fits E (redisCli_get R (hs_store h) (t_key ope))" by (auto simp: bench_op_def)
  ultimately show ?thesis using fetch alive filled by (fastforce intro!: exI [of _ i])
next
  case (call i ope rd out a g)
  with threads [of i] have "bench_op E mk ope" "fits E rd" by simp_all
  from call_fits [OF E M this, of junk "hs_gens h i"] call alive have "fits E out" "a" by auto
  with \<open>bench_op E mk ope\<close> show ?thesis using call filled by (fastforce intro!: exI [of _ i])
next
  case (call_fails i ope rd a g)
  with threads [of i] have "bench_op E mk ope" "fits E rd" by simp_all
  from call_fits [OF E M this, of junk "hs_gens h i"] call_fails alive show ?thesis by auto
next
  case (overrun i ope rd er a g)
  with threads [of i] have "bench_op E mk ope" "fits E rd" by simp_all
  from call_fits [OF E M this, of junk "hs_gens h i"] overrun alive show ?thesis by auto
next
  case (store i ope out)
  with threads [of i] have "fits E out" by simp
  with store_fits [OF R filled this, of "t_key ope"] store alive show ?thesis by (fastforce intro!: exI [of _ i])
qed

lemma bench_runD:
  assumes "bench_run_ok E R mk s" and "run_inv n A s" and "0 < to_go (hs_threads (r_host s) i)"
  shows "thread_fits E mk (hs_threads (r_host s) i)"
  using working_client [OF assms(2,3)] run_invD(1) [OF assms(2)] assms(1) unfolding bench_run_ok_def by force

lemma bench_run_become:
  assumes "bench_run_ok E R mk s" and "i < length (r_clients s)" and "r_clients s' = r_clients s"
    and "hs_alive (r_host s') = hs_alive (r_host s)" and "hs_store (r_host s') = hs_store (r_host s)"
    and "\<And>k. k \<noteq> i \<Longrightarrow> hs_threads (r_host s') k = hs_threads (r_host s) k"
    and "set (queue (r_shared s')) \<subseteq> set (queue (r_shared s))" and "\<forall>(ope, out) \<in> set (r_answers s'). fits E out"
    and "in_flight pc \<noteq> {#} \<Longrightarrow> thread_fits E mk (hs_threads (r_host s') i)"
  shows "bench_run_ok E R mk (become i pc s')"
  using assms unfolding bench_run_ok_def by (auto simp: nth_list_update)

lemma bench_run_step:
  assumes E: "ssl_ok E" and M: "engine_keys M = Inr ks" and R: "redis_ok R"
    and step: "run_step E M R junk n s s'" and inv: "run_inv n A s" and ok: "bench_run_ok E R mk s"
  shows "bench_run_ok E R mk s'"
  using step
proof cases
  case (decrement i)
  with ok show ?thesis
    unfolding decrement(1) by (intro bench_run_become [OF ok]) (auto simp: bench_run_ok_def)
next
  case (warm_over i)
  with ok show ?thesis
    unfolding warm_over(1) by (intro bench_run_become [OF ok]) (auto simp: bench_run_ok_def)
next
  case (take_op i ope q)
  from dequeue_cases [OF take_op(3)] run_invD(4) [OF inv] take_op(4) have q: "queue (r_shared s) = ope # queue q" by simp
  with ok have "bench_op E mk ope" "\<forall>(ope, out) \<in> set (r_answers s). fits E out" by (simp_all add: bench_run_ok_def)
  with takes_pc [OF take_op(2)] q show ?thesis
    unfolding take_op(1) by (intro bench_run_become [OF ok]) auto
next
  case (end_of_data i ope q)
  from dequeue_cases [OF end_of_data(3)] run_invD(4) [OF inv] end_of_data(4) have "q = r_shared s" by simp
  with takes_pc [OF end_of_data(2)] ok show ?thesis
    unfolding end_of_data(1) by (intro bench_run_become [OF ok]) (auto simp: bench_run_ok_def)
next
  case (serve h)
  have "hs_alive (r_host s)" "\<forall>i. 0 \<le> i \<and> i < mk \<longrightarrow> fits E (redisCli_get R (hs_store (r_host s)) (int_to_string i))"
    using ok by (simp_all add: bench_run_ok_def)
  from host_step_fits [OF E M R serve(2) this bench_runD [OF ok inv]] ok show ?thesis
    unfolding serve(1) bench_run_ok_def by (auto split: if_splits)
next
  case (answer i ope ope' out)
  with ok have "thread_fits E mk (hs_threads (r_host s) i)"
    unfolding bench_run_ok_def using in_flight.simps(1) by (metis add_mset_not_empty)
  then have "fits E out" using answer(4) by simp
  with answer ok show ?thesis
    unfolding answer(1) by (intro bench_run_become [OF ok]) (auto simp: bench_run_ok_def)
qed

text \<open>
  As long as a client has not ended something can go on, and it is this client or the thread of the host
  that serves it.
\<close>

definition step_for :: "nat \<Rightarrow> ('d, 'g) trun \<Rightarrow> ('d, 'g) trun \<Rightarrow> bool" where
  "step_for i s s' \<longleftrightarrow> (\<forall>k. k \<noteq> i \<longrightarrow> r_clients s' ! k = r_clients s ! k \<and>
     hs_threads (r_host s') k = hs_threads (r_host s) k)"

lemma client_progress:
  assumes E: "ssl_ok E" and M: "engine_keys M = Inr ks"
    and inv: "run_inv n A s" and ok: "bench_run_ok E R mk s" and i: "i < 2 * n" "r_clients s ! i \<noteq> Ended"
  shows "\<exists>s'. run_step E M R junk n s s' \<and> step_for i s s'"
proof -
  have len: "i < length (r_clients s)" using i run_invD(1) [OF inv] by simp
  have own: ?thesis if "run_step E M R junk n s (become i pc t)" "r_clients t = r_clients s"
    "\<And>k. k \<noteq> i \<Longrightarrow> hs_threads (r_host t) k = hs_threads (r_host s) k" for pc t
    using that by (auto simp: step_for_def)
  have dequeued: ?thesis if takes: "takes n i s"
  proof -
    obtain ope q where deq: "dequeue (r_shared s) = (ope, q)" by fastforce
    show ?thesis
    proof (cases "t_op ope = EOD")
      case True
      from own [OF run_step.end_of_data [OF takes deq True]] show ?thesis by simp
    next
      case False
      from own [OF run_step.take_op [OF takes deq False]] show ?thesis by simp
    qed
  qed
  have host: ?thesis if "host_step E M R junk (r_host s) h" "\<And>k. k \<noteq> i \<Longrightarrow> hs_threads h k = hs_threads (r_host s) k" for h
    using run_step.serve [OF that(1), of n] that(2) by (intro exI [of _ "s\<lparr>r_host := h\<rparr>"]) (simp add: step_for_def)
  show ?thesis
  proof (cases "r_clients s ! i")
    case Idle
    show ?thesis
    proof (cases "i < n")
      case True
      then show ?thesis
        using own [OF run_step.decrement [OF True len Idle]] own [OF run_step.warm_over [OF True len Idle]]
        by (cases "r_counter s = 0") simp_all
    qed (use dequeued len Idle in \<open>simp add: takes_def\<close>)
  next
    case Decremented
    with run_invD(2) [OF inv i(1)] dequeued len show ?thesis by (simp add: takes_def)
  next
    case (Sent ope)
    with ok len have t: "thread_fits E mk (hs_threads (r_host s) i)"
      unfolding bench_run_ok_def using in_flight.simps(1) by (metis add_mset_not_empty)
    show ?thesis
    proof (cases "hs_threads (r_host s) i")
      case (Ready x1)
      from host [OF host_step.fetch [OF Ready]] show ?thesis by simp
    next
      case (Fetched x rd)
      with t call_fits [OF E M, of mk x rd junk "hs_gens (r_host s) i"] obtain ct g' where
        "enclave_call E M junk x rd (True, hs_gens (r_host s) i) = (Inr (Some ct), True, g')" by auto
      moreover have "hs_alive (r_host s)" using ok by (simp add: bench_run_ok_def)
      ultimately have "enclave_call E M junk x rd (hs_alive (r_host s), hs_gens (r_host s) i) = (Inr (Some ct), True, g')" by simp
      from host [OF host_step.call [OF Fetched this]] show ?thesis by simp
    next
      case (Computed x out)
      from host [OF host_step.store [OF Computed]] show ?thesis by simp
    next
      case (Finished x out)
      from own [OF run_step.answer [OF len Sent Finished]] show ?thesis by simp
    next
      case (Broken x)
      with t show ?thesis by simp
    qed
  qed (use i in simp)
qed

lemma bench_run_progress:
  assumes "ssl_ok E" and "engine_keys M = Inr ks" and "run_inv n A s" and "bench_run_ok E R mk s"
    and "i < 2 * n" "r_clients s ! i \<noteq> Ended"
  shows "\<exists>s'. run_step E M R junk n s s'"
  using client_progress [OF assms] by blast

lemma bench_run_steps:
  assumes E: "ssl_ok E" and M: "engine_keys M = Inr ks" and R: "redis_ok R"
  shows "(run_step E M R junk n)\<^sup>*\<^sup>* s s' \<Longrightarrow> run_inv n A s \<Longrightarrow> bench_run_ok E R mk s \<Longrightarrow> bench_run_ok E R mk s'"
proof (induction rule: rtranclp_induct)
  case (step y z)
  from bench_run_step [OF E M R step(2) run_steps_inv [OF step(1,4)]] step show ?case by blast
qed simp

text \<open>No call of a host thread is ever undefined.\<close>

definition none_broken :: "('d, 'g) trun \<Rightarrow> bool" where
  "none_broken s \<longleftrightarrow> (\<forall>i ope. hs_threads (r_host s) i \<noteq> Broken ope)"

lemma run_step_none_broken:
  assumes "ssl_ok E" and "engine_keys M = Inr ks" and "redis_ok R"
    and step: "run_step E M R junk n s s'" and inv: "run_inv n A s" and ok: "bench_run_ok E R mk s" and "none_broken s"
  shows "none_broken s'"
  using step
proof cases
  case (serve h)
  have "hs_alive (r_host s)" "\<forall>i. 0 \<le> i \<and> i < mk \<longrightarrow> fits E (redisCli_get R (hs_store (r_host s)) (int_to_string i))"
    using ok by (simp_all add: bench_run_ok_def)
  from host_step_fits [OF assms(1-3) serve(2) this bench_runD [OF ok inv]] obtain i t where
    "hs_threads h = (hs_threads (r_host s))(i := t)" "thread_fits E mk t" by blast
  with assms(7) show ?thesis unfolding serve(1) none_broken_def by auto
qed (use assms(7) in \<open>auto simp: none_broken_def\<close>)

lemma run_steps_none_broken:
  assumes "ssl_ok E" and "engine_keys M = Inr ks" and "redis_ok R"
  shows "(run_step E M R junk n)\<^sup>*\<^sup>* s s' \<Longrightarrow> run_inv n A s \<Longrightarrow> bench_run_ok E R mk s \<Longrightarrow> none_broken s \<Longrightarrow> none_broken s'"
proof (induction rule: rtranclp_induct)
  case (step y z)
  from run_step_none_broken [OF assms step(2) run_steps_inv [OF step(1,4)] bench_run_steps [OF assms step(1,4,5)]] step
  show ?case by blast
qed simp

lemma bench_run_start:
  assumes "hs_alive h" and "\<forall>i. 0 \<le> i \<and> i < mk \<longrightarrow> fits E (redisCli_get R (hs_store h) (int_to_string i))"
    and "\<forall>ope \<in> set (queue q). bench_op E mk ope"
  shows "bench_run_ok E R mk (run_start n W q h)"
  using assms by (simp add: bench_run_ok_def run_start_def)

end
