(* ===== verification/TeeRunProperties.thy ===== *)
theory TeeRunProperties
  imports TeeRun TeeProperties
begin

text \<open>
  The properties of a whole run of the TEE client against the host: every queued operation is
  answered once, the run ends, and what the warm-up does to the queue.
\<close>

section \<open>Examples\<close>

text \<open>A host that has nothing to do and a queue.\<close>

definition toy_idle :: "(string \<rightharpoonup> bytes) \<Rightarrow> ((string \<rightharpoonup> bytes), nat) hsys" where
  "toy_idle d = \<lparr>hs_store = d, hs_alive = True, hs_threads = (\<lambda>i. Finished tget []), hs_gens = (\<lambda>i. i)\<rparr>"

lemma toy_idle_simps [simp]:
  "to_go (hs_threads (toy_idle d) i) = 0" "hs_alive (toy_idle d)" "hs_store (toy_idle d) = d"
  by (simp_all add: toy_idle_def)

definition toy_queue :: "tee_op list \<Rightarrow> shared" where
  "toy_queue ops = \<lparr>queue = ops, conf = toy_config\<rparr>"

lemma toy_queue_simps [simp]: "queue (toy_queue ops) = ops"
  by (simp add: toy_queue_def)

lemma ended_toy_run:
  assumes "\<forall>ope \<in> set ops. bench_op toy_ssl mk ope \<and> t_op ope \<noteq> EOD"
    and "\<forall>i. 0 \<le> i \<and> i < mk \<longrightarrow> fits toy_ssl (redisCli_get toy_redis d (int_to_string i))"
  obtains k s where "(run_step toy_ssl toy_mac toy_redis 0 n ^^ k) (run_start n W (toy_queue ops) (toy_idle d)) s"
    and "\<forall>s'. \<not> run_step toy_ssl toy_mac toy_redis 0 n s s'" and "\<forall>i < 2 * n. r_clients s ! i = Ended"
proof -
  let ?s = "run_start n W (toy_queue ops) (toy_idle d)"
  have inv: "run_inv n (mset ops) ?s"
    using run_start_inv [of "toy_idle d" "toy_queue ops" n W] assms(1) by simp
  obtain k s where s: "(run_step toy_ssl toy_mac toy_redis 0 n ^^ k) ?s s" "\<forall>s'. \<not> run_step toy_ssl toy_mac toy_redis 0 n s s'"
    using trun.run_to_end [OF inv] by blast
  then have steps: "(run_step toy_ssl toy_mac toy_redis 0 n)\<^sup>*\<^sup>* ?s s" by (meson relpowp_imp_rtranclp)
  have "bench_run_ok toy_ssl toy_redis mk ?s" using bench_run_start [of "toy_idle d" mk toy_ssl toy_redis "toy_queue ops"] assms by simp
  from bench_run_steps [OF toy_ssl_ok toy_engine toy_redis_ok steps inv this] run_steps_inv [OF steps inv]
    bench_run_progress [OF toy_ssl_ok toy_engine] s(2) have "\<forall>i < 2 * n. r_clients s ! i = Ended" by blast
  with s show thesis by (rule that)
qed

section \<open>Every operation once\<close>

text \<open>
  C21: whatever the warm-up threads, the runners and the host do and in whatever order, every queued
  operation is in the queue, on its way or answered, and never twice; when all clients have ended
  each has been answered exactly once.
\<close>

theorem operations_answered_once:
  assumes "(run_step E M R junk n)\<^sup>*\<^sup>* (run_start n W q h) s" and "\<And>i. to_go (hs_threads h i) = 0"
    and "\<forall>ope \<in> set (queue q). t_op ope \<noteq> EOD"
  shows "mset (queue (r_shared s)) + sum_list (map in_flight (r_clients s)) + mset (map fst (r_answers s)) = mset (queue q) \<and>
    (0 < n \<and> (\<forall>i < 2 * n. r_clients s ! i = Ended) \<longrightarrow>
      queue (r_shared s) = [] \<and> mset (map fst (r_answers s)) = mset (queue q))"
proof -
  note start = run_start_inv [OF assms(2,3), of n W]
  from run_steps_drained [OF assms(1) start run_start_drained] all_ended [OF run_steps_inv [OF assms(1) start]]
    run_invD(5) [OF run_steps_inv [OF assms(1) start]]
  show ?thesis by (auto simp: all_ops_def)
qed

theorem operations_answered_once_witness:
  "\<exists>s. (run_step toy_ssl toy_mac toy_redis 0 1)\<^sup>*\<^sup>* (run_start 1 0 (toy_queue [tget]) (toy_idle Map.empty)) s \<and>
    queue (r_shared s) = [] \<and> r_clients s = [Idle, Sent tget] \<and>
    mset (queue (r_shared s)) + sum_list (map in_flight (r_clients s)) + mset (map fst (r_answers s)) = {#tget#}"
proof -
  let ?s = "run_start 1 0 (toy_queue [tget]) (toy_idle Map.empty)"
  let ?t = "become 1 (Sent tget) (?s\<lparr>r_shared := toy_queue [], r_host := send 1 tget (r_host ?s)\<rparr>)"
  have "takes 1 1 ?s" by (simp add: takes_def run_start_def)
  from run_step.take_op [OF this, of tget "toy_queue []"]
  have "run_step toy_ssl toy_mac toy_redis 0 1 ?s ?t"
    by (simp add: run_start_def dequeue_def toy_queue_def tget_def)
  then have steps: "(run_step toy_ssl toy_mac toy_redis 0 1)\<^sup>*\<^sup>* ?s ?t" by blast
  moreover have "queue (r_shared ?t) = []" "r_clients ?t = [Idle, Sent tget]"
    by (simp_all add: run_start_def numeral_2_eq_2)
  moreover have "mset (queue (r_shared ?t)) + sum_list (map in_flight (r_clients ?t)) + mset (map fst (r_answers ?t)) = {#tget#}"
    using operations_answered_once [OF steps] by (simp add: tget_def)
  ultimately show ?thesis by blast
qed

end
