(* ===== verification/TeePool.thy ===== *)
theory TeePool
  imports TeeRun
begin

text \<open>
  The host's process (\<open>main\<close> of \<open>host.cpp\<close>): its arguments, and \<open>TThreadPoolServer\<close> with its 16
  threads.  A thread of the pool serves one connection until the client closes it; the connections that
  find no thread wait in the order of their arrival.  \<open>TeeRun\<close> has a thread for every connection.
\<close>

section \<open>The arguments\<close>

definition check_simulate :: "string list \<Rightarrow> bool" where
  "check_simulate argv \<longleftrightarrow> ''--simulate'' \<in> set (drop 2 argv)"

text \<open>
  \<open>create\<close> is \<open>oe_create_ortoa_enclave\<close> with the flags for debugging and, if asked for, for simulation:
  \<open>None\<close> is a result other than \<open>OE_OK\<close>, which throws \<open>OECreationFailed\<close>, a \<open>std::runtime_error\<close>.
\<close>

definition setEnclaveArgs :: "(string \<Rightarrow> bool \<Rightarrow> 'e option) \<Rightarrow> string list \<Rightarrow> 'e res" where
  "setEnclaveArgs create argv =
    (if length argv < 2 then Inl ProcessExit
     else case create (argv ! 1) (check_simulate argv) of None \<Rightarrow> Inl RuntimeError | Some enclave \<Rightarrow> Inr enclave)"

text \<open>
  \<open>main\<close> calls it before its \<open>try\<close> block, so that the exception ends the process; otherwise the host
  serves with the threads of its pool.
\<close>

definition HOST_THREADS :: nat where
  "HOST_THREADS = 16"

definition host_main :: "(string \<Rightarrow> bool \<Rightarrow> 'e option) \<Rightarrow> string list \<Rightarrow> ('e \<times> nat) res" where
  "host_main create argv =
    (case setEnclaveArgs create argv of Inl er \<Rightarrow> Inl ProcessExit | Inr enclave \<Rightarrow> Inr (enclave, HOST_THREADS))"

lemma host_main_exits:
  "host_main create argv = Inl er \<Longrightarrow> er = ProcessExit \<and> (length argv < 2 \<or> create (argv ! 1) (check_simulate argv) = None)"
  by (auto simp: host_main_def setEnclaveArgs_def split: if_splits option.splits)

section \<open>The pool\<close>

record ('d, 'g) prun =
  p_run :: "('d, 'g) trun"
  p_opened :: "nat set"
  p_backlog :: "nat list"
  p_served :: "nat set"

text \<open>
  \<open>w\<close> is the number of threads.  A client acts after it has opened its connection; a thread of the host
  goes on only for a connection it serves, and what else changes at the host is what a client sends.
\<close>

definition allowed :: "('d, 'g) prun \<Rightarrow> ('d, 'g) trun \<Rightarrow> bool" where
  "allowed s t \<longleftrightarrow> (\<forall>k. k \<notin> p_opened s \<longrightarrow> r_clients t ! k = r_clients (p_run s) ! k) \<and>
     (\<forall>k. k \<notin> p_served s \<longrightarrow> hs_threads (r_host t) k = hs_threads (r_host (p_run s)) k \<or>
       r_clients t ! k \<noteq> r_clients (p_run s) ! k)"

inductive hpool_step :: "('c, 'g) ssl \<Rightarrow> ('x, 'm, 'k) mac_lib \<Rightarrow> 'd redis \<Rightarrow> byte \<Rightarrow> nat \<Rightarrow> nat \<Rightarrow>
    ('d, 'g) prun \<Rightarrow> ('d, 'g) prun \<Rightarrow> bool" for E M R junk n w where
  connect: "i < 2 * n \<Longrightarrow> i \<notin> p_opened s \<Longrightarrow>
    hpool_step E M R junk n w s (s\<lparr>p_opened := insert i (p_opened s), p_backlog := p_backlog s @ [i]\<rparr>)"
| assign: "p_backlog s = i # is \<Longrightarrow> card (p_served s) < w \<Longrightarrow>
    hpool_step E M R junk n w s (s\<lparr>p_backlog := is, p_served := insert i (p_served s)\<rparr>)"
| hang_up: "i \<in> p_served s \<Longrightarrow> r_clients (p_run s) ! i = Ended \<Longrightarrow>
    hpool_step E M R junk n w s (s\<lparr>p_served := p_served s - {i}\<rparr>)"
| go: "run_step E M R junk n (p_run s) t \<Longrightarrow> allowed s t \<Longrightarrow> hpool_step E M R junk n w s (s\<lparr>p_run := t\<rparr>)"

definition hpool_start :: "('d, 'g) trun \<Rightarrow> ('d, 'g) prun" where
  "hpool_start t = \<lparr>p_run = t, p_opened = {}, p_backlog = [], p_served = {}\<rparr>"

text \<open>With fewer threads than connections the host does nothing it could not do with more.\<close>

lemma hpool_steps_run:
  "(hpool_step E M R junk n w)\<^sup>*\<^sup>* s s' \<Longrightarrow> (run_step E M R junk n)\<^sup>*\<^sup>* (p_run s) (p_run s')"
proof (induction rule: rtranclp_induct)
  case (step y z)
  from step(2) show ?case
  proof cases
    case (go t)
    with step(3) show ?thesis by (simp add: rtranclp.rtrancl_into_rtrancl [where r = "run_step E M R junk n"])
  qed (use step(3) in simp_all)
qed simp

section \<open>The pool comes to its end\<close>

text \<open>An open connection waits, is served, or its client has ended.\<close>

definition hpool_inv :: "nat \<Rightarrow> tee_op multiset \<Rightarrow> nat \<Rightarrow> ('d, 'g) prun \<Rightarrow> bool" where
  "hpool_inv n A w s \<longleftrightarrow> run_inv n A (p_run s) \<and> p_opened s \<subseteq> {..<2 * n} \<and> distinct (p_backlog s) \<and>
    set (p_backlog s) \<subseteq> p_opened s \<and> p_served s \<subseteq> p_opened s \<and> set (p_backlog s) \<inter> p_served s = {} \<and>
    card (p_served s) \<le> w \<and>
    (\<forall>i \<in> p_opened s. i \<notin> set (p_backlog s) \<longrightarrow> i \<notin> p_served s \<longrightarrow> r_clients (p_run s) ! i = Ended)"

definition conn_rank :: "('d, 'g) prun \<Rightarrow> nat \<Rightarrow> nat" where
  "conn_rank s i = (if i \<notin> p_opened s then 3 else if i \<in> set (p_backlog s) then 2 else if i \<in> p_served s then 1 else 0)"

definition hpool_rank :: "nat \<Rightarrow> ('d, 'g) prun \<Rightarrow> nat" where
  "hpool_rank n s = run_measure n (p_run s) + (\<Sum>i < 2 * n. conn_rank s i)"

text \<open>A client that has ended stays so.\<close>

lemma run_step_ended:
  assumes "run_step E M R junk n s s'" and "run_inv n A s" and "i < 2 * n" and "r_clients s ! i = Ended"
  shows "r_clients s' ! i = Ended"
  using assms(1)
proof cases
  case (take_op k ope q)
  then show ?thesis using assms(3,4) run_invD(1) [OF assms(2)] by (auto simp: takes_def nth_list_update split: if_splits)
next
  case (end_of_data k ope q)
  then show ?thesis using assms(3,4) run_invD(1) [OF assms(2)] by (auto simp: takes_def nth_list_update split: if_splits)
qed (use assms(3,4) run_invD(1) [OF assms(2)] in \<open>auto simp: nth_list_update\<close>)

lemma rank_moves:
  assumes "i < 2 * n" and "p_run s' = p_run s" and "\<And>k. k \<noteq> i \<Longrightarrow> conn_rank s' k = conn_rank s k" and "conn_rank s' i < conn_rank s i"
  shows "hpool_rank n s' < hpool_rank n s"
  using sum_change_one [OF assms(1), of "conn_rank s'" "conn_rank s"] assms(2-4) by (simp add: hpool_rank_def)

lemma hpool_step_inv:
  assumes "hpool_step E M R junk n w s s'" and inv: "hpool_inv n A w s"
  shows "hpool_inv n A w s' \<and> hpool_rank n s' < hpool_rank n s"
proof -
  note D = inv [unfolded hpool_inv_def]
  have fin: "finite (p_served s)" using D by (meson finite_lessThan finite_subset)
  from assms(1) show ?thesis
  proof cases
    case (connect i)
    have i: "i \<notin> set (p_backlog s)" "i \<notin> p_served s" using connect(3) D by blast+
    have "hpool_inv n A w s'" using connect i D by (auto simp: hpool_inv_def)
    moreover have "hpool_rank n s' < hpool_rank n s"
      by (rule rank_moves [OF connect(2)]) (use connect in \<open>auto simp: conn_rank_def\<close>)
    ultimately show ?thesis ..
  next
    case (assign i "is")
    have i: "i < 2 * n" "i \<in> p_opened s" "i \<notin> set is" "i \<notin> p_served s" using assign(2) D by auto
    have "hpool_inv n A w s'" using assign i D fin by (auto simp: hpool_inv_def)
    moreover have "hpool_rank n s' < hpool_rank n s"
      by (rule rank_moves [OF i(1)]) (use assign i in \<open>auto simp: conn_rank_def\<close>)
    ultimately show ?thesis ..
  next
    case (hang_up i)
    have i: "i < 2 * n" "i \<in> p_opened s" "i \<notin> set (p_backlog s)" using hang_up(2) D by auto
    have "card (p_served s - {i}) \<le> w" using D card_Diff1_le [of "p_served s" i] by simp
    then have "hpool_inv n A w s'" using hang_up i D by (auto simp: hpool_inv_def)
    moreover have "hpool_rank n s' < hpool_rank n s"
      by (rule rank_moves [OF i(1)]) (use hang_up i in \<open>auto simp: conn_rank_def\<close>)
    ultimately show ?thesis ..
  next
    case (go t)
    have run: "run_inv n A (p_run s)" using D by simp
    have "r_clients t ! i = Ended" if "i \<in> p_opened s" "r_clients (p_run s) ! i = Ended" for i
      using run_step_ended [OF go(2) run _ that(2)] that(1) D by blast
    then have "hpool_inv n A w s'" using go run_step_inv [OF go(2) run] D by (simp add: hpool_inv_def)
    moreover have "conn_rank s' = conn_rank s" by (simp add: go(1) conn_rank_def fun_eq_iff)
    then have "hpool_rank n s' < hpool_rank n s" using run_step_measure [OF go(2) run] by (simp add: hpool_rank_def go(1))
    ultimately show ?thesis ..
  qed
qed

interpretation host_pool: ranked_steps "hpool_step E M R junk n w" "hpool_inv n A w" "hpool_rank n"
  by unfold_locales (use hpool_step_inv in blast)+

lemma hpool_start_inv: "run_inv n A t \<Longrightarrow> hpool_inv n A w (hpool_start t)"
  by (simp add: hpool_inv_def hpool_start_def)

lemma hpool_start_rank: "hpool_rank n (hpool_start t) = run_measure n t + 6 * n"
  by (simp add: hpool_rank_def hpool_start_def conn_rank_def)

text \<open>
  As long as a client has not ended, something can go on: a connection opens or gets a thread, or all
  threads are busy and the client of one of them goes on or has ended.
\<close>

lemma hpool_progress:
  assumes E: "ssl_ok E" and M: "engine_keys M = Inr ks"
    and inv: "hpool_inv n A w s" and ok: "bench_run_ok E R mk (p_run s)" and w: "0 < w"
    and i: "i < 2 * n" "r_clients (p_run s) ! i \<noteq> Ended"
  shows "\<exists>s'. hpool_step E M R junk n w s s'"
proof -
  note D = inv [unfolded hpool_inv_def]
  have served: ?thesis if j: "j \<in> p_served s" for j
  proof (cases "r_clients (p_run s) ! j = Ended")
    case True
    with hpool_step.hang_up [OF j] show ?thesis by blast
  next
    case False
    from j D have "j < 2 * n" "j \<in> p_opened s" by auto
    from client_progress [OF E M _ ok this(1) False, of A junk] D obtain t where
      t: "run_step E M R junk n (p_run s) t" "step_for j (p_run s) t" by blast
    have "allowed s t" using t(2) j \<open>j \<in> p_opened s\<close> unfolding allowed_def step_for_def by metis
    with hpool_step.go [OF t(1)] show ?thesis by blast
  qed
  show ?thesis
  proof (cases "i \<in> p_opened s")
    case False
    with hpool_step.connect [OF i(1)] show ?thesis by blast
  next
    case True
    then consider "i \<in> p_served s" | "i \<in> set (p_backlog s)" using D i(2) by blast
    then show ?thesis
    proof cases
      case 1
      then show ?thesis by (rule served)
    next
      case 2
      then obtain k ks' where front: "p_backlog s = k # ks'" by (cases "p_backlog s") auto
      show ?thesis
      proof (cases "p_served s = {}")
        case True
        then have "card (p_served s) < w" using w by simp
        from hpool_step.assign [OF front this] show ?thesis by blast
      qed (use served in blast)
    qed
  qed
qed

end
