(* ===== verification/TeePoolProperties.thy ===== *)
theory TeePoolProperties
  imports TeePool TeeRunProperties
begin

text \<open>The property of the host's pool of threads.\<close>

section \<open>Any number of threads suffices\<close>

text \<open>
  C20: after \<open>initDB\<close>, a run of generated operations by any number of warm-up threads and runners
  against a host with any number of threads, the 16 of the code or a single one, ends after at most
  six steps for each operation and ten for each pair of clients; it stops nowhere before all
  clients have ended, even when more connections wait than the host has threads, and then every
  operation has been answered, with an encryption of a number below 10000.
\<close>

theorem host_threads_suffice:
  assumes "ssl_ok E" and "engine_keys M = Inr ks" and "redis_ok R"
    and "\<not> use_seed cfg" and "0 < max_value cfg" and "max_value cfg \<le> 10000" and "0 < max_key cfg"
    and "initDB E M R junk ds cfg g d = Inr (hs_store h)" and "generated E M junk cfg (queue q)"
    and "hs_alive h" and "\<And>i. to_go (hs_threads h i) = 0" and "0 < n" and "0 < w"
    and "(hpool_step E M R junk n w ^^ k) (hpool_start (run_start n W q h)) s"
  shows "k \<le> 6 * length (queue q) + 10 * n \<and> card (p_served s) \<le> w \<and> ((\<forall>s'. \<not> hpool_step E M R junk n w s s') \<longrightarrow>
    (\<forall>i < 2 * n. r_clients (p_run s) ! i = Ended) \<and> mset (map fst (r_answers (p_run s))) = mset (queue q) \<and>
    (\<forall>(ope, out) \<in> set (r_answers (p_run s)). fits E out))"
proof -
  let ?t = "run_start n W q h"
  have steps: "(hpool_step E M R junk n w)\<^sup>*\<^sup>* (hpool_start ?t) s" using assms(14) by (rule relpowp_imp_rtranclp)
  from hpool_steps_run [OF this] have run: "(run_step E M R junk n)\<^sup>*\<^sup>* ?t (p_run s)" by (simp add: hpool_start_def)
  have ops: "\<forall>ope \<in> set (queue q). bench_op E (max_key cfg) ope \<and> t_op ope \<noteq> EOD"
    by (rule generated_bench_ops [OF assms(1,2,9,5-7)])
  then have start: "run_inv n (mset (queue q)) ?t" using run_start_inv assms(11) by blast
  have "bench_run_ok E R (max_key cfg) ?t"
    using initDB_fits [OF assms(1-8)] ops by (intro bench_run_start [OF assms(10)]) (simp_all add: fits_def)
  from bench_run_steps [OF assms(1-3) run start this] have ok: "bench_run_ok E R (max_key cfg) (p_run s)" .
  note pool = hpool_start_inv [OF start, of w]
  have "k \<le> 6 * length (queue q) + 10 * n"
    using host_pool.bounded [OF assms(14) pool] hpool_start_rank [of n ?t] run_start_measure [OF assms(11), of n W q] by simp
  moreover have inv: "hpool_inv n (mset (queue q)) w s" by (rule host_pool.inv_steps [OF steps pool])
  then have "card (p_served s) \<le> w" by (simp add: hpool_inv_def)
  moreover have "\<forall>i < 2 * n. r_clients (p_run s) ! i = Ended" if "\<forall>s'. \<not> hpool_step E M R junk n w s s'"
    using hpool_progress [OF assms(1,2) inv ok assms(13)] that by blast
  moreover have "\<forall>(ope, out) \<in> set (r_answers (p_run s)). fits E out" using ok by (simp add: bench_run_ok_def)
  ultimately show ?thesis
    using all_ended [OF run_steps_inv [OF run start] run_steps_drained [OF run start run_start_drained] assms(12)] by blast
qed

text \<open>Four clients and one thread.\<close>

theorem host_threads_suffice_witness:
  "\<exists>d' ope s. fst (genRandOperation toy_ssl toy_mac 0 toy_draw toy_config 0) = Inr ope \<and>
    (hpool_step toy_ssl toy_mac toy_redis 0 2 1)\<^sup>*\<^sup>* (hpool_start (run_start 2 1 (toy_queue [ope, ope, ope]) (toy_idle d'))) s \<and>
    mset (map fst (r_answers (p_run s))) = {#ope, ope, ope#}"
proof -
  obtain d' where d': "initDB toy_ssl toy_mac toy_redis 0 (\<lambda>_. toy_draw) toy_config 0 Map.empty = Inr d'"
    by (rule toy_filled)
  obtain ope where ope: "fst (genRandOperation toy_ssl toy_mac 0 toy_draw toy_config 0) = Inr ope"
    and gen: "generated toy_ssl toy_mac 0 toy_config [ope, ope, ope]"
    by (rule toy_generated) simp
  let ?t = "run_start 2 1 (toy_queue [ope, ope, ope]) (toy_idle d')"
  have "run_inv 2 (mset [ope, ope, ope]) ?t"
    using run_start_inv [of "toy_idle d'" "toy_queue [ope, ope, ope]" 2 1] generated_bench_ops [OF toy_ssl_ok toy_engine gen toy_config_ok(2-4)]
    by simp
  from host_pool.run_to_end [OF hpool_start_inv [OF this, of 1]] obtain k s where
    s: "(hpool_step toy_ssl toy_mac toy_redis 0 2 1 ^^ k) (hpool_start ?t) s" "\<forall>s'. \<not> hpool_step toy_ssl toy_mac toy_redis 0 2 1 s s'"
    by blast
  have "initDB toy_ssl toy_mac toy_redis 0 (\<lambda>_. toy_draw) toy_config 0 Map.empty = Inr (hs_store (toy_idle d'))"
    "generated toy_ssl toy_mac 0 toy_config (queue (toy_queue [ope, ope, ope]))"
    using d' gen by simp_all
  from host_threads_suffice [OF toy_ssl_ok toy_engine toy_redis_ok toy_config_ok this _ _ _ _ s(1)] s(2)
  have "mset (map fst (r_answers (p_run s))) = {#ope, ope, ope#}" by simp
  with ope relpowp_imp_rtranclp [OF s(1)] show ?thesis by blast
qed

end
