(* ===== verification/TeeMain.thy ===== *)
theory TeeMain
  imports TeePool
begin

text \<open>
  The client program of ORTOA-TEE from its arguments to its answers: \<open>parseArgs\<close> (\<open>clientUtils.cpp\<close>)
  and \<open>ClientHandler::start\<close> (\<open>client.cpp\<close>), which fills the database or runs the producers and then
  the warm-up threads and runners.
\<close>

section \<open>The arguments\<close>

record client_config = config +
  num_clients :: int
  num_warmup_operations :: int
  init_db :: bool
  experiment_result_file :: "string option"

text \<open>The defaults; the probability of a GET is its comparison with the draws.\<close>

definition ClientConfig :: "(nat \<Rightarrow> bool) \<Rightarrow> client_config" where
  "ClientConfig below_half = \<lparr>seed_data = [], at_eof = False, use_seed = False, num_operations = 1000,
     below_p_get = below_half, max_key = 100000, max_value = 10000, num_clients = 16,
     num_warmup_operations = 100, init_db = False, experiment_result_file = None\<rparr>"

text \<open>What the argument parser returns: the options with a file only when they are used.\<close>

record args =
  a_seed :: "string option"
  a_output :: "string option"
  a_nthreads :: int
  a_warmup :: int
  a_noperations :: int
  a_initdb :: bool
  a_pget :: "nat \<Rightarrow> bool"
  a_max_key :: int
  a_max_val :: int

text \<open>
  \<open>parse_args\<close> is the parser, which takes the defaults from the configuration and throws for arguments
  it does not know; \<open>open_in\<close> is the content of a file that can be read and \<open>open_out\<close> says which can
  be written.
\<close>

definition parseArgs :: "(client_config \<Rightarrow> 'v \<Rightarrow> args res) \<Rightarrow> (string \<Rightarrow> string option) \<Rightarrow> (string \<Rightarrow> bool) \<Rightarrow>
    'v \<Rightarrow> client_config \<Rightarrow> client_config res" where
  "parseArgs parse_args open_in open_out argv cfg =
    bind_res (parse_args cfg argv) (\<lambda>a.
    bind_res (case a_seed a of None \<Rightarrow> Inr cfg
      | Some path \<Rightarrow> (case open_in path of None \<Rightarrow> Inl RuntimeError
          | Some content \<Rightarrow> Inr (cfg\<lparr>seed_data := content, at_eof := False, use_seed := True\<rparr>))) (\<lambda>cfg.
    bind_res (case a_output a of None \<Rightarrow> Inr cfg
      | Some path \<Rightarrow> if open_out path then Inr (cfg\<lparr>experiment_result_file := Some path\<rparr>) else Inl RuntimeError) (\<lambda>cfg.
    Inr (cfg\<lparr>num_clients := a_nthreads a, num_warmup_operations := a_warmup a, num_operations := a_noperations a,
      init_db := a_initdb a, below_p_get := a_pget a, max_key := a_max_key a, max_value := a_max_val a\<rparr>))))"

section \<open>A run of the program\<close>

text \<open>
  \<open>runThreaded\<close>: the producers to their end, then the clients to theirs, against the threads of the
  host.  The relation is between the host before and after, the answers and the outcome: the number of
  latencies, or the error by which a producer has failed, or a call of a host thread whose behaviour is undefined.
\<close>

definition runThreaded :: "('c, 'g) ssl \<Rightarrow> ('x, 'm, 'k) mac_lib \<Rightarrow> 'd redis \<Rightarrow> byte \<Rightarrow> (nat \<Rightarrow> 'g) \<Rightarrow> client_config \<Rightarrow>
    ('d, 'g) hsys \<Rightarrow> ('d, 'g) hsys \<Rightarrow> (tee_op \<times> bytes) list \<Rightarrow> nat res \<Rightarrow> bool" where
  "runThreaded E M R junk gens cfg h h' answers r \<longleftrightarrow>
    (let n = nat (num_clients cfg); warmups = unat (word_of_int (num_warmup_operations cfg) :: 32 word) in
     \<exists>p. (producer_step E M junk)\<^sup>*\<^sup>* (producers_start n (config.truncate cfg) gens) p \<and>
       (case p_failed p of
          Some er \<Rightarrow> h' = h \<and> answers = [] \<and> r = Inl er
        | None \<Rightarrow> p_active p = {} \<and>
           (\<exists>s. (hpool_step E M R junk n HOST_THREADS)\<^sup>*\<^sup>* (hpool_start (run_start n warmups (p_shared p) h)) s \<and>
             h' = r_host (p_run s) \<and> answers = r_answers (p_run s) \<and>
             ((\<forall>i < 2 * n. r_clients (p_run s) ! i = Ended) \<and> r = Inr (r_latencies (p_run s)) \<or>
              (\<exists>i ope. hs_threads (r_host (p_run s)) i = Broken ope) \<and> r = Inl Undefined))))"

text \<open>The threads of an idle host have finished what they had to do.\<close>

definition idle_host :: "('d, 'g) hsys \<Rightarrow> bool" where
  "idle_host h \<longleftrightarrow> hs_alive h \<and> (\<forall>i. \<exists>ope out. hs_threads h i = Finished ope out)"

text \<open>
  \<open>runThreaded\<close> comes to an end however its threads and those of the host are scheduled: the producers have all ended
  or one of them has failed, and when none has, all clients end.
\<close>

definition runThreaded_ends :: "('c, 'g) ssl \<Rightarrow> ('x, 'm, 'k) mac_lib \<Rightarrow> 'd redis \<Rightarrow> byte \<Rightarrow> (nat \<Rightarrow> 'g) \<Rightarrow> client_config \<Rightarrow>
    ('d, 'g) hsys \<Rightarrow> bool" where
  "runThreaded_ends E M R junk gens cfg h \<longleftrightarrow>
    (let n = nat (num_clients cfg); warmups = unat (word_of_int (num_warmup_operations cfg) :: 32 word);
         start = producers_start n (config.truncate cfg) gens in
     always_ends (producer_step E M junk) (\<lambda>p. p_active p = {} \<or> p_failed p \<noteq> None) start \<and>
     (\<forall>p. (producer_step E M junk)\<^sup>*\<^sup>* start p \<and> p_active p = {} \<and> p_failed p = None \<longrightarrow>
       always_ends (hpool_step E M R junk n HOST_THREADS) (\<lambda>s. \<forall>i < 2 * n. r_clients (p_run s) ! i = Ended)
         (hpool_start (run_start n warmups (p_shared p) h))))"

definition client_main :: "('c, 'g) ssl \<Rightarrow> ('x, 'm, 'k) mac_lib \<Rightarrow> 'd redis \<Rightarrow> byte \<Rightarrow> (nat \<Rightarrow> draw) \<Rightarrow> (nat \<Rightarrow> 'g) \<Rightarrow>
    client_config \<Rightarrow> ('d, 'g) hsys \<Rightarrow> ('d, 'g) hsys \<Rightarrow> (tee_op \<times> bytes) list \<Rightarrow> nat res \<Rightarrow> bool" where
  "client_main E M R junk ds gens cfg h h' answers r \<longleftrightarrow>
    (if init_db cfg then
       (case initDB E M R junk ds (config.truncate cfg) (gens 0) (hs_store h) of
          Inl er \<Rightarrow> h' = h \<and> answers = [] \<and> r = Inl er
        | Inr d \<Rightarrow> h' = h\<lparr>hs_store := d\<rparr> \<and> answers = [] \<and> r = Inr 0)
     else runThreaded E M R junk gens cfg h h' answers r)"

text \<open>
  \<open>writeOutput\<close>: the averages are of no concern here, but with assertions on they end the process when there
  is no latency or the run took less than a millisecond.  The number is that of the lines written to
  the result file.
\<close>

definition getAveLatency :: "('x, 'm, 'k) mac_lib \<Rightarrow> nat \<Rightarrow> unit res" where
  "getAveLatency M n_latencies = (if mac_asserts M \<and> n_latencies = 0 then Inl ProcessExit else Inr ())"

definition getTotalDuration :: "('x, 'm, 'k) mac_lib \<Rightarrow> nat \<Rightarrow> unit res" where
  "getTotalDuration M duration = (if mac_asserts M \<and> duration = 0 then Inl ProcessExit else Inr ())"

definition writeOutput :: "('x, 'm, 'k) mac_lib \<Rightarrow> client_config \<Rightarrow> nat \<Rightarrow> nat \<Rightarrow> unit res \<times> nat" where
  "writeOutput M cfg n_latencies duration =
    (if init_db cfg then (Inr (), 0)
     else case experiment_result_file cfg of
       None \<Rightarrow> (bind_res (getAveLatency M n_latencies) (\<lambda>_. getTotalDuration M duration), 0)
     | Some path \<Rightarrow> (case getAveLatency M n_latencies of
         Inl er \<Rightarrow> (Inl er, 1)
       | Inr _ \<Rightarrow> (case getTotalDuration M duration of Inl er \<Rightarrow> (Inl er, 2) | Inr _ \<Rightarrow> (Inr (), 3))))"

text \<open>
  \<open>main\<close>: a client whose arguments are refused says so and ends, with nothing sent.  How long a run takes
  is left open; \<open>e\<close> is how the program ends, \<open>Inl Undefined\<close> when C++ gives its behaviour no meaning.
\<close>

definition client_program :: "('c, 'g) ssl \<Rightarrow> ('x, 'm, 'k) mac_lib \<Rightarrow> 'd redis \<Rightarrow> byte \<Rightarrow> (client_config \<Rightarrow> 'v \<Rightarrow> args res) \<Rightarrow>
    (string \<Rightarrow> string option) \<Rightarrow> (string \<Rightarrow> bool) \<Rightarrow> (nat \<Rightarrow> bool) \<Rightarrow> (nat \<Rightarrow> draw) \<Rightarrow> (nat \<Rightarrow> 'g) \<Rightarrow> 'v \<Rightarrow>
    ('d, 'g) hsys \<Rightarrow> ('d, 'g) hsys \<Rightarrow> (tee_op \<times> bytes) list \<Rightarrow> unit res \<Rightarrow> bool" where
  "client_program E M R junk parse_args open_in open_out below_half ds gens argv h h' answers e \<longleftrightarrow>
    (case parseArgs parse_args open_in open_out argv (ClientConfig below_half) of
       Inl er \<Rightarrow> h' = h \<and> answers = [] \<and> e = Inr ()
     | Inr cfg \<Rightarrow> \<exists>r. client_main E M R junk ds gens cfg h h' answers r \<and>
         (case r of Inl er \<Rightarrow> e = Inl er
          | Inr n_latencies \<Rightarrow> \<exists>duration. e = fst (writeOutput M cfg n_latencies duration)))"

text \<open>Arguments without a seed file: the options are the configuration.\<close>

lemma parseArgs_plain:
  assumes "parse_args (ClientConfig below_half) argv = Inr a" and "a_seed a = None"
    and "\<forall>path. a_output a = Some path \<longrightarrow> open_out path"
  shows "\<exists>cfg. parseArgs parse_args open_in open_out argv (ClientConfig below_half) = Inr cfg \<and> \<not> use_seed cfg \<and>
    num_clients cfg = a_nthreads a \<and> num_operations cfg = a_noperations a \<and> init_db cfg = a_initdb a \<and>
    max_key cfg = a_max_key a \<and> max_value cfg = a_max_val a"
  using assms by (auto simp: parseArgs_def ClientConfig_def split: option.split)

text \<open>A file that cannot be read or written is refused.\<close>

lemma parseArgs_refuses:
  assumes "parse_args cfg argv = Inr a"
    and "(\<exists>path. a_seed a = Some path \<and> open_in path = None) \<or> (\<exists>path. a_output a = Some path \<and> \<not> open_out path)"
  shows "parseArgs parse_args open_in open_out argv cfg = Inl RuntimeError"
  using assms by (auto simp: parseArgs_def split: option.split)

lemma truncate_fields [simp]:
  "seed_data (config.truncate cfg) = seed_data cfg" "use_seed (config.truncate cfg) = use_seed cfg"
  "num_operations (config.truncate cfg) = num_operations cfg" "max_key (config.truncate cfg) = max_key cfg"
  "max_value (config.truncate cfg) = max_value cfg" "at_eof (config.truncate cfg) = at_eof cfg"
  by (simp_all add: config.truncate_def)

section \<open>What the producers queue\<close>

lemma genRandOperation_bounds:
  "genRandOperation E M junk d cfg g = (r, cfg', g') \<Longrightarrow> max_key cfg' = max_key cfg \<and> max_value cfg' = max_value cfg \<and>
    use_seed cfg' = use_seed cfg"
  by (auto simp: genRandOperation_def case_prod_beta Let_def split: sum.splits)

lemma producer_step_bounds:
  assumes "producer_step E M junk s s'" and "\<not> use_seed (conf (p_shared s))"
  shows "max_key (conf (p_shared s')) = max_key (conf (p_shared s)) \<and>
    max_value (conf (p_shared s')) = max_value (conf (p_shared s)) \<and> \<not> use_seed (conf (p_shared s'))"
  using assms(1)
proof cases
  case (push i d q g)
  from enqueue_0 [OF push(5)] assms(2) obtain ope cfg where
    "genRandOperation E M junk d (conf (p_shared s)) (p_gens s i) = (Inr ope, cfg, g)"
    "q = (p_shared s)\<lparr>conf := cfg, queue := queue (p_shared s) @ [ope]\<rparr>" by (auto simp: getOperation_def)
  from genRandOperation_bounds [OF this(1)] this(2) push(1) assms(2) show ?thesis by simp
next
  case (stop i d q g)
  with assms(2) show ?thesis by simp
next
  case (fail i d er q g)
  from enqueue_fails [OF fail(5)] assms(2) obtain cfg where
    "genRandOperation E M junk d (conf (p_shared s)) (p_gens s i) = (Inl er, cfg, g)" "q = (p_shared s)\<lparr>conf := cfg\<rparr>"
    by (auto simp: getOperation_def)
  from genRandOperation_bounds [OF this(1)] this(2) fail(1) assms(2) show ?thesis by simp
qed

lemma producer_steps_generated:
  assumes "(producer_step E M junk)\<^sup>*\<^sup>* s s'" and "\<not> use_seed (conf (p_shared s))" and "queue (p_shared s) = []"
  shows "generated E M junk (conf (p_shared s)) (queue (p_shared s')) \<and> \<not> use_seed (conf (p_shared s')) \<and>
    max_key (conf (p_shared s')) = max_key (conf (p_shared s)) \<and>
    max_value (conf (p_shared s')) = max_value (conf (p_shared s))"
  using assms(1)
proof (induction rule: rtranclp_induct)
  case base
  then show ?case using assms(2,3) by (simp add: generated_def)
next
  case (step y z)
  from step(2) show ?case
  proof cases
    case (push i d q g)
    from enqueue_0 [OF push(5)] obtain ope cfg where op: "getOperation E M junk d (conf (p_shared y)) (p_gens y i) = (Inr ope, cfg, g)"
      "q = (p_shared y)\<lparr>conf := cfg, queue := queue (p_shared y) @ [ope]\<rparr>" by blast
    with step(3) have gen: "genRandOperation E M junk d (conf (p_shared y)) (p_gens y i) = (Inr ope, cfg, g)"
      by (simp add: getOperation_def)
    from genRandOperation_bounds [OF this] step(3) have
      "max_key cfg = max_key (conf (p_shared s))" "max_value cfg = max_value (conf (p_shared s))" "\<not> use_seed cfg" by simp_all
    moreover have "\<exists>d cfg1 g1 cfg2 g2. genRandOperation E M junk d cfg1 g1 = (Inr ope, cfg2, g2) \<and>
      max_key cfg1 = max_key (conf (p_shared s)) \<and> max_value cfg1 = max_value (conf (p_shared s))"
      using gen step(3) by blast
    then have "generated E M junk (conf (p_shared s)) (queue (p_shared y) @ [ope])"
      using step(3) by (auto simp: generated_def)
    ultimately show ?thesis using push(1) op(2) by simp
  next
    case (stop i d q g)
    with step(3) show ?thesis by simp
  next
    case (fail i d er q g)
    from enqueue_fails [OF fail(5)] step(3) obtain cfg where
      op: "genRandOperation E M junk d (conf (p_shared y)) (p_gens y i) = (Inl er, cfg, g)" "q = (p_shared y)\<lparr>conf := cfg\<rparr>"
      by (auto simp: getOperation_def)
    from genRandOperation_bounds [OF op(1)] step(3) op(2) show ?thesis by (simp add: fail(1) generated_def)
  qed
qed


text \<open>Whatever the dice say, there are random bytes for which the operation can be made.\<close>

lemma genRandOperation_ok:
  assumes "ssl_ok E" and "engine_keys M = Inr ks" and "0 < max_key cfg" and "0 < max_value cfg" and "max_value cfg \<le> 10 ^ 10"
  shows "\<exists>d ope cfg' g'. draw_ok d \<and> genRandOperation E M junk d cfg g = (Inr ope, cfg', g')"
proof -
  let ?d = "\<lparr>d_first = 0, d_second = 0, d_third = 0, d_bytes = replicate 160 0\<rparr>"
  obtain i where i: "rand_mod 0 (max_key cfg) = Inr i" using rand_mod_range [OF assms(3)] by blast
  obtain v where v: "rand_mod 0 (max_value cfg) = Inr v" "0 \<le> v" "v < max_value cfg"
    using rand_mod_range [OF assms(4)] by blast
  have len: "length (number v) \<le> 1000" "length ([] :: bytes) \<le> 1000" using length_number [of v 10] v(2,3) assms(5) by simp_all
  note ok = make_op_ok [OF assms(1,2) len(1), of junk PUT "int_to_string i" g]
    make_op_ok [OF assms(1,2) len(2), of junk GET "int_to_string i" g]
  have "\<exists>ope cfg' g'. genRandOperation E M junk ?d cfg g = (Inr ope, cfg', g')"
    using ok i v(1) by (auto simp: genRandOperation_def number_def string_of_array_def)
  moreover have "draw_ok ?d" by (simp add: draw_ok_def)
  ultimately show ?thesis by blast
qed

section \<open>The producers come to their end\<close>

lemma producer_progress:
  assumes E: "ssl_ok E" and M: "engine_keys M = Inr ks" and "\<not> use_seed (conf (p_shared s))" and "0 < max_key (conf (p_shared s))"
    and "0 < max_value (conf (p_shared s))" and "max_value (conf (p_shared s)) \<le> 10 ^ 10" and "p_active s \<noteq> {}"
    and ok: "p_failed s = None"
  shows "\<exists>s'. producer_step E M junk s s' \<and> p_failed s' = None"
proof -
  obtain i where i: "i \<in> p_active s" using assms(7) by blast
  show ?thesis
  proof (cases "moreOperationsExist (conf (p_shared s))")
    case True
    from genRandOperation_ok [OF E M assms(4-6)] obtain d ope cfg' g' where d: "draw_ok d"
      and "genRandOperation E M junk d (conf (p_shared s)) (p_gens s i) = (Inr ope, cfg', g')" by blast
    with True assms(3) have "\<exists>q. enqueue E M junk d (p_shared s) (p_gens s i) = (Inr 0, q, g')"
      by (simp add: enqueue_def getOperation_def)
    then obtain q where "enqueue E M junk d (p_shared s) (p_gens s i) = (Inr 0, q, g')" by blast
    from producer_step.push [OF i ok d this] show ?thesis using ok by (intro exI conjI) (assumption, simp)
  next
    case False
    then have "enqueue E M junk d (p_shared s) (p_gens s i) = (Inr 1, p_shared s, p_gens s i)" for d
      by (simp add: enqueue_def)
    from producer_step.stop [OF i ok this] show ?thesis using ok by (intro exI conjI) (assumption, simp)
  qed
qed

text \<open>There is always a way to the end on which nothing fails.\<close>

lemma producers_come_to_end:
  assumes E: "ssl_ok E" and M: "engine_keys M = Inr ks"
  shows "\<not> use_seed (conf (p_shared s)) \<Longrightarrow> 0 < max_key (conf (p_shared s)) \<Longrightarrow>
    0 < max_value (conf (p_shared s)) \<Longrightarrow> max_value (conf (p_shared s)) \<le> 10 ^ 10 \<Longrightarrow>
    finite (p_active s) \<Longrightarrow> p_failed s = None \<Longrightarrow>
    \<exists>s'. (producer_step E M junk)\<^sup>*\<^sup>* s s' \<and> p_active s' = {} \<and> p_failed s' = None"
proof (induction s rule: measure_induct_rule [where f = producers_measure])
  case (less s)
  show ?case
  proof (cases "p_active s = {}")
    case True
    then show ?thesis using less.prems(6) by blast
  next
    case False
    from producer_progress [OF E M less.prems(1-4) False less.prems(6)] obtain t where
      step: "producer_step E M junk s t" "p_failed t = None" by blast
    note small = producer_step_measure [OF step(1) less.prems(5)]
    from less.IH [of t] small step(2) producer_step_bounds [OF step(1) less.prems(1)] less.prems obtain s' where
      "(producer_step E M junk)\<^sup>*\<^sup>* t s'" "p_active s' = {}" "p_failed s' = None" by auto
    with converse_rtranclp_into_rtranclp [of "producer_step E M junk" s t, OF step(1)] show ?thesis by blast
  qed
qed

end
