(* ===== verification/TeeWarm.thy ===== *)
theory TeeWarm
  imports TeeRun
begin

text \<open>
  The runs of the client in which the warm-up threads come first: nothing keeps a runner from being
  slow, so that the warm-up can have taken every operation when the first runner begins.
\<close>

section \<open>The warm-up threads alone\<close>

text \<open>A step for a warm-up thread records no latency.\<close>

lemma step_for_latencies:
  assumes "run_step E M R junk n s s'" and "step_for i s s'" and "i < n"
  shows "r_latencies s' = r_latencies s"
  using assms(1)
proof cases
  case (answer j ope ope' out)
  have "j = i"
  proof (rule ccontr)
    assume "j \<noteq> i"
    then have "r_clients s' ! j = r_clients s ! j" using assms(2) by (simp add: step_for_def)
    with answer show False by simp
  qed
  with answer assms(3) show ?thesis by simp
qed simp_all

lemma warm_first:
  assumes E: "ssl_ok E" and M: "engine_keys M = Inr ks" and R: "redis_ok R"
  shows "run_inv n A s \<Longrightarrow> bench_run_ok E R mk s \<Longrightarrow>
    \<exists>s'. (run_step E M R junk n)\<^sup>*\<^sup>* s s' \<and> (\<forall>i < n. r_clients s' ! i = Ended) \<and>
      (\<forall>i \<ge> n. r_clients s' ! i = r_clients s ! i) \<and> r_latencies s' = r_latencies s"
proof (induction "run_measure n s" arbitrary: s rule: less_induct)
  case less
  show ?case
  proof (cases "\<forall>i < n. r_clients s ! i = Ended")
    case False
    then obtain i where i: "i < n" "r_clients s ! i \<noteq> Ended" by blast
    then have "i < 2 * n" by simp
    from client_progress [OF E M less.prems this i(2)] obtain t where
      t: "run_step E M R junk n s t" "step_for i s t" by blast
    have "run_inv n A t" by (rule run_step_inv [OF t(1) less.prems(1)])
    moreover have "bench_run_ok E R mk t" by (rule bench_run_step [OF E M R t(1) less.prems])
    ultimately obtain s' where s': "(run_step E M R junk n)\<^sup>*\<^sup>* t s'" "\<forall>i < n. r_clients s' ! i = Ended"
      "\<forall>i \<ge> n. r_clients s' ! i = r_clients t ! i" "r_latencies s' = r_latencies t"
      using less.hyps [OF run_step_measure [OF t(1) less.prems(1)]] by blast
    have "\<forall>k \<ge> n. r_clients t ! k = r_clients s ! k" using t(2) i(1) by (simp add: step_for_def)
    moreover have "r_latencies t = r_latencies s" by (rule step_for_latencies [OF t i(1)])
    moreover have "(run_step E M R junk n)\<^sup>*\<^sup>* s s'" using t(1) s'(1) by (rule converse_rtranclp_into_rtranclp)
    ultimately show ?thesis using s'(2-4) by auto
  qed blast
qed

section \<open>Nothing left to measure\<close>

text \<open>The queue is empty, the warm-up is over, and no runner is at work.\<close>

definition too_late :: "nat \<Rightarrow> nat \<Rightarrow> ('d, 'g) trun \<Rightarrow> bool" where
  "too_late n c s \<longleftrightarrow> queue (r_shared s) = [] \<and> (\<forall>i < n. r_clients s ! i = Ended) \<and>
    (\<forall>i < length (r_clients s). r_clients s ! i \<in> {Idle, Ended}) \<and> r_latencies s = c"

lemma too_late_step:
  assumes "run_step E M R junk n s s'" and "too_late n c s"
  shows "too_late n c s'"
proof -
  note D = assms(2) [unfolded too_late_def]
  from assms(1) show ?thesis
  proof cases
    case (decrement i)
    with D show ?thesis by simp
  next
    case (warm_over i)
    with D show ?thesis by simp
  next
    case (take_op i ope q)
    with D show ?thesis by (auto simp: dequeue_def EOD_op_def)
  next
    case (end_of_data i ope q)
    with D show ?thesis by (auto simp: too_late_def dequeue_def takes_def nth_list_update)
  next
    case (serve h)
    with D show ?thesis by (simp add: too_late_def)
  next
    case (answer i ope ope' out)
    with D show ?thesis by fastforce
  qed
qed

lemma too_late_steps: "(run_step E M R junk n)\<^sup>*\<^sup>* s s' \<Longrightarrow> too_late n c s \<Longrightarrow> too_late n c s'"
  by (induction rule: rtranclp_induct) (auto intro: too_late_step)

text \<open>With two or more warm-up threads the queue is empty when the warm-up is over.\<close>

lemma warmup_drains_queue:
  assumes "(run_step E M R junk n)\<^sup>*\<^sup>* (run_start n W q h) s" and "\<And>i. to_go (hs_threads h i) = 0"
    and "\<forall>ope \<in> set (queue q). t_op ope \<noteq> EOD" and "2 \<le> n" and "W < 2 ^ 32" and "length (queue q) + n < 2 ^ 32"
    and "\<forall>i < n. r_clients s ! i = Ended"
  shows "queue (r_shared s) = []"
proof -
  from run_steps_warm [OF assms(1) run_start_inv [OF assms(2,3)] run_start_warm] obtain w where
    w: "warm_step\<^sup>*\<^sup>* (warm_start n W (queue q)) w" "follows n s w" by blast
  from w(2) assms(7) have "\<forall>i < n. w_pc w i = Exited" by (simp add: follows_def)
  from warm_end_empty [OF warm_steps_inv [OF w(1) warm_start_inv assms(5,6)] this assms(4)] w(2)
  show ?thesis by (simp add: follows_def)
qed

lemma nothing_measured:
  assumes E: "ssl_ok E" and M: "engine_keys M = Inr ks" and R: "redis_ok R"
    and q: "\<forall>ope \<in> set (queue q). bench_op E mk ope \<and> t_op ope \<noteq> EOD" and h: "\<And>i. to_go (hs_threads h i) = 0"
    and ok: "bench_run_ok E R mk (run_start n W q h)" and n: "2 \<le> n" and "W < 2 ^ 32" and "length (queue q) + n < 2 ^ 32"
  shows "\<exists>s. (run_step E M R junk n)\<^sup>*\<^sup>* (run_start n W q h) s \<and> (\<forall>i < 2 * n. r_clients s ! i = Ended) \<and>
    mset (map fst (r_answers s)) = mset (queue q) \<and> r_latencies s = 0"
proof -
  let ?start = "run_start n W q h" and ?step = "run_step E M R junk n"
  have ops: "\<forall>ope \<in> set (queue q). t_op ope \<noteq> EOD" using q by blast
  note start = run_start_inv [OF h ops, of n W]
  from warm_first [OF E M R start ok] obtain s where s: "?step\<^sup>*\<^sup>* ?start s" "\<forall>i < n. r_clients s ! i = Ended"
    "\<forall>i \<ge> n. r_clients s ! i = r_clients ?start ! i" "r_latencies s = r_latencies ?start" by blast
  have inv: "run_inv n (mset (queue q)) s" by (rule run_steps_inv [OF s(1) start])
  have "queue (r_shared s) = []" by (rule warmup_drains_queue [OF s(1) h ops n assms(8,9) s(2)])
  moreover have "r_clients s ! i \<in> {Idle, Ended}" if "i < length (r_clients s)" for i
    using s(2,3) that run_invD(1) [OF inv] by (cases "i < n") (auto simp: run_start_def)
  ultimately have late: "too_late n 0 s" using s(2,4) by (simp add: too_late_def run_start_def)
  obtain k t where t: "(?step ^^ k) s t" "\<forall>t'. \<not> ?step t t'" using trun.run_to_end [OF inv] by blast
  then have steps: "?step\<^sup>*\<^sup>* s t" by (meson relpowp_imp_rtranclp)
  with s(1) have all: "?step\<^sup>*\<^sup>* ?start t" by (rule rtranclp_trans)
  have "bench_run_ok E R mk t" by (rule bench_run_steps [OF E M R all start ok])
  then have ended: "\<forall>i < 2 * n. r_clients t ! i = Ended"
    using client_progress [OF E M run_steps_inv [OF all start]] t(2) by blast
  have "0 < n" using n by simp
  from all_ended [OF run_steps_inv [OF all start] run_steps_drained [OF all start run_start_drained] this ended]
    too_late_steps [OF steps late] ended all show ?thesis by (auto simp: too_late_def)
qed

end
