(* ===== verification/TeeMainProperties.thy ===== *)
theory TeeMainProperties
  imports TeeMain TeeWarm TeeRunProperties
begin

text \<open>
  The program of the TEE client used as its documentation says: once to fill the database, and then to
  measure; and when there is nothing to measure.
\<close>

section \<open>One invocation\<close>

lemma client_main_fills:
  assumes "ssl_ok E" and "engine_keys M = Inr ks" and "redis_ok R" and "init_db cfg"
    and "\<not> use_seed cfg" and "0 < max_value cfg" and "max_value cfg \<le> 10000" and "0 < max_key cfg"
  shows "\<exists>d. initDB E M R junk ds (config.truncate cfg) (gens 0) (hs_store h) = Inr d \<and>
    (client_main E M R junk ds gens cfg h h' answers r \<longleftrightarrow> h' = h\<lparr>hs_store := d\<rparr> \<and> answers = [] \<and> r = Inr 0)"
  using initDB_fills [OF assms(1-3), of "config.truncate cfg" junk ds "gens 0" "hs_store h"] assms(4-8)
  by (auto simp: client_main_def)

lemma producers_start_simps [simp]:
  "p_shared (producers_start n cfg gens) = \<lparr>queue = [], conf = cfg\<rparr>" "p_active (producers_start n cfg gens) = {..<n}"
  "p_failed (producers_start n cfg gens) = None"
  by (simp_all add: producers_start_def)

lemma runThreaded_produces:
  assumes "(producer_step E M junk)\<^sup>*\<^sup>* (producers_start n (config.truncate cfg) gens) p" and "p_active p = {}" and "0 < n"
    and "\<not> use_seed cfg" and "0 \<le> num_operations cfg" and "p_failed p = None"
  shows "generated E M junk (config.truncate cfg) (queue (p_shared p)) \<and>
    int (length (queue (p_shared p))) = num_operations cfg"
proof -
  let ?s = "producers_start n (config.truncate cfg) gens"
  have "p_active p \<noteq> p_active ?s" using assms(2,3) by auto
  from producer_steps_stop [OF assms(1) this assms(6)] producer_steps_count [OF assms(1)] producer_steps_generated [OF assms(1)]
    assms(4-6)
  show ?thesis by (simp add: moreOperationsExist_def)
qed

text \<open>
  What the properties below assume of the second run: numbers below 10000 stored at every key it can ask for, an idle
  host, and a configuration without a seed file.
\<close>

definition measurable :: "('c, 'g) ssl \<Rightarrow> 'd redis \<Rightarrow> client_config \<Rightarrow> ('d, 'g) hsys \<Rightarrow> bool" where
  "measurable E R cfg h \<longleftrightarrow> \<not> use_seed cfg \<and> 0 < max_value cfg \<and> max_value cfg \<le> 10000 \<and> 0 < max_key cfg \<and>
     0 < num_clients cfg \<and> 0 \<le> num_operations cfg \<and> idle_host h \<and>
     (\<forall>i. 0 \<le> i \<and> i < max_key cfg \<longrightarrow> fits E (redisCli_get R (hs_store h) (int_to_string i)))"

abbreviation start_of :: "(nat \<Rightarrow> 'g) \<Rightarrow> client_config \<Rightarrow> 'g producers" where
  "start_of gens cfg \<equiv> producers_start (nat (num_clients cfg)) (config.truncate cfg) gens"

abbreviation clients_of :: "client_config \<Rightarrow> 'g producers \<Rightarrow> ('d, 'g) hsys \<Rightarrow> ('d, 'g) trun" where
  "clients_of cfg p h \<equiv> run_start (nat (num_clients cfg)) (unat (word_of_int (num_warmup_operations cfg) :: 32 word)) (p_shared p) h"

lemma clients_start:
  assumes "ssl_ok E" and "engine_keys M = Inr ks" and ok: "measurable E R cfg h"
    and "(producer_step E M junk)\<^sup>*\<^sup>* (start_of gens cfg) p" and "p_active p = {}" and "p_failed p = None"
  shows "run_inv (nat (num_clients cfg)) (mset (queue (p_shared p))) (clients_of cfg p h) \<and>
    bench_run_ok E R (max_key cfg) (clients_of cfg p h) \<and> none_broken (clients_of cfg p h) \<and>
    int (length (queue (p_shared p))) = num_operations cfg"
proof -
  have n: "0 < nat (num_clients cfg)" "\<not> use_seed cfg" "0 \<le> num_operations cfg" using ok by (simp_all add: measurable_def)
  note made = runThreaded_produces [OF assms(4,5) n assms(6)]
  from generated_bench_ops [OF assms(1,2) conjunct1 [OF made]] ok have
    "\<forall>ope \<in> set (queue (p_shared p)). bench_op E (max_key cfg) ope \<and> t_op ope \<noteq> EOD" by (simp add: measurable_def)
  then have ops: "\<forall>ope \<in> set (queue (p_shared p)). t_op ope \<noteq> EOD" "\<forall>ope \<in> set (queue (p_shared p)). bench_op E (max_key cfg) ope"
    by blast+
  have threads: "\<exists>ope out. hs_threads h i = Finished ope out" for i using ok by (simp add: measurable_def idle_host_def)
  then have idle: "to_go (hs_threads h i) = 0" for i by (metis to_go.simps(4))
  have "none_broken (clients_of cfg p h)" using threads by (metis none_broken_def run_start_def thread.distinct trun.select_convs(4))
  moreover have "hs_alive h" "\<forall>i. 0 \<le> i \<and> i < max_key cfg \<longrightarrow> fits E (redisCli_get R (hs_store h) (int_to_string i))"
    using ok by (simp_all add: measurable_def idle_host_def)
  ultimately show ?thesis using run_start_inv [OF idle ops(1)] bench_run_start [OF _ _ ops(2)] made by blast
qed

lemma clients_steps:
  assumes "ssl_ok E" and "engine_keys M = Inr ks" and "redis_ok R" and ok: "measurable E R cfg h"
    and "(producer_step E M junk)\<^sup>*\<^sup>* (start_of gens cfg) p" and "p_active p = {}" and "p_failed p = None"
    and pool: "(hpool_step E M R junk (nat (num_clients cfg)) HOST_THREADS)\<^sup>*\<^sup>* (hpool_start (clients_of cfg p h)) s"
  shows "hpool_inv (nat (num_clients cfg)) (mset (queue (p_shared p))) HOST_THREADS s" and "bench_run_ok E R (max_key cfg) (p_run s)"
    and "none_broken (p_run s)" and "drained (nat (num_clients cfg)) (p_run s)"
proof -
  note start = clients_start [OF assms(1,2,4-7)]
  note inv = conjunct1 [OF start]
  from hpool_steps_run [OF pool] have steps: "(run_step E M R junk (nat (num_clients cfg)))\<^sup>*\<^sup>* (clients_of cfg p h) (p_run s)"
    by (simp add: hpool_start_def)
  show "hpool_inv (nat (num_clients cfg)) (mset (queue (p_shared p))) HOST_THREADS s"
    by (rule host_pool.inv_steps [OF pool hpool_start_inv [OF inv]])
  show "bench_run_ok E R (max_key cfg) (p_run s)" using start by (blast intro: bench_run_steps [OF assms(1-3) steps])
  show "none_broken (p_run s)" using start by (blast intro: run_steps_none_broken [OF assms(1-3) steps])
  show "drained (nat (num_clients cfg)) (p_run s)" by (rule run_steps_drained [OF steps inv run_start_drained])
qed

lemma runThreaded_always_ends:
  assumes "ssl_ok E" and "engine_keys M = Inr ks" and "redis_ok R" and ok: "measurable E R cfg h"
  shows "runThreaded_ends E M R junk gens cfg h"
  unfolding runThreaded_ends_def Let_def
proof (intro conjI allI impI)
  have cfg: "\<not> use_seed cfg" "0 < max_value cfg" "max_value cfg \<le> 10 ^ 10" "0 < max_key cfg" using ok by (simp_all add: measurable_def)
  show "always_ends (producer_step E M junk) (\<lambda>p. p_active p = {} \<or> p_failed p \<noteq> None) (start_of gens cfg)"
  proof (rule producing.ends)
    fix p
    assume steps: "(producer_step E M junk)\<^sup>*\<^sup>* (start_of gens cfg) p"
    from producer_steps_generated [OF steps] cfg have "\<not> use_seed (conf (p_shared p))" "0 < max_key (conf (p_shared p))"
      "0 < max_value (conf (p_shared p))" "max_value (conf (p_shared p)) \<le> 10 ^ 10" by simp_all
    from producer_progress [OF assms(1,2) this, of junk]
    show "(p_active p = {} \<or> p_failed p \<noteq> None) \<or> (\<exists>p'. producer_step E M junk p p')" by blast
  qed simp
  fix p
  assume "(producer_step E M junk)\<^sup>*\<^sup>* (start_of gens cfg) p \<and> p_active p = {} \<and> p_failed p = None"
  then have p: "(producer_step E M junk)\<^sup>*\<^sup>* (start_of gens cfg) p" "p_active p = {}" "p_failed p = None" by simp_all
  let ?n = "nat (num_clients cfg)" and ?start = "hpool_start (clients_of cfg p h)"
  show "always_ends (hpool_step E M R junk ?n HOST_THREADS) (\<lambda>s. \<forall>i < 2 * ?n. r_clients (p_run s) ! i = Ended) ?start"
  proof (rule host_pool.ends)
    show "hpool_inv ?n (mset (queue (p_shared p))) HOST_THREADS ?start"
      by (rule hpool_start_inv [OF conjunct1 [OF clients_start [OF assms(1,2,4) p]]])
    fix s
    assume pool: "(hpool_step E M R junk ?n HOST_THREADS)\<^sup>*\<^sup>* ?start s"
    note steps = clients_steps [OF assms p pool]
    show "(\<forall>i < 2 * ?n. r_clients (p_run s) ! i = Ended) \<or> (\<exists>s'. hpool_step E M R junk ?n HOST_THREADS s s')"
      using hpool_progress [OF assms(1,2) steps(1,2)] by (auto simp: HOST_THREADS_def)
  qed
qed

lemma runThreaded_answers:
  assumes "ssl_ok E" and "engine_keys M = Inr ks" and "redis_ok R" and ok: "measurable E R cfg h"
    and "runThreaded E M R junk gens cfg h h' answers r"
  shows "int (length answers) = num_operations cfg \<and> (\<forall>(ope, out) \<in> set answers. fits E out) \<and> (\<exists>n_lat. r = Inr n_lat) \<or>
    h' = h \<and> answers = [] \<and> r = Inl Undefined"
proof -
  let ?n = "nat (num_clients cfg)"
  from assms(5) obtain p where p: "(producer_step E M junk)\<^sup>*\<^sup>* (start_of gens cfg) p"
    and out: "case p_failed p of Some er \<Rightarrow> h' = h \<and> answers = [] \<and> r = Inl er
      | None \<Rightarrow> p_active p = {} \<and> (\<exists>s. (hpool_step E M R junk ?n HOST_THREADS)\<^sup>*\<^sup>* (hpool_start (clients_of cfg p h)) s \<and>
          h' = r_host (p_run s) \<and> answers = r_answers (p_run s) \<and>
          ((\<forall>i < 2 * ?n. r_clients (p_run s) ! i = Ended) \<and> r = Inr (r_latencies (p_run s)) \<or>
           (\<exists>i ope. hs_threads (r_host (p_run s)) i = Broken ope) \<and> r = Inl Undefined))"
    unfolding runThreaded_def Let_def by (elim exE conjE) (rule that)
  show ?thesis
  proof (cases "p_failed p")
    case (Some er)
    with producer_steps_failed [OF p assms(1,2)] out show ?thesis by simp
  next
    case None
    with out obtain s where active: "p_active p = {}"
      and pool: "(hpool_step E M R junk ?n HOST_THREADS)\<^sup>*\<^sup>* (hpool_start (clients_of cfg p h)) s"
      and answers: "answers = r_answers (p_run s)"
      and how: "(\<forall>i < 2 * ?n. r_clients (p_run s) ! i = Ended) \<and> r = Inr (r_latencies (p_run s)) \<or>
        (\<exists>i ope. hs_threads (r_host (p_run s)) i = Broken ope) \<and> r = Inl Undefined" by auto
    note start = clients_start [OF assms(1,2,4) p active None] and steps = clients_steps [OF assms(1-4) p active None pool]
    have ended: "\<forall>i < 2 * ?n. r_clients (p_run s) ! i = Ended" "r = Inr (r_latencies (p_run s))"
      using how steps(3) by (auto simp: none_broken_def)
    have "run_inv ?n (mset (queue (p_shared p))) (p_run s)" using steps(1) by (simp add: hpool_inv_def)
    moreover have "0 < ?n" using ok by (simp add: measurable_def)
    ultimately have "mset (map fst answers) = mset (queue (p_shared p))"
      using all_ended [OF _ steps(4) _ ended(1)] by (simp add: answers)
    then have "length answers = length (queue (p_shared p))" by (metis length_map size_mset)
    moreover have "\<forall>(ope, out) \<in> set answers. fits E out" using steps(2) by (simp add: bench_run_ok_def answers)
    ultimately show ?thesis using start ended(2) by simp
  qed
qed

lemma runThreaded_can_answer:
  assumes "ssl_ok E" and "engine_keys M = Inr ks" and "redis_ok R" and ok: "measurable E R cfg h"
  shows "\<exists>h' answers n_lat. runThreaded E M R junk gens cfg h h' answers (Inr n_lat)"
proof -
  let ?n = "nat (num_clients cfg)"
  from producers_come_to_end [OF assms(1,2), of "start_of gens cfg" junk] ok obtain p where
    p: "(producer_step E M junk)\<^sup>*\<^sup>* (start_of gens cfg) p" "p_active p = {}" "p_failed p = None" by (auto simp: measurable_def)
  let ?step = "hpool_step E M R junk ?n HOST_THREADS" and ?start = "hpool_start (clients_of cfg p h)"
  have inv: "hpool_inv ?n (mset (queue (p_shared p))) HOST_THREADS ?start"
    by (rule hpool_start_inv [OF conjunct1 [OF clients_start [OF assms(1,2,4) p]]])
  from host_pool.run_to_end [OF inv] obtain k s where k: "(?step ^^ k) ?start s" "\<forall>s'. \<not> ?step s s'" by blast
  then have steps: "?step\<^sup>*\<^sup>* ?start s" by (meson relpowp_imp_rtranclp)
  note reached = clients_steps [OF assms p steps]
  have "\<forall>i < 2 * ?n. r_clients (p_run s) ! i = Ended"
    using hpool_progress [OF assms(1,2) reached(1,2)] k(2) by (auto simp: HOST_THREADS_def)
  with p steps have "runThreaded E M R junk gens cfg h (r_host (p_run s)) (r_answers (p_run s)) (Inr (r_latencies (p_run s)))"
    unfolding runThreaded_def Let_def by (intro exI [of _ p] conjI) auto
  then show ?thesis by blast
qed

section \<open>Filling, then measuring\<close>

lemma initDB_measurable:
  assumes "ssl_ok E" and "engine_keys M = Inr ks" and "redis_ok R"
    and "\<not> use_seed cfg" and "0 < max_value cfg" and "max_value cfg \<le> 10000"
    and "\<not> use_seed cfg'" and "0 < max_value cfg'" and "max_value cfg' \<le> 10000"
    and "0 < max_key cfg'" and "max_key cfg' \<le> max_key cfg" and "0 < num_clients cfg'" and "0 \<le> num_operations cfg'"
    and "idle_host h" and d: "initDB E M R junk ds (config.truncate cfg) g (hs_store h) = Inr d"
  shows "measurable E R cfg' (h\<lparr>hs_store := d\<rparr>)"
proof -
  have "0 < max_key cfg" using assms(10,11) by simp
  with initDB_fits [OF assms(1-3) _ _ _ _ d] assms(4-6,11)
  have "\<forall>i. 0 \<le> i \<and> i < max_key cfg' \<longrightarrow> fits E (redisCli_get R d (int_to_string i))" by (simp add: fits_def)
  with assms(7-14) show ?thesis by (simp add: measurable_def idle_host_def)
qed

text \<open>How a run that measures ends: with assertions on \<open>writeOutput\<close> can end the process.\<close>

lemma writeOutput_ends: "fst (writeOutput M cfg n_lat duration) = Inr () \<or>
    mac_asserts M \<and> fst (writeOutput M cfg n_lat duration) = Inl ProcessExit"
  by (auto simp: writeOutput_def getAveLatency_def getTotalDuration_def split: option.split)

lemma program_measures:
  assumes "ssl_ok E" and "engine_keys M = Inr ks" and "redis_ok R" and ok: "measurable E R cfg h"
    and cfg: "parseArgs parse_args open_in open_out argv (ClientConfig b) = Inr cfg" and "\<not> init_db cfg"
  shows "client_program E M R junk parse_args open_in open_out b ds gens argv h h' answers e \<Longrightarrow>
      int (length answers) = num_operations cfg \<and> (\<forall>(ope, out) \<in> set answers. fits E out) \<and>
        (e = Inr () \<or> mac_asserts M \<and> e = Inl ProcessExit) \<or>
      h' = h \<and> answers = [] \<and> e = Inl Undefined"
    and "\<exists>h' answers e. client_program E M R junk parse_args open_in open_out b ds gens argv h h' answers e \<and> e \<noteq> Inl Undefined"
proof -
  have program: "client_program E M R junk parse_args open_in open_out b ds gens argv h h' answers e \<longleftrightarrow>
    (\<exists>r. runThreaded E M R junk gens cfg h h' answers r \<and> (case r of Inl er \<Rightarrow> e = Inl er
      | Inr n_lat \<Rightarrow> \<exists>duration. e = fst (writeOutput M cfg n_lat duration)))" for h' answers e
    using assms(6) by (simp add: client_program_def cfg client_main_def)
  show "int (length answers) = num_operations cfg \<and> (\<forall>(ope, out) \<in> set answers. fits E out) \<and>
      (e = Inr () \<or> mac_asserts M \<and> e = Inl ProcessExit) \<or> h' = h \<and> answers = [] \<and> e = Inl Undefined"
    if "client_program E M R junk parse_args open_in open_out b ds gens argv h h' answers e"
  proof -
    from that obtain r where r: "runThreaded E M R junk gens cfg h h' answers r"
      "case r of Inl er \<Rightarrow> e = Inl er | Inr n_lat \<Rightarrow> \<exists>duration. e = fst (writeOutput M cfg n_lat duration)"
      unfolding program by blast
    from runThreaded_answers [OF assms(1-4) r(1)] show ?thesis
    proof (elim disjE conjE exE)
      fix n_lat
      assume all: "int (length answers) = num_operations cfg" "\<forall>(ope, out) \<in> set answers. fits E out" and "r = Inr n_lat"
      with r(2) obtain duration where "e = fst (writeOutput M cfg n_lat duration)" by auto
      with writeOutput_ends [of M cfg n_lat duration] all show ?thesis by simp
    next
      assume "h' = h" "answers = []" "r = Inl Undefined"
      with r(2) show ?thesis by simp
    qed
  qed
  from runThreaded_can_answer [OF assms(1-4)] obtain h' answers n_lat where
    run: "runThreaded E M R junk gens cfg h h' answers (Inr n_lat)" by blast
  have "fst (writeOutput M cfg n_lat 1) \<noteq> Inl Undefined" using writeOutput_ends [of M cfg n_lat 1] by auto
  with run show "\<exists>h' answers e. client_program E M R junk parse_args open_in open_out b ds gens argv h h' answers e \<and> e \<noteq> Inl Undefined"
    unfolding program by (intro exI [of _ h'] exI [of _ answers] exI [of _ "fst (writeOutput M cfg n_lat 1)"] conjI exI [of _ "Inr n_lat"]) auto
qed

text \<open>
  C19: the client is run against an idle host with \<open>--initdb\<close> and then without it.  There is no seed
  file, values are drawn below a bound of at most 10000, the keys of the second run lie below the bound of the first, it has at
  least one client, and the cryptography and the storage do what their documentation says.  The first run succeeds.
  However its threads are scheduled, the second comes to an end after boundedly many steps: either with an answer for each of
  the operations it was asked for, all of them encryptions of numbers below 10000, and with a process that returns or,
  with assertions on, is ended by one about what was measured; or in the undefined behaviour of a
  producer, which the random bytes of a GET without a zero cause (\<open>clientUtils.cpp:47\<close>), before
  anything has been sent.  The first of these is always possible.
\<close>

theorem benchmark_answers_everything:
  assumes "ssl_ok E" and "engine_keys M = Inr ks" and "redis_ok R"
    and "parse_args (ClientConfig b) argv = Inr a" and "parse_args (ClientConfig b) argv' = Inr a'"
    and "a_seed a = None" and "a_output a = None" and "a_seed a' = None" and "\<forall>path. a_output a' = Some path \<longrightarrow> open_out path"
    and "a_initdb a" and "0 < a_max_val a" and "a_max_val a \<le> 10000"
    and "\<not> a_initdb a'" and "0 < a_max_val a'" and "a_max_val a' \<le> 10000"
    and "0 < a_max_key a'" and "a_max_key a' \<le> a_max_key a" and "0 < a_nthreads a'" and "0 \<le> a_noperations a'"
    and "idle_host h"
  shows "\<exists>h1. (\<forall>h' answers e.
      client_program E M R junk parse_args open_in open_out b ds gens argv h h' answers e \<longleftrightarrow> h' = h1 \<and> answers = [] \<and> e = Inr ()) \<and>
    (\<forall>h2 answers e. client_program E M R junk parse_args open_in open_out b ds' gens' argv' h1 h2 answers e \<longrightarrow>
      int (length answers) = a_noperations a' \<and> (\<forall>(ope, out) \<in> set answers. fits E out) \<and>
        (e = Inr () \<or> mac_asserts M \<and> e = Inl ProcessExit) \<or>
      h2 = h1 \<and> answers = [] \<and> e = Inl Undefined) \<and>
    (\<exists>h2 answers e. client_program E M R junk parse_args open_in open_out b ds' gens' argv' h1 h2 answers e \<and> e \<noteq> Inl Undefined) \<and>
    (\<forall>cfg. parseArgs parse_args open_in open_out argv' (ClientConfig b) = Inr cfg \<longrightarrow> runThreaded_ends E M R junk gens' cfg h1)"
proof -
  from parseArgs_plain [where parse_args = parse_args and argv = argv and open_in = open_in and open_out = open_out,
      OF assms(4,6)] assms(7) obtain cfg where
    cfg: "parseArgs parse_args open_in open_out argv (ClientConfig b) = Inr cfg" "\<not> use_seed cfg" "init_db cfg = a_initdb a"
      "max_key cfg = a_max_key a" "max_value cfg = a_max_val a" by auto
  from parseArgs_plain [where parse_args = parse_args and argv = argv' and open_in = open_in and open_out = open_out,
      OF assms(5,8,9)] obtain cfg' where
    cfg': "parseArgs parse_args open_in open_out argv' (ClientConfig b) = Inr cfg'" "\<not> use_seed cfg'" "init_db cfg' = a_initdb a'"
      "max_key cfg' = a_max_key a'" "max_value cfg' = a_max_val a'" "num_clients cfg' = a_nthreads a'"
      "num_operations cfg' = a_noperations a'" by auto
  have ok: "init_db cfg" "0 < max_value cfg" "max_value cfg \<le> 10000" "0 < max_key cfg" "\<not> init_db cfg'"
    "0 < max_value cfg'" "max_value cfg' \<le> 10000"
    "0 < max_key cfg'" "max_key cfg' \<le> max_key cfg" "0 < num_clients cfg'" "0 \<le> num_operations cfg'"
    using assms(10-19) cfg cfg' by simp_all
  from client_main_fills [OF assms(1-3) ok(1) cfg(2) ok(2-4)] obtain d where
    d: "initDB E M R junk ds (config.truncate cfg) (gens 0) (hs_store h) = Inr d" by blast
  let ?h = "h\<lparr>hs_store := d\<rparr>"
  have first: "client_program E M R junk parse_args open_in open_out b ds gens argv h h' answers e \<longleftrightarrow>
      h' = ?h \<and> answers = [] \<and> e = Inr ()" for h' answers e
    using ok(1) by (auto simp: client_program_def cfg(1) client_main_def d writeOutput_def)
  have ready: "measurable E R cfg' ?h"
    by (rule initDB_measurable [OF assms(1-3) cfg(2) ok(2,3) cfg'(2) ok(6-11) assms(20) d])
  note measures = program_measures [OF assms(1-3) ready cfg'(1) ok(5), unfolded cfg'(7)]
  have ends: "runThreaded_ends E M R junk gens' c ?h"
    if "parseArgs parse_args open_in open_out argv' (ClientConfig b) = Inr c" for c
    using runThreaded_always_ends [OF assms(1-3) ready] cfg'(1) that by simp
  show ?thesis
    by (rule exI [of _ ?h], intro conjI allI impI)
      (rule first, erule measures(1), rule measures(2), erule ends)
qed

text \<open>A parser that knows the single option \<open>--initdb\<close>.\<close>

definition toy_parse :: "client_config \<Rightarrow> bool \<Rightarrow> args res" where
  "toy_parse cfg initdb = Inr \<lparr>a_seed = None, a_output = None, a_nthreads = num_clients cfg, a_warmup = num_warmup_operations cfg,
     a_noperations = num_operations cfg, a_initdb = initdb, a_pget = below_p_get cfg, a_max_key = max_key cfg, a_max_val = max_value cfg\<rparr>"

abbreviation toy_client :: "bool \<Rightarrow> ((string \<rightharpoonup> bytes), nat) hsys \<Rightarrow> ((string \<rightharpoonup> bytes), nat) hsys \<Rightarrow> (tee_op \<times> bytes) list \<Rightarrow> unit res \<Rightarrow> bool" where
  "toy_client \<equiv> client_program toy_ssl toy_mac toy_redis 0 toy_parse (\<lambda>_. None) (\<lambda>_. False) (\<lambda>r. r < 5) (\<lambda>_. toy_draw) (\<lambda>i. i)"

theorem benchmark_answers_everything_witness:
  "\<exists>h1. toy_client True (toy_idle Map.empty) h1 [] (Inr ()) \<and> (\<exists>h2 answers e. toy_client False h1 h2 answers e \<and> length answers = 1000)"
proof -
  let ?cfg = "ClientConfig (\<lambda>r. r < 5)"
  let ?a = "\<lambda>initdb. \<lparr>a_seed = None, a_output = None, a_nthreads = 16, a_warmup = 100,
     a_noperations = 1000, a_initdb = initdb, a_pget = (\<lambda>r. r < 5), a_max_key = 100000, a_max_val = 10000\<rparr>"
  have "toy_parse ?cfg True = Inr (?a True)" "toy_parse ?cfg False = Inr (?a False)"
    by (simp_all add: toy_parse_def ClientConfig_def)
  from benchmark_answers_everything [where parse_args = toy_parse and b = "\<lambda>r. r < 5" and argv = True and argv' = False
      and a = "?a True" and a' = "?a False", OF toy_ssl_ok toy_engine toy_redis_ok this, where h = "toy_idle Map.empty" and junk = 0
      and ds = "\<lambda>_. toy_draw" and gens = "\<lambda>i. i" and ds' = "\<lambda>_. toy_draw" and gens' = "\<lambda>i. i"
      and open_in = "\<lambda>_. None" and open_out = "\<lambda>_. False"]
  obtain h1 where h1: "\<forall>h' answers e. toy_client True (toy_idle Map.empty) h' answers e \<longleftrightarrow> h' = h1 \<and> answers = [] \<and> e = Inr ()"
    "\<forall>h2 answers e. toy_client False h1 h2 answers e \<longrightarrow> length answers = 1000 \<or> e = Inl Undefined"
    "\<exists>h2 answers e. toy_client False h1 h2 answers e \<and> e \<noteq> Inl Undefined"
    by (auto simp: idle_host_def toy_idle_def) fastforce
  then show ?thesis by metis
qed

section \<open>Nothing to measure\<close>

text \<open>
  C38: the warm-up can take everything.  With two or more warm-up threads and any configured number of
  warm-up operations, 0 too, the run of generated operations after \<open>initDB\<close> in which the warm-up
  threads come first answers every operation and ends without a single latency: the shared counter
  passes zero and wraps.  With assertions on \<open>writeOutput\<close> then ends the process; a result file has one
  line, and nothing on it.
\<close>

theorem warmup_measures_nothing:
  assumes "ssl_ok E" and "engine_keys M = Inr ks" and "redis_ok R"
    and "\<not> use_seed cfg" and "0 < max_value cfg" and "max_value cfg \<le> 10000" and "0 < max_key cfg"
    and "initDB E M R junk ds cfg g d = Inr (hs_store h)" and "generated E M junk cfg (queue q)"
    and "hs_alive h" and "\<And>i. to_go (hs_threads h i) = 0"
    and "2 \<le> n" and "W < 2 ^ 32" and "length (queue q) + n < 2 ^ 32"
    and "mac_asserts M" and "\<not> init_db cfg'"
  shows "\<exists>s. (run_step E M R junk n)\<^sup>*\<^sup>* (run_start n W q h) s \<and> (\<forall>i < 2 * n. r_clients s ! i = Ended) \<and>
    mset (map fst (r_answers s)) = mset (queue q) \<and>
    writeOutput M cfg' (r_latencies s) duration = (Inl ProcessExit, if experiment_result_file cfg' = None then 0 else 1)"
proof -
  have ops: "\<forall>ope \<in> set (queue q). bench_op E (max_key cfg) ope \<and> t_op ope \<noteq> EOD"
    by (rule generated_bench_ops [OF assms(1,2,9,5-7)])
  have "bench_run_ok E R (max_key cfg) (run_start n W q h)"
    using initDB_fits [OF assms(1-8)] ops by (intro bench_run_start [OF assms(10)]) (simp_all add: fits_def)
  from nothing_measured [OF assms(1-3) ops assms(11) this assms(12-14)] obtain s where
    s: "(run_step E M R junk n)\<^sup>*\<^sup>* (run_start n W q h) s" "\<forall>i < 2 * n. r_clients s ! i = Ended"
      "mset (map fst (r_answers s)) = mset (queue q)" "r_latencies s = 0" by blast
  have "writeOutput M cfg' 0 duration = (Inl ProcessExit, if experiment_result_file cfg' = None then 0 else 1)"
    using assms(15,16) by (simp add: writeOutput_def getAveLatency_def split: option.split)
  with s show ?thesis by auto
qed

theorem warmup_measures_nothing_witness:
  "\<exists>d' ope s. fst (genRandOperation toy_ssl toy_mac 0 toy_draw toy_config 0) = Inr ope \<and>
    (run_step toy_ssl toy_mac toy_redis 0 2)\<^sup>*\<^sup>* (run_start 2 0 (toy_queue [ope, ope, ope]) (toy_idle d')) s \<and>
    length (r_answers s) = 3 \<and> fst (writeOutput toy_mac (ClientConfig even) (r_latencies s) 7) = Inl ProcessExit"
proof -
  obtain d' where d': "initDB toy_ssl toy_mac toy_redis 0 (\<lambda>_. toy_draw) toy_config 0 Map.empty = Inr d'"
    by (rule toy_filled)
  obtain ope where ope: "fst (genRandOperation toy_ssl toy_mac 0 toy_draw toy_config 0) = Inr ope"
    and gen: "generated toy_ssl toy_mac 0 toy_config [ope, ope, ope]"
    by (rule toy_generated) simp
  have "initDB toy_ssl toy_mac toy_redis 0 (\<lambda>_. toy_draw) toy_config 0 Map.empty = Inr (hs_store (toy_idle d'))"
    "generated toy_ssl toy_mac 0 toy_config (queue (toy_queue [ope, ope, ope]))"
    using d' gen by simp_all
  from warmup_measures_nothing [OF toy_ssl_ok toy_engine toy_redis_ok toy_config_ok this, of 2 0 "ClientConfig even" 7]
  obtain s where s: "(run_step toy_ssl toy_mac toy_redis 0 2)\<^sup>*\<^sup>* (run_start 2 0 (toy_queue [ope, ope, ope]) (toy_idle d')) s"
    "mset (map fst (r_answers s)) = mset [ope, ope, ope]"
    "fst (writeOutput toy_mac (ClientConfig even) (r_latencies s) 7) = Inl ProcessExit"
    by (auto simp: toy_mac_def ClientConfig_def)
  have "size (mset (map fst (r_answers s))) = 3" unfolding s(2) by simp
  then have "length (r_answers s) = 3" by simp
  with s ope show ?thesis by blast
qed

end
