(* ===== verification/LabelServerThreads.thy ===== *)
theory LabelServerThreads
  imports LabelStore
begin

text \<open>
  The server with its threads: \<open>TThreadedServer\<close> (\<open>main\<close> of \<open>ortoa-lbl/server.cpp\<close>) serves every
  connection in a thread of its own, and \<open>access\<close> reads the record of a key, decrypts, counts and
  writes in separate steps, without a lock.  What keeps the steps of one access together is the
  lock that the proxy holds on the key.
\<close>

section \<open>State and steps\<close>

text \<open>
  Thread \<open>i\<close> of the server works for the connection of thread \<open>i\<close> of the proxy: nothing is asked for, or
  it has read the old labels, has decrypted the new ones, has counted the access, has written them.
\<close>

datatype phase = Unasked | Fetched bytes | Decrypted bytes | Counted bytes | Written bytes

record 'd tsys =
  t_ps :: "'d psys"
  t_srv :: "nat \<Rightarrow> phase"

definition phase_to :: "nat \<Rightarrow> phase \<Rightarrow> 'd tsys \<Rightarrow> 'd tsys" where
  "phase_to i ph t = t\<lparr>t_srv := (t_srv t)(i := ph)\<rparr>"

definition hang_up :: "nat \<Rightarrow> bytes res \<Rightarrow> 'd tsys \<Rightarrow> 'd tsys" where
  "hang_up i r t = phase_to i Unasked (t\<lparr>t_ps := goto i (Done r) (ps_px (t_ps t)) (t_ps t)\<rparr>)"

text \<open>What \<open>access\<close> reads, and what its 64 tasks make of it.\<close>

definition old_labels :: "'d kvs \<Rightarrow> entry \<Rightarrow> 'd server \<Rightarrow> bytes" where
  "old_labels K e sv = (case kv_get K (db sv) (keyName e) of None \<Rightarrow> [] | Some v \<Rightarrow> v)"

definition decrypted :: "sodium \<Rightarrow> entry \<Rightarrow> bytes \<Rightarrow> bytes res" where
  "decrypted S e oldKeys =
    bind_res (map_res (\<lambda>part. decryptPortion S part oldKeys (lane_of e)) [0..<SERVER_NUM_THREADS]) (\<lambda>tasks.
    bind_res (apply_stores access_init (concat tasks)) (\<lambda>m. Inr (m LA)))"

inductive serve_step :: "sodium \<Rightarrow> 'd kvs \<Rightarrow> fresh set \<Rightarrow> 'd tsys \<Rightarrow> 'd tsys \<Rightarrow> bool" for S K G where
  proxy: "proxy_step S K G (t_ps t) s \<Longrightarrow>
    (\<And>i ope e. ps_pc (t_ps t) i = Asking ope e \<Longrightarrow> ps_pc s i = Asking ope e) \<Longrightarrow>
    serve_step S K G t (t\<lparr>t_ps := s\<rparr>)"
| db_get: "ps_pc (t_ps t) i = Asking ope e \<Longrightarrow> t_srv t i = Unasked \<Longrightarrow> running (ps_sv (t_ps t)) \<Longrightarrow>
    serve_step S K G t (phase_to i (Fetched (old_labels K e (ps_sv (t_ps t)))) t)"
| decrypt: "ps_pc (t_ps t) i = Asking ope e \<Longrightarrow> t_srv t i = Fetched oldKeys \<Longrightarrow> running (ps_sv (t_ps t)) \<Longrightarrow>
    decrypted S e oldKeys = Inr labels \<Longrightarrow> serve_step S K G t (phase_to i (Decrypted labels) t)"
| decrypt_exits: "ps_pc (t_ps t) i = Asking ope e \<Longrightarrow> t_srv t i = Fetched oldKeys \<Longrightarrow> running (ps_sv (t_ps t)) \<Longrightarrow>
    decrypted S e oldKeys = Inl ProcessExit \<Longrightarrow>
    serve_step S K G t (hang_up i (Inl TransportError)
      (t\<lparr>t_ps := (t_ps t)\<lparr>ps_sv := (ps_sv (t_ps t))\<lparr>running := False\<rparr>\<rparr>\<rparr>))"
| decrypt_fails: "ps_pc (t_ps t) i = Asking ope e \<Longrightarrow> t_srv t i = Fetched oldKeys \<Longrightarrow> running (ps_sv (t_ps t)) \<Longrightarrow>
    decrypted S e oldKeys = Inl er \<Longrightarrow> er \<noteq> ProcessExit \<Longrightarrow> serve_step S K G t (hang_up i (Inl er) t)"
| count: "ps_pc (t_ps t) i = Asking ope e \<Longrightarrow> t_srv t i = Decrypted labels \<Longrightarrow> running (ps_sv (t_ps t)) \<Longrightarrow>
    serve_step S K G t (phase_to i (Counted labels)
      (t\<lparr>t_ps := (t_ps t)\<lparr>ps_sv := (ps_sv (t_ps t))\<lparr>access_count := access_count (ps_sv (t_ps t)) + 1\<rparr>\<rparr>\<rparr>))"
| db_put: "ps_pc (t_ps t) i = Asking ope e \<Longrightarrow> t_srv t i = Counted labels \<Longrightarrow> running (ps_sv (t_ps t)) \<Longrightarrow>
    serve_step S K G t (phase_to i (Written labels)
      (t\<lparr>t_ps := (t_ps t)\<lparr>ps_sv := (ps_sv (t_ps t))\<lparr>db := kv_put K (db (ps_sv (t_ps t))) (keyName e) labels\<rparr>\<rparr>\<rparr>))"
| reply: "ps_pc (t_ps t) i = Asking ope e \<Longrightarrow> t_srv t i = Written labels \<Longrightarrow> running (ps_sv (t_ps t)) \<Longrightarrow>
    serve_step S K G t (phase_to i Unasked
      (t\<lparr>t_ps := goto i (Answered ope labels) (ps_px (t_ps t)) (t_ps t)\<rparr>))"
| gone: "ps_pc (t_ps t) i = Asking ope e \<Longrightarrow> \<not> running (ps_sv (t_ps t)) \<Longrightarrow>
    serve_step S K G t (hang_up i (Inl TransportError) t)"

text \<open>As before, every create arrives before its key is locked again.\<close>

definition timely_serve :: "sodium \<Rightarrow> 'd kvs \<Rightarrow> fresh set \<Rightarrow> 'd tsys \<Rightarrow> 'd tsys \<Rightarrow> bool" where
  "timely_serve S K G t t' \<longleftrightarrow> serve_step S K G t t' \<and> delivered (t_ps t')"

definition serve_start :: "proxy \<Rightarrow> 'd server \<Rightarrow> (nat \<Rightarrow> operation) \<Rightarrow> 'd tsys" where
  "serve_start px sv ops = \<lparr>t_ps = threads_start px sv ops, t_srv = (\<lambda>i. Unasked)\<rparr>"

lemma phase_to_simps [simp]:
  "t_ps (phase_to i ph t) = t_ps t" "t_srv (phase_to i ph t) = (t_srv t)(i := ph)"
  by (simp_all add: phase_to_def)

lemma kv_access_decrypted:
  assumes "running sv"
  shows "kv_access S K e sv = (case decrypted S e (old_labels K e sv) of
     Inl er \<Rightarrow> if er = ProcessExit then (Inl TransportError, sv\<lparr>running := False\<rparr>) else (Inl er, sv)
   | Inr labels \<Rightarrow> (Inr labels, sv\<lparr>access_count := access_count sv + 1, db := kv_put K (db sv) (keyName e) labels\<rparr>))"
proof -
  define r where "r = bind_res (map_res (\<lambda>part. decryptPortion S part (old_labels K e sv) (lane_of e)) [0..<SERVER_NUM_THREADS])
    (\<lambda>tasks. apply_stores access_init (concat tasks))"
  have "decrypted S e (old_labels K e sv) = bind_res r (\<lambda>m. Inr (m LA))"
    unfolding decrypted_def r_def bind_res_assoc ..
  then show ?thesis
    using assms by (cases r) (simp_all add: kv_access_def Let_def r_def [symmetric] old_labels_def [symmetric])
qed

section \<open>Where an access takes effect\<close>

text \<open>An access takes effect when its labels are written: the proxy seen then has its answer.\<close>

definition lin_pc :: "pc \<Rightarrow> phase \<Rightarrow> pc" where
  "lin_pc p ph = (case p of Asking ope e \<Rightarrow> (case ph of Written labels \<Rightarrow> Answered ope labels | _ \<Rightarrow> p) | _ \<Rightarrow> p)"

definition lin :: "'d tsys \<Rightarrow> 'd psys" where
  "lin t = (t_ps t)\<lparr>ps_pc := (\<lambda>i. lin_pc (ps_pc (t_ps t) i) (t_srv t i))\<rparr>"

lemma lin_pc_simps [simp]:
  "(\<And>ope e. p \<noteq> Asking ope e) \<Longrightarrow> lin_pc p ph = p" "(\<And>labels. ph \<noteq> Written labels) \<Longrightarrow> lin_pc p ph = p"
  "lin_pc (Asking ope e) (Written labels) = Answered ope labels" "lin_pc p Unasked = p"
  by (simp_all add: lin_pc_def split: pc.split phase.split)

lemma lin_simps [simp]:
  "ps_px (lin t) = ps_px (t_ps t)" "ps_sv (lin t) = ps_sv (t_ps t)" "ps_mail (lin t) = ps_mail (t_ps t)"
  "ps_pc (lin t) i = lin_pc (ps_pc (t_ps t) i) (t_srv t i)"
  by (simp_all add: lin_def)

lemma abs_lin_pc: "abs_pc (lin_pc p ph) = abs_pc p"
  by (cases p; cases ph) simp_all

lemma lin_pc_Hold: "lin_pc p ph = Hold ope new \<longleftrightarrow> p = Hold ope new"
  by (cases p; cases ph) simp_all

lemma delivered_lin: "delivered (lin t) \<longleftrightarrow> delivered (t_ps t)"
  by (simp add: delivered_def lin_pc_Hold)

text \<open>
  What a thread of the server has read is still what the database holds, and what it has decrypted
  is what it would decrypt now.
\<close>

fun phase_ok :: "sodium \<Rightarrow> 'd kvs \<Rightarrow> 'd server \<Rightarrow> entry \<Rightarrow> phase \<Rightarrow> bool" where
  "phase_ok S K sv e (Fetched oldKeys) \<longleftrightarrow> oldKeys = old_labels K e sv"
| "phase_ok S K sv e (Decrypted labels) \<longleftrightarrow> decrypted S e (old_labels K e sv) = Inr labels"
| "phase_ok S K sv e (Counted labels) \<longleftrightarrow> decrypted S e (old_labels K e sv) = Inr labels"
| "phase_ok S K sv e _ \<longleftrightarrow> True"

definition serve_inv :: "sodium \<Rightarrow> 'd kvs \<Rightarrow> 'd tsys \<Rightarrow> bool" where
  "serve_inv S K t \<longleftrightarrow> (\<forall>i. t_srv t i = Unasked \<or>
    (\<exists>ope e. ps_pc (t_ps t) i = Asking ope e \<and> phase_ok S K (ps_sv (t_ps t)) e (t_srv t i)))"

lemma phase_ok_cong:
  "kv_get K (db sv') (keyName e) = kv_get K (db sv) (keyName e) \<Longrightarrow> phase_ok S K sv' e ph = phase_ok S K sv e ph"
  by (cases ph) (simp_all add: old_labels_def)

lemma phase_ok_count: "phase_ok S K (sv\<lparr>access_count := n\<rparr>) e ph = phase_ok S K sv e ph"
  by (rule phase_ok_cong) simp

lemma old_labels_count: "old_labels K e (sv\<lparr>access_count := n\<rparr>) = old_labels K e sv"
  by (simp add: old_labels_def)

lemma serve_invD:
  "serve_inv S K t \<Longrightarrow> ps_pc (t_ps t) i = Asking ope e \<Longrightarrow> phase_ok S K (ps_sv (t_ps t)) e (t_srv t i)"
  unfolding serve_inv_def by (cases "t_srv t i = Unasked") auto

text \<open>A step of one thread of the server that leaves the records of the others alone.\<close>

lemma serve_inv_upd:
  assumes "serve_inv S K t" and "ps_pc (t_ps t') = (ps_pc (t_ps t))(i := p)" and "t_srv t' = (t_srv t)(i := ph)"
    and "ph = Unasked \<or> (\<exists>ope e. p = Asking ope e \<and> phase_ok S K (ps_sv (t_ps t')) e ph)"
    and "\<And>j ope e. j \<noteq> i \<Longrightarrow> ps_pc (t_ps t) j = Asking ope e \<Longrightarrow> phase_ok S K (ps_sv (t_ps t)) e (t_srv t j) \<Longrightarrow>
      phase_ok S K (ps_sv (t_ps t')) e (t_srv t j)"
  shows "serve_inv S K t'"
  using assms(1,4,5) unfolding serve_inv_def assms(2,3) by (metis fun_upd_apply)

section \<open>The steps of the proxy\<close>

lemma lin_goto: "t_srv t i = Unasked \<Longrightarrow> lin (t\<lparr>t_ps := goto i p px (t_ps t)\<rparr>) = goto i p px (lin t)"
  by (simp add: lin_def goto_def fun_eq_iff)

lemma lin_mail: "lin (t\<lparr>t_ps := s\<lparr>ps_mail := m\<rparr>\<rparr>) = (lin (t\<lparr>t_ps := s\<rparr>))\<lparr>ps_mail := m\<rparr>"
  by (simp add: lin_def)

lemma lin_deliver:
  "lin (t\<lparr>t_ps := (t_ps t)\<lparr>ps_mail := m, ps_sv := sv\<rparr>\<rparr>) = (lin t)\<lparr>ps_mail := m, ps_sv := sv\<rparr>"
  by (simp add: lin_def)

lemma unasked: "serve_inv S K t \<Longrightarrow> (\<And>ope e. ps_pc (t_ps t) i \<noteq> Asking ope e) \<Longrightarrow> t_srv t i = Unasked"
  unfolding serve_inv_def by blast

lemma lin_proxy_step:
  assumes step: "proxy_step S K G (t_ps t) s" and inv: "serve_inv S K t"
    and asks: "\<And>i ope e. ps_pc (t_ps t) i = Asking ope e \<Longrightarrow> ps_pc s i = Asking ope e"
  shows "proxy_step S K G (lin t) (lin (t\<lparr>t_ps := s\<rparr>))"
  using step
proof cases
  case (missing i ope)
  then have "t_srv t i = Unasked" by (intro unasked [OF inv]) simp
  with missing proxy_step.missing [of "lin t" i ope S K G] show ?thesis by (simp add: lin_goto)
next
  case (check_key i ope)
  then have "t_srv t i = Unasked" by (intro unasked [OF inv]) simp
  with check_key proxy_step.check_key [of "lin t" i ope S K G] show ?thesis by (simp add: lin_goto)
next
  case (no_connection i ope)
  then have "t_srv t i = Unasked" by (intro unasked [OF inv]) simp
  with no_connection proxy_step.no_connection [of "lin t" i ope S K G] show ?thesis by (simp add: lin_goto)
next
  case (lock i ope new st)
  then have "t_srv t i = Unasked" by (intro unasked [OF inv]) simp
  with lock proxy_step.lock [of "lin t" i ope new st S K G] show ?thesis by (simp add: lin_goto)
next
  case (locked i ope new st)
  then have "t_srv t i = Unasked" by (intro unasked [OF inv]) simp
  with locked proxy_step.locked [of "lin t" i ope new st S K G] show ?thesis by (simp add: lin_goto)
next
  case (built i ope new F e st)
  then have "t_srv t i = Unasked" by (intro unasked [OF inv]) simp
  with built proxy_step.built [of "lin t" i ope new F G S e st K] show ?thesis by (simp add: lin_goto)
next
  case (build_throws i ope new F er st)
  then have "t_srv t i = Unasked" by (intro unasked [OF inv]) simp
  with build_throws proxy_step.build_throws [of "lin t" i ope new F G S er st K] show ?thesis by (simp add: lin_goto)
next
  case (send i ope e)
  then have "t_srv t i = Unasked" by (intro unasked [OF inv]) simp
  with send proxy_step.send [of "lin t" i ope e S K G] show ?thesis by (simp add: lin_goto lin_mail)
next
  case (send_fails i ope e)
  then have "t_srv t i = Unasked" by (intro unasked [OF inv]) simp
  with send_fails proxy_step.send_fails [of "lin t" i ope e S K G] show ?thesis by (simp add: lin_goto)
next
  case (deliver xs e ys)
  with proxy_step.deliver [of "lin t" xs e ys S K G] show ?thesis by (simp add: lin_deliver)
next
  case (ask i ope e labels sv)
  with asks [of i ope e] show ?thesis by simp
next
  case (ask_throws i ope e er sv)
  with asks [of i ope e] show ?thesis by simp
next
  case (answer i ope labels c v st)
  then have "t_srv t i = Unasked" by (intro unasked [OF inv]) simp
  with answer proxy_step.answer [of "lin t" i ope labels S c v st K G] show ?thesis by (simp add: lin_goto)
next
  case (answer_throws i ope labels c er st)
  then have "t_srv t i = Unasked" by (intro unasked [OF inv]) simp
  with answer_throws proxy_step.answer_throws [of "lin t" i ope labels S c er st K G] show ?thesis by (simp add: lin_goto)
qed

text \<open>The steps of the proxy change the database only when a create arrives.\<close>

lemma proxy_step_server:
  assumes "proxy_step S K G s s'" and "\<And>i ope e. ps_pc s i = Asking ope e \<Longrightarrow> ps_pc s' i = Asking ope e"
  shows "ps_sv s' = ps_sv s \<or> (\<exists>e \<in> set (ps_mail s). ps_sv s' = kv_create K e (ps_sv s))"
  using assms(1)
proof cases
  case (ask i ope e labels sv)
  with assms(2) [of i ope e] show ?thesis by simp
next
  case (ask_throws i ope e er sv)
  with assms(2) [of i ope e] show ?thesis by simp
qed auto

section \<open>Refinement\<close>

lemma holds_lin_pc: "holds (lin_pc p ph) = holds p"
  by (cases p; cases ph) simp_all

definition serve_rel :: "sodium \<Rightarrow> 'd kvs \<Rightarrow> 'd tsys \<Rightarrow> store_sys \<Rightarrow> bool" where
  "serve_rel S K t a \<longleftrightarrow> store_rel S K (lin t) a \<and> serve_inv S K t"

text \<open>A thread whose labels are not written yet asks for the key it holds.\<close>

lemma asking_key:
  assumes "store_rel S K (lin t) a" and "ps_pc (t_ps t) i = Asking ope e" and "\<And>labels. t_srv t i \<noteq> Written labels"
  shows "keyName e = op_key ope" and "holds (ps_pc (lin t) i) = Some (op_key ope)"
  using store_relD(7) [OF assms(1), of i] assms(2,3) by auto

lemma proxy_keeps_phases:
  assumes rel: "serve_rel S K t a" and K: "kvs_ok K" and step: "proxy_step S K G (t_ps t) s"
    and asks: "\<And>i ope e. ps_pc (t_ps t) i = Asking ope e \<Longrightarrow> ps_pc s i = Asking ope e"
  shows "serve_inv S K (t\<lparr>t_ps := s\<rparr>)"
proof -
  have srel: "store_rel S K (lin t) a" and inv: "serve_inv S K t" using rel by (simp_all add: serve_rel_def)
  have "t_srv t i = Unasked \<or> (\<exists>ope e. ps_pc s i = Asking ope e \<and> phase_ok S K (ps_sv s) e (t_srv t i))" for i
  proof (cases "t_srv t i = Unasked")
    case False
    with inv obtain ope e where pc: "ps_pc (t_ps t) i = Asking ope e"
      and ok: "phase_ok S K (ps_sv (t_ps t)) e (t_srv t i)" unfolding serve_inv_def by blast
    have "phase_ok S K (ps_sv s) e (t_srv t i)"
    proof (cases "\<exists>labels. t_srv t i = Written labels")
      case unwritten: False
      then have key: "keyName e = op_key ope" "op_key ope \<in> in_use (lin t)"
        using asking_key [OF srel pc] by (auto simp: in_use_def simp del: lin_simps(4))
      from proxy_step_server [OF step asks] have "kv_get K (db (ps_sv s)) (keyName e) = kv_get K (db (ps_sv (t_ps t))) (keyName e)"
      proof
        assume "\<exists>x \<in> set (ps_mail (t_ps t)). ps_sv s = kv_create K x (ps_sv (t_ps t))"
        then obtain x where x: "x \<in> set (ps_mail (t_ps t))" "ps_sv s = kv_create K x (ps_sv (t_ps t))" by blast
        have "keyName x \<noteq> keyName e" using store_relD(4) [OF srel] key x(1) by auto
        with x(2) K show ?thesis by (simp add: kv_create_def kvs_ok_def)
      next
        assume "ps_sv s = ps_sv (t_ps t)"
        then show ?thesis by simp
      qed
      from phase_ok_cong [OF this] ok show ?thesis by blast
    qed auto
    with asks [OF pc] show ?thesis by blast
  qed simp
  then show ?thesis by (simp add: serve_inv_def)
qed

lemma store_rel_cong:
  assumes "store_rel S K s a" and "ps_px s' = ps_px s" and "ps_mail s' = ps_mail s" and "ps_pc s' = ps_pc s"
    and "running (ps_sv s')" and "db (ps_sv s') = db (ps_sv s)"
  shows "store_rel S K s' a"
proof -
  have "arrived K s' = arrived K s" using assms(3,6) by (auto simp: arrived_def fun_eq_iff split: option.split)
  with assms show ?thesis by (simp add: store_rel_def exclusive_def in_use_def key_state_def)
qed

lemma serve_rel_same:
  assumes "serve_rel S K t a" and "ps_px (t_ps t') = ps_px (t_ps t)" and "ps_mail (t_ps t') = ps_mail (t_ps t)"
    and "running (ps_sv (t_ps t'))" and "db (ps_sv (t_ps t')) = db (ps_sv (t_ps t))"
    and "\<And>i. lin_pc (ps_pc (t_ps t') i) (t_srv t' i) = lin_pc (ps_pc (t_ps t) i) (t_srv t i)"
    and "serve_inv S K t'"
  shows "serve_rel S K t' a"
  using assms store_rel_cong [of S K "lin t" a "lin t'"] by (simp add: serve_rel_def fun_eq_iff)

text \<open>The written labels are those the access of the atomic server answers with.\<close>

lemma serve_put:
  assumes rel: "serve_rel S K t a" and S: "sodium_ok S" and K: "kvs_ok K"
    and pc: "ps_pc (t_ps t) i = Asking ope e" and ph: "t_srv t i = Counted labels"
    and t': "t' = phase_to i (Written labels)
      (t\<lparr>t_ps := (t_ps t)\<lparr>ps_sv := (ps_sv (t_ps t))\<lparr>db := kv_put K (db (ps_sv (t_ps t))) (keyName e) labels\<rparr>\<rparr>\<rparr>)"
  shows "serve_rel S K t' a"
proof -
  let ?sv = "ps_sv (t_ps t)"
  let ?sv' = "?sv\<lparr>access_count := access_count ?sv + 1, db := kv_put K (db ?sv) (keyName e) labels\<rparr>"
  let ?s = "(goto i (Answered ope labels) (ps_px (lin t)) (lin t))\<lparr>ps_sv := ?sv'\<rparr>"
  have srel: "store_rel S K (lin t) a" and inv: "serve_inv S K t" using rel by (simp_all add: serve_rel_def)
  have run: "running ?sv" using store_relD(2) [OF srel] by simp
  have "decrypted S e (old_labels K e ?sv) = Inr labels"
    using serve_invD [OF inv pc] ph by simp
  then have acc: "kv_access S K e (ps_sv (lin t)) = (Inr labels, ?sv')" using kv_access_decrypted [OF run] by simp
  have ask: "ps_pc (lin t) i = Asking ope e" using pc ph by simp
  have "exclusive ?s"
    using proxy_step_exclusive [OF proxy_step.ask [OF ask acc] store_relD(1) [OF srel]] .
  from step_ask [OF srel this S K ask acc refl] have "store_rel S K ?s a" .
  moreover have "ps_pc (lin t') = ps_pc ?s" using pc by (simp add: t' fun_eq_iff)
  ultimately have "store_rel S K (lin t') a" using run by (elim store_rel_cong) (simp_all add: t')
  moreover have "serve_inv S K t'"
  proof (rule serve_inv_upd [OF inv, where i = i and p = "Asking ope e" and ph = "Written labels"])
    show "phase_ok S K (ps_sv (t_ps t')) e' (t_srv t j)"
      if j: "j \<noteq> i" "ps_pc (t_ps t) j = Asking ope' e'" "phase_ok S K ?sv e' (t_srv t j)" for j ope' e'
    proof (cases "\<exists>labels. t_srv t j = Written labels")
      case False
      have "\<And>l. t_srv t i \<noteq> Written l" using ph by simp
      note mine = asking_key [OF srel pc this]
      have "\<And>l. t_srv t j \<noteq> Written l" using False by blast
      note others = asking_key [OF srel j(2) this]
      have "op_key ope' \<noteq> op_key ope"
        using store_relD(1) [OF srel] mine(2) others(2) j(1) unfolding exclusive_def by metis
      with mine(1) others(1) K have "kv_get K (db (ps_sv (t_ps t'))) (keyName e') = kv_get K (db ?sv) (keyName e')"
        by (simp add: t' kvs_ok_def)
      from phase_ok_cong [OF this] j(3) show ?thesis by blast
    qed auto
  qed (use pc in \<open>simp_all add: t' fun_upd_idem\<close>)
  ultimately show ?thesis by (simp add: serve_rel_def)
qed

text \<open>Every step of the two together is a step of the store, or none.\<close>

lemma timely_serve_refines:
  assumes S: "sodium_ok S" and K: "kvs_ok K" and G: "\<And>F. F \<in> G \<Longrightarrow> fresh_good S F"
    and step: "timely_serve S K G t t'" and rel: "serve_rel S K t a"
  shows "\<exists>a'. store_step\<^sup>*\<^sup>* a a' \<and> serve_rel S K t' a'"
proof -
  have srel: "store_rel S K (lin t) a" and inv: "serve_inv S K t" using rel by (simp_all add: serve_rel_def)
  have run: "running (ps_sv (t_ps t))" using store_relD(2) [OF srel] by simp
  have none: ?thesis if "serve_rel S K t' a" using that by blast
  have fine: "\<exists>labels. decrypted S e (old_labels K e (ps_sv (t_ps t))) = Inr labels"
    if "ps_pc (t_ps t) i = Asking ope e" "\<And>l. t_srv t i \<noteq> Written l" for i ope e
    using asked_answer [OF srel S K, of i ope e] that kv_access_decrypted [OF run, of S K e]
    by (auto split: sum.splits if_splits)
  have read: "oldKeys = old_labels K e (ps_sv (t_ps t))"
    if "ps_pc (t_ps t) i = Asking ope e" "t_srv t i = Fetched oldKeys" for i ope e oldKeys
    using serve_invD [OF inv that(1)] that(2) by simp
  from step have "serve_step S K G t t'" and del: "delivered (t_ps t')" by (simp_all add: timely_serve_def)
  from this(1) show ?thesis
  proof cases
    case (proxy s)
    have "timely_step S K G (lin t) (lin t')"
      using lin_proxy_step [OF proxy(2) inv proxy(3)] del by (simp add: timely_step_def proxy(1) delivered_lin)
    from timely_step_refines [OF S K G this srel] proxy_keeps_phases [OF rel K proxy(2,3)] show ?thesis
      by (auto simp: serve_rel_def proxy(1))
  next
    case (db_get i ope e)
    have "serve_inv S K t'"
      by (rule serve_inv_upd [OF inv, where i = i and p = "Asking ope e" and ph = "Fetched (old_labels K e (ps_sv (t_ps t)))"])
        (use db_get in \<open>simp_all add: fun_upd_idem\<close>)
    from serve_rel_same [OF rel _ _ _ _ _ this] db_get run show ?thesis by (intro none) simp
  next
    case (decrypt i ope e oldKeys labels)
    have "serve_inv S K t'"
      by (rule serve_inv_upd [OF inv, where i = i and p = "Asking ope e" and ph = "Decrypted labels"])
        (use decrypt read [OF decrypt(2,3)] in \<open>simp_all add: fun_upd_idem\<close>)
    from serve_rel_same [OF rel _ _ _ _ _ this] decrypt run show ?thesis by (intro none) simp
  next
    case (decrypt_exits i ope e oldKeys)
    with fine [OF decrypt_exits(2)] read [OF decrypt_exits(2,3)] show ?thesis by auto
  next
    case (decrypt_fails i ope e oldKeys er)
    with fine [OF decrypt_fails(2)] read [OF decrypt_fails(2,3)] show ?thesis by auto
  next
    case (count i ope e labels)
    have ok: "decrypted S e (old_labels K e (ps_sv (t_ps t))) = Inr labels"
      using serve_invD [OF inv count(2)] count(3) by simp
    have "serve_inv S K t'"
      by (rule serve_inv_upd [OF inv, where i = i and p = "Asking ope e" and ph = "Counted labels"])
        (use count ok in \<open>simp_all add: fun_upd_idem phase_ok_count old_labels_count\<close>)
    from serve_rel_same [OF rel _ _ _ _ _ this] count run show ?thesis by (intro none) simp
  next
    case (db_put i ope e labels)
    from serve_put [OF rel S K db_put(2,3,1)] show ?thesis by (rule none)
  next
    case (reply i ope e labels)
    have "serve_inv S K t'"
      by (rule serve_inv_upd [OF inv, where i = i and p = "Answered ope labels" and ph = Unasked])
        (use reply in simp_all)
    from serve_rel_same [OF rel _ _ _ _ _ this] reply run show ?thesis by (intro none) simp
  next
    case (gone i ope e)
    with run show ?thesis by simp
  qed
qed

lemma timely_serves_refine:
  assumes "sodium_ok S" and "kvs_ok K" and "\<And>F. F \<in> G \<Longrightarrow> fresh_good S F"
  shows "(timely_serve S K G)\<^sup>*\<^sup>* t t' \<Longrightarrow> serve_rel S K t a \<Longrightarrow> \<exists>a'. store_step\<^sup>*\<^sup>* a a' \<and> serve_rel S K t' a'"
proof (induction rule: rtranclp_induct)
  case (step y z)
  then obtain b where b: "store_step\<^sup>*\<^sup>* a b" "serve_rel S K y b" by blast
  from timely_serve_refines [OF assms step(2) b(2)] obtain c where "store_step\<^sup>*\<^sup>* b c" "serve_rel S K z c" by blast
  with b(1) show ?case by (meson rtranclp_trans)
qed blast

lemma serve_rel_start:
  assumes "rep S (kv_get K (db sv)) A px" and "running sv" and "\<And>i. length (op_value (ops i)) < 2 ^ 62"
  shows "serve_rel S K (serve_start px sv ops) (store_start A ops)"
  using store_rel_start [OF assms]
  by (simp add: serve_rel_def serve_inv_def serve_start_def lin_def threads_start_def)

section \<open>Every request is answered\<close>

fun to_serve :: "phase \<Rightarrow> nat" where
  "to_serve Unasked = 4"
| "to_serve (Fetched oldKeys) = 3"
| "to_serve (Decrypted labels) = 2"
| "to_serve (Counted labels) = 1"
| "to_serve (Written labels) = 0"

lemma serve_advances:
  assumes rel: "serve_rel S K t a" and S: "sodium_ok S" and K: "kvs_ok K" and del: "delivered (t_ps t)"
    and pc: "ps_pc (t_ps t) i = Asking ope e"
  shows "\<exists>t'. timely_serve S K G t t' \<and> ((\<exists>labels. ps_pc (t_ps t') i = Answered ope labels) \<or>
    ps_pc (t_ps t') i = Asking ope e \<and> to_serve (t_srv t' i) < to_serve (t_srv t i))"
proof -
  have srel: "store_rel S K (lin t) a" and inv: "serve_inv S K t" using rel by (simp_all add: serve_rel_def)
  have run: "running (ps_sv (t_ps t))" using store_relD(2) [OF srel] by simp
  note D = serve_invD [OF inv pc]
  have still: "delivered (t_ps t')"
    if "ps_mail (t_ps t') = ps_mail (t_ps t)" "\<forall>j ope new. ps_pc (t_ps t') j = Hold ope new \<longrightarrow> ps_pc (t_ps t) j = Hold ope new" for t'
    using del that unfolding delivered_def by metis
  show ?thesis
  proof (cases "t_srv t i")
    case Unasked
    let ?t = "phase_to i (Fetched (old_labels K e (ps_sv (t_ps t)))) t"
    have "timely_serve S K G t ?t"
      using serve_step.db_get [OF pc Unasked run] still [of ?t] by (simp add: timely_serve_def)
    with pc Unasked show ?thesis by (intro exI [of _ ?t]) simp
  next
    case (Fetched oldKeys)
    with asked_answer [OF srel S K, of i ope e] pc kv_access_decrypted [OF run, of S K e] D obtain labels where
      labels: "decrypted S e oldKeys = Inr labels" by (auto split: sum.splits if_splits)
    let ?t = "phase_to i (Decrypted labels) t"
    have "timely_serve S K G t ?t"
      using serve_step.decrypt [OF pc Fetched run labels] still [of ?t] by (simp add: timely_serve_def)
    with pc Fetched show ?thesis by (intro exI [of _ ?t]) simp
  next
    case (Decrypted labels)
    let ?t = "phase_to i (Counted labels)
      (t\<lparr>t_ps := (t_ps t)\<lparr>ps_sv := (ps_sv (t_ps t))\<lparr>access_count := access_count (ps_sv (t_ps t)) + 1\<rparr>\<rparr>\<rparr>)"
    have "timely_serve S K G t ?t"
      using serve_step.count [OF pc Decrypted run] still [of ?t] by (simp add: timely_serve_def)
    with pc Decrypted show ?thesis by (intro exI [of _ ?t]) simp
  next
    case (Counted labels)
    let ?t = "phase_to i (Written labels)
      (t\<lparr>t_ps := (t_ps t)\<lparr>ps_sv := (ps_sv (t_ps t))\<lparr>db := kv_put K (db (ps_sv (t_ps t))) (keyName e) labels\<rparr>\<rparr>\<rparr>)"
    have "timely_serve S K G t ?t"
      using serve_step.db_put [OF pc Counted run] still [of ?t] by (simp add: timely_serve_def)
    with pc Counted show ?thesis by (intro exI [of _ ?t]) simp
  next
    case (Written labels)
    let ?t = "phase_to i Unasked (t\<lparr>t_ps := goto i (Answered ope labels) (ps_px (t_ps t)) (t_ps t)\<rparr>)"
    have "timely_serve S K G t ?t"
      using serve_step.reply [OF pc Written run] still [of ?t] by (simp add: timely_serve_def split: if_splits)
    then show ?thesis by (intro exI [of _ ?t]) simp
  qed
qed

lemma serve_answers:
  assumes S: "sodium_ok S" and K: "kvs_ok K" and G: "\<And>F. F \<in> G \<Longrightarrow> fresh_good S F"
  shows "serve_rel S K t a \<Longrightarrow> delivered (t_ps t) \<Longrightarrow> ps_pc (t_ps t) i = Asking ope e \<Longrightarrow>
    \<exists>t' labels. (timely_serve S K G)\<^sup>*\<^sup>* t t' \<and> ps_pc (t_ps t') i = Answered ope labels"
proof (induction "to_serve (t_srv t i)" arbitrary: t a rule: less_induct)
  case less
  from serve_advances [OF less.prems(1) S K less.prems(2,3), of G] obtain t1 where t1: "timely_serve S K G t t1"
    "(\<exists>labels. ps_pc (t_ps t1) i = Answered ope labels) \<or>
      ps_pc (t_ps t1) i = Asking ope e \<and> to_serve (t_srv t1 i) < to_serve (t_srv t i)" by blast
  from timely_serve_refines [OF S K G t1(1) less.prems(1)] obtain b where b: "serve_rel S K t1 b" by blast
  have "delivered (t_ps t1)" using t1(1) by (simp add: timely_serve_def)
  with t1(2) less.hyps [OF _ b] have "\<exists>t' labels. (timely_serve S K G)\<^sup>*\<^sup>* t1 t' \<and> ps_pc (t_ps t') i = Answered ope labels"
    by blast
  with t1(1) show ?case by (meson converse_rtranclp_into_rtranclp)
qed

lemma timely_serve_le: "timely_serve S K G \<le> serve_step S K G"
  by (auto simp: timely_serve_def)

lemma timely_serves_steps: "(timely_serve S K G)\<^sup>*\<^sup>* t t' \<Longrightarrow> (serve_step S K G)\<^sup>*\<^sup>* t t'"
  by (rule predicate2D [OF rtranclp_mono [OF timely_serve_le]])

lemma run_of_timely_serve:
  "run_of (serve_step S K G) r k \<Longrightarrow> \<forall>j\<le>k. delivered (t_ps (r j)) \<Longrightarrow> run_of (timely_serve S K G) r k"
  by (simp add: run_of_def timely_serve_def)

text \<open>A run in which every create arrives in time, as the sequence of its states.\<close>

lemma timely_serves_run:
  assumes "(timely_serve S K G)\<^sup>*\<^sup>* t t'" and "delivered (t_ps t)"
  shows "\<exists>r k. run_of (serve_step S K G) r k \<and> r 0 = t \<and> r k = t' \<and> (\<forall>j\<le>k. delivered (t_ps (r j)))"
proof -
  from steps_run_of [OF assms(1)] obtain r k where r: "run_of (timely_serve S K G) r k" "r 0 = t" "r k = t'" by blast
  have "run_of (serve_step S K G) r k" by (rule run_of_mono [OF r(1)]) (simp add: timely_serve_def)
  moreover have "delivered (t_ps (r j))" if "j \<le> k" for j
    by (rule run_of_inv [where I = "\<lambda>t. delivered (t_ps t)", OF r(1) _ _ that]) (simp_all add: assms(2) r(2) timely_serve_def)
  ultimately show ?thesis using r by blast
qed

lemma timely_serves_delivered: "(timely_serve S K G)\<^sup>*\<^sup>* t t' \<Longrightarrow> delivered (t_ps t) \<Longrightarrow> delivered (t_ps t')"
  by (induction rule: rtranclp_induct) (simp_all add: timely_serve_def)

text \<open>The steps of the proxy are steps of the two while nobody asks.\<close>

lemma quiet_serve:
  assumes "proxy_step S K G (t_ps t) s" and "\<And>i ope e. ps_pc (t_ps t) i \<noteq> Asking ope e" and "delivered s"
  shows "timely_serve S K G t (t\<lparr>t_ps := s\<rparr>)"
  using assms serve_step.proxy [OF assms(1)] by (simp add: timely_serve_def)

end
