(* ===== verification/LabelServerProperties.thy ===== *)
theory LabelServerProperties
  imports LabelServerThreads LabelStaleProperties
begin

text \<open>
  The proxy and the server with the threads of both: the lock of the proxy is what makes the unlocked
  steps of the server one access.
\<close>

section \<open>The store\<close>

text \<open>
  C3: the server takes no lock, and its threads read, decrypt, count and write in any interleaving with
  each other and with the threads of the proxy.  Take any run of both, as the sequence of its states,
  on tables and a database that represent a store and a server that runs.  Either at some
  moment of the run a thread of the proxy holds the lock of a key whose create is still on its way
  (C29 shows what goes wrong then); or the run is one of the abstract store, with the same answers,
  and every thread that waits for the server at its end can be answered.
\<close>

theorem server_threads_implement_store:
  assumes "sodium_ok S" and "kvs_ok K" and "\<And>F. F \<in> G \<Longrightarrow> fresh_good S F"
    and "rep S (kv_get K (db sv)) A px" and "running sv" and "\<And>i. length (op_value (ops i)) < 2 ^ 62"
    and "run_of (serve_step S K G) r k" and "r 0 = serve_start px sv ops"
  shows "(\<exists>j\<le>k. \<not> delivered (t_ps (r j))) \<or>
    ((\<exists>a. store_step\<^sup>*\<^sup>* (store_start A ops) a \<and> (\<forall>i. st_pc a i = abs_pc (ps_pc (t_ps (r k)) i))) \<and>
     (\<forall>i ope e. ps_pc (t_ps (r k)) i = Asking ope e \<longrightarrow>
       (\<exists>t' labels. (serve_step S K G)\<^sup>*\<^sup>* (r k) t' \<and> ps_pc (t_ps t') i = Answered ope labels)))"
proof (cases "\<forall>j\<le>k. delivered (t_ps (r j))")
  case True
  from run_of_steps [OF run_of_timely_serve [OF assms(7) True]] assms(8)
  have "(timely_serve S K G)\<^sup>*\<^sup>* (serve_start px sv ops) (r k)" by simp
  from timely_serves_refine [OF assms(1-3) this serve_rel_start [OF assms(4-6)]] obtain a where
    a: "store_step\<^sup>*\<^sup>* (store_start A ops) a" "serve_rel S K (r k) a" by blast
  then have "st_pc a i = abs_pc (ps_pc (t_ps (r k)) i)" for i
    using store_relD(6) [of S K "lin (r k)" a i] by (simp add: serve_rel_def abs_lin_pc)
  moreover have "\<exists>t' labels. (serve_step S K G)\<^sup>*\<^sup>* (r k) t' \<and> ps_pc (t_ps t') i = Answered ope labels"
    if "ps_pc (t_ps (r k)) i = Asking ope e" for i ope e
  proof -
    have "delivered (t_ps (r k))" using True by simp
    from serve_answers [OF assms(1-3) a(2) this that] obtain t' labels where
      "(timely_serve S K G)\<^sup>*\<^sup>* (r k) t'" "ps_pc (t_ps t') i = Answered ope labels" by blast
    then show ?thesis by (blast intro: timely_serves_steps)
  qed
  ultimately show ?thesis using a(1) by blast
qed blast

text \<open>A thread of the proxy that nobody interrupts reaches the server.\<close>

lemma serve_reaches_asking:
  assumes S: "sodium_ok S" and F: "fresh_ok F" "F \<in> G" and pc: "\<And>i. ps_pc (t_ps t) i = Begin (ops i)"
    and mail: "ps_mail (t_ps t) = []"
    and key: "op_key (ops i) \<in> keySet (hlp (ps_px (t_ps t)))" "\<not> locked_out (hlp (ps_px (t_ps t))) (op_key (ops i))"
    and mk: "masterKeys (hlp (ps_px (t_ps t))) (op_key (ops i)) = Some mk" "length mk = KEYBYTES"
    and put: "op_op (ops i) \<noteq> ''GET'' \<Longrightarrow> length (op_value (ops i)) \<le> VALUE_SIZE"
  shows "\<exists>t' e. (timely_serve S K G)\<^sup>*\<^sup>* t t' \<and> ps_pc (t_ps t') i = Asking (ops i) e"
proof -
  let ?ope = "ops i"
  define a where "a = goto i (Want ?ope False) (ps_px (t_ps t)) (t_ps t)"
  define st where "st = snd (exchange (op_key ?ope) False (hlp (ps_px (t_ps t))))"
  define b where "b = goto i (Hold ?ope False) ((ps_px a)\<lparr>hlp := st\<rparr>) a"
  have "masterKeys st (op_key ?ope) = Some mk" using mk(1) by (simp add: st_def)
  from build_rekey [OF S F(1) this mk(2) put] obtain e st1 where build: "build S F ?ope False st = (Inr e, st1)"
    by (auto simp: Let_def)
  define d where "d = goto i (Asking ?ope e) ((ps_px b)\<lparr>hlp := st1\<rparr>) b"
  have empty: "delivered a" "delivered b" "delivered d" using mail by (simp_all add: delivered_def a_def b_def d_def)
  have "proxy_step S K G (t_ps t) a" using proxy_step.check_key [OF pc, of i S K G] key(1) by (simp add: a_def)
  from quiet_serve [OF this _ empty(1)] pc have 1: "timely_serve S K G t (t\<lparr>t_ps := a\<rparr>)" by simp
  have "proxy_step S K G a b"
    using proxy_step.lock [of a i ?ope False st S K G] key(2) by (simp add: a_def b_def st_def exchange_def locked_out_def)
  then have 2: "timely_serve S K G (t\<lparr>t_ps := a\<rparr>) (t\<lparr>t_ps := b\<rparr>)"
    using quiet_serve [of S K G "t\<lparr>t_ps := a\<rparr>" b] pc empty(2) by (simp add: a_def)
  have "proxy_step S K G b d"
    using proxy_step.built [of b i ?ope False F G S e st1 K] F(2) build by (simp add: d_def b_def)
  then have 3: "timely_serve S K G (t\<lparr>t_ps := b\<rparr>) (t\<lparr>t_ps := d\<rparr>)"
    using quiet_serve [of S K G "t\<lparr>t_ps := b\<rparr>" d] pc empty(3) by (simp add: a_def b_def)
  from 1 2 3 have "(timely_serve S K G)\<^sup>*\<^sup>* t (t\<lparr>t_ps := d\<rparr>)" by (meson converse_rtranclp_into_rtranclp rtranclp.rtrancl_refl)
  then show ?thesis by (intro exI [of _ "t\<lparr>t_ps := d\<rparr>"] exI [of _ e]) (simp add: d_def)
qed

text \<open>Every thread asks for the key \<open>5\<close>; the first has got it and is answered.\<close>

theorem server_threads_implement_store_witness:
  "\<exists>t labels a. (serve_step toy_sodium toy_kvs {toy_fresh 9})\<^sup>*\<^sup>*
      (serve_start \<lparr>hlp = toy_tables, accesses = 0, aborted = 0\<rparr> toy_labelled (\<lambda>i. get5)) t \<and>
    (\<exists>e. ps_pc (t_ps t) 0 = Asking get5 e) \<and>
    store_step\<^sup>*\<^sup>* (store_start \<lparr>vals = [''5'' \<mapsto> [104, 105]], avail = key_names, n_done = 0, n_aborted = 0\<rparr> (\<lambda>i. get5)) a \<and>
    st_pc a 0 = Running get5 \<and>
    (\<exists>t'. (serve_step toy_sodium toy_kvs {toy_fresh 9})\<^sup>*\<^sup>* t t' \<and> ps_pc (t_ps t') 0 = Answered get5 labels)"
proof -
  let ?t0 = "serve_start \<lparr>hlp = toy_tables, accesses = 0, aborted = 0\<rparr> toy_labelled (\<lambda>i. get5)"
  let ?step = "serve_step toy_sodium toy_kvs {toy_fresh 9}"
  have G: "\<And>F. F \<in> {toy_fresh 9} \<Longrightarrow> fresh_good toy_sodium F" by (simp add: toy_fresh_good)
  have "length (op_value get5) < 2 ^ 62" by (simp add: get5_def)
  note refines = server_threads_implement_store [where G = "{toy_fresh 9}", OF toy_sodium_ok toy_kvs_ok G toy_tables_rep toy_labelled_simps this]
  have get5: "op_key get5 = ''5''" "op_op get5 = ''GET''" by (simp_all add: get5_def)
  have "\<exists>t e. (timely_serve toy_sodium toy_kvs {toy_fresh 9})\<^sup>*\<^sup>* ?t0 t \<and> ps_pc (t_ps t) 0 = Asking get5 e"
    by (rule serve_reaches_asking [where ops = "\<lambda>i. get5" and F = "toy_fresh 9" and mk = "replicate KEYBYTES 9"])
      (use get5 toy_key in \<open>simp_all add: serve_start_def threads_start_def toy_tables_def toy_sodium_ok toy_fresh_ok locked_out_def
        at_default_def setup_locks_key_names\<close>)
  then obtain t e where t: "(timely_serve toy_sodium toy_kvs {toy_fresh 9})\<^sup>*\<^sup>* ?t0 t" "ps_pc (t_ps t) 0 = Asking get5 e" by blast
  have "delivered (t_ps ?t0)" by (simp add: serve_start_def threads_start_def delivered_def)
  from timely_serves_run [OF t(1) this] obtain r k where r: "run_of ?step r k" "r 0 = ?t0" "r k = t"
    "\<forall>j\<le>k. delivered (t_ps (r j))" by blast
  from refines [OF _ r(1,2)] r(4) have ends:
    "\<exists>a. store_step\<^sup>*\<^sup>* (store_start \<lparr>vals = [''5'' \<mapsto> [104, 105]], avail = key_names, n_done = 0, n_aborted = 0\<rparr> (\<lambda>i. get5)) a \<and>
      (\<forall>i. st_pc a i = abs_pc (ps_pc (t_ps t) i))"
    "\<exists>t' labels. ?step\<^sup>*\<^sup>* t t' \<and> ps_pc (t_ps t') 0 = Answered get5 labels"
    using t(2) unfolding r(3) by (blast, blast)
  moreover have "?step\<^sup>*\<^sup>* ?t0 t" using run_of_steps [OF r(1)] r(2,3) by simp
  moreover have "abs_pc (ps_pc (t_ps t) 0) = Running get5" by (simp add: t(2))
  ultimately show ?thesis using t(2) by metis
qed

end
