(* ===== verification/LabelSignal.thy ===== *)
theory LabelSignal
  imports LabelStale
begin

text \<open>
  SIGINT to the command-line client (\<open>signal_callback_handler\<close> of \<open>ortoa-lbl/client.cpp\<close>, which the
  benchmarks have too): it saves the tables as they are, between any two statements of a turn of the
  loop, and exits.
\<close>

section \<open>The moments of a turn\<close>

text \<open>
  The tables and the server at the moments of a turn of \<open>cli_step\<close>: while the client waits for the command,
  and after each statement that changes the one or the other.
\<close>

definition cli_moments :: "sodium \<Rightarrow> (entry \<Rightarrow> 's \<Rightarrow> 's) \<Rightarrow> (entry \<Rightarrow> 's \<Rightarrow> bytes res \<times> 's) \<Rightarrow> fresh \<Rightarrow> byte \<Rightarrow>
    command \<Rightarrow> helper \<times> 's \<Rightarrow> (helper \<times> 's) list" where
  "cli_moments S create access F c cmd = (\<lambda>(st, sv).
    (st, sv) #
    (if c_key cmd \<notin> keySet st then
       if c_type cmd = GET then []
       else
         (case constructCreateEntry S F (c_key cmd) (c_value cmd) st of
            (Inl er, st1) \<Rightarrow> [(st1, sv)]
          | (Inr createEntry, st1) \<Rightarrow>
              let st2 = set_value_size (c_key cmd) (c_value cmd) st1; st3 = insert_key (c_key cmd) st2
              in [(st1, sv), (st2, sv), (st3, sv), (st3, create createEntry sv)])
     else if c_type cmd = GET then
       (case constructGetEntry S F (c_key cmd) st of
          (Inl er, st1) \<Rightarrow> [(st1, sv)]
        | (Inr getEntry, st1) \<Rightarrow> (st1, sv) #
           (case access getEntry sv of
              (Inl er, sv1) \<Rightarrow> [(st1, sv1)]
            | (Inr labels, sv1) \<Rightarrow> [(st1, sv1), (snd (readValueFromLabels S c (c_key cmd) labels st1), sv1)]))
     else
       (case constructPutEntry S F (c_key cmd) (c_value cmd) st of
          (Inl er, st1) \<Rightarrow> [(st1, sv)]
        | (Inr putEntry, st1) \<Rightarrow>
           let st2 = set_value_size (c_key cmd) (c_value cmd) st1
           in [(st1, sv), (st2, sv), (st2, snd (access putEntry sv))])))"

text \<open>What the next start of the client reads, and the server it finds.\<close>

definition cli_sigint :: "('f \<Rightarrow> saved) \<Rightarrow> (saved \<Rightarrow> 'f) \<Rightarrow> helper \<times> 's \<Rightarrow> helper \<times> 's" where
  "cli_sigint load save = (\<lambda>(st, sv). (OpScureSetup load (Some (OpScureCleanup save st)) helper0, sv))"

text \<open>The moment after the last statement is the end of the turn.\<close>

lemma last_moment:
  "cli_step S create access F c cmd (st, sv) = (Inr out, w) \<Longrightarrow> last (cli_moments S create access F c cmd (st, sv)) = w"
  by (auto simp: cli_step_def cli_moments_def Let_def split: if_splits sum.splits prod.splits)

lemma restart_simps [simp]:
  assumes "\<And>x. load (save x) = x"
  shows "keySet (OpScureSetup load (Some (OpScureCleanup save st)) helper0) = keySet st"
    "valueSizes (OpScureSetup load (Some (OpScureCleanup save st)) helper0) = valueSizes st"
    "masterKeys (OpScureSetup load (Some (OpScureCleanup save st)) helper0) = masterKeys st"
  using assms by (simp_all add: OpScureSetup_def OpScureCleanup_def)

lemma cli_rep_iff:
  "cli_rep S stored V st \<longleftrightarrow> keySet st = dom V \<and> (\<forall>key v. V key = Some v \<longrightarrow> key_rep S stored st key v)"
proof -
  have "key_rep S stored (st\<lparr>locks := l\<rparr>) key v = key_rep S stored st key v" for l key v by (rule key_rep_cong) simp_all
  then show ?thesis by (auto simp: cli_rep_def rep_def unlocked_def free_spec_def at_default_def)
qed

lemma cli_rep_restart:
  assumes "\<And>x. load (save x) = x"
  shows "cli_rep S stored V (OpScureSetup load (Some (OpScureCleanup save st)) helper0) = cli_rep S stored V st"
  using assms by (simp add: cli_rep_iff key_rep_def)

section \<open>What the next start finds\<close>

text \<open>Whoever asks for the key gets an error.\<close>

definition key_lost :: "sodium \<Rightarrow> 'd kvs \<Rightarrow> string \<Rightarrow> helper \<times> 'd server \<Rightarrow> bool" where
  "key_lost S K key w \<longleftrightarrow> key \<in> keySet (fst w) \<and>
    (\<forall>F c. fresh_ok F \<longrightarrow> (\<exists>er w'. cli_step S (kv_create K) (kv_access S K) F c \<lparr>c_type = GET, c_key = key, c_value = []\<rparr> w = (Inl er, w')))"

lemma stale_lost:
  assumes "sodium_ok S" and "running sv" and "stale_key S K sv st key" and "key \<in> keySet st"
  shows "key_lost S K key (st, sv)"
  using stale_cli_step [OF assms(1) _ assms(2-4)] assms(4) by (fastforce simp: key_lost_def)

lemma uncreated_lost:
  assumes S: "sodium_ok S" and "running sv" and "kv_get K (db sv) key = None" and "key \<in> keySet st"
    and mk: "masterKeys st key = Some mk" "length mk = KEYBYTES"
  shows "key_lost S K key (st, sv)"
proof -
  have "cli_step S (kv_create K) (kv_access S K) F c \<lparr>c_type = GET, c_key = key, c_value = []\<rparr> (st, sv) =
      (Inl Undefined, st\<lparr>masterKeys := (masterKeys st)(key \<mapsto> keygen F)\<rparr>, sv)" if "fresh_ok F" for F c
    using constructGetEntry_ok [OF S that mk] kv_access_unknown [OF assms(2), of K] assms(3,4) by (simp add: cli_step_def)
  with assms(4) show ?thesis by (auto simp: key_lost_def)
qed

section \<open>Before, after or lost\<close>

text \<open>The classes of moments, for the tables as they are.\<close>

definition moment_ok :: "sodium \<Rightarrow> 'd kvs \<Rightarrow> (string \<rightharpoonup> bytes) \<Rightarrow> helper \<times> 'd server \<Rightarrow> bool" where
  "moment_ok S K V w \<longleftrightarrow> cli_rep S (kv_get K (db (snd w))) V (fst w)"

text \<open>Tables in which only the records of a key change that the store does not have.\<close>

lemma cli_rep_other:
  assumes "cli_rep S stored V st" and "V key = None" and "keySet st' = keySet st"
    and "\<And>k. k \<noteq> key \<Longrightarrow> masterKeys st' k = masterKeys st k \<and> valueSizes st' k = valueSizes st k"
  shows "cli_rep S stored V st'"
  using assms unfolding cli_rep_iff key_rep_def by (metis option.distinct(1))

text \<open>A known key whose master key has been drawn anew, before the server has seen the entry.\<close>

lemma drawn_stale:
  assumes rep: "cli_rep S (kv_get K (db sv)) V st" and v: "V key = Some v" and F: "fresh_ok F"
    and apart: "\<And>mk. masterKeys st key = Some mk \<Longrightarrow> keys_apart S (keygen F) mk"
    and st': "masterKeys st' key = Some (keygen F)"
  shows "stale_key S K sv st' key"
  using cli_repD(2) [OF rep v] F apart st' unfolding stale_key_def fresh_ok_def by blast

lemma moments_create:
  assumes S: "sodium_ok S" and K: "kvs_ok K" and sv: "running sv" and F: "fresh_good S F"
    and rep: "cli_rep S (kv_get K (db sv)) V st" and new: "V (c_key cmd) = None" "kv_get K (db sv) (c_key cmd) = None"
    and cmd: "c_type cmd = PUT" "length (c_value cmd) \<le> VALUE_SIZE"
    and w: "w \<in> set (cli_moments S (kv_create K) (kv_access S K) F c cmd (st, sv))"
  shows "moment_ok S K V w \<or> moment_ok S K (snd (spec_cmd cmd V)) w \<or> key_lost S K (c_key cmd) w"
proof -
  let ?k = "c_key cmd"
  have F1: "fresh_ok F" using F by (simp add: fresh_good_def)
  then have len: "length (keygen F) = KEYBYTES" by (simp add: fresh_ok_def)
  have unknown: "?k \<notin> keySet st" using rep new(1) by (auto simp: cli_rep_iff)
  obtain e where create: "constructCreateEntry S F ?k (c_value cmd) st =
      (Inr e, st\<lparr>masterKeys := (masterKeys st)(?k \<mapsto> keygen F)\<rparr>)"
    using constructCreateEntry_ok [OF S F1 cmd(2)] by blast
  let ?st1 = "st\<lparr>masterKeys := (masterKeys st)(?k \<mapsto> keygen F)\<rparr>"
  let ?st2 = "set_value_size ?k (c_value cmd) ?st1"
  let ?st3 = "insert_key ?k ?st2"
  from w unknown cmd(1) have cases: "w \<in> {(st, sv), (?st1, sv), (?st2, sv), (?st3, sv), (?st3, kv_create K e sv)}"
    by (simp add: cli_moments_def create Let_def)
  have "cli_rep S (kv_get K (db sv)) V ?st1" by (rule cli_rep_other [OF rep new(1)]) simp_all
  moreover have "cli_rep S (kv_get K (db sv)) V ?st2"
    by (rule cli_rep_other [OF rep new(1)]) (simp_all add: set_value_size_def)
  moreover have "key_lost S K ?k (?st3, sv)"
    by (rule uncreated_lost [where mk = "keygen F", OF S sv new(2)]) (simp_all add: insert_key_def set_value_size_def len)
  moreover have "moment_ok S K (snd (spec_cmd cmd V)) (?st3, kv_create K e sv)"
  proof -
    have "c_type cmd \<noteq> EXIT" using cmd(1) by simp
    from cli_step_refines [OF S K sv F rep this cmd(2), of c] obtain st' sv' where
      step: "cli_step S (kv_create K) (kv_access S K) F c cmd (st, sv) = (Inr (fst (spec_cmd cmd V)), st', sv')"
      and rep': "cli_rep S (kv_get K (db sv')) (snd (spec_cmd cmd V)) st'" by blast
    from last_moment [OF step] unknown cmd(1) have "(st', sv') = (?st3, kv_create K e sv)"
      by (simp add: cli_moments_def create Let_def)
    with rep' show ?thesis by (simp add: moment_ok_def)
  qed
  ultimately show ?thesis using cases rep by (auto simp: moment_ok_def)
qed

lemma moments_access:
  assumes S: "sodium_ok S" and K: "kvs_ok K" and sv: "running sv" and F: "fresh_good S F"
    and rep: "cli_rep S (kv_get K (db sv)) V st" and v: "V (c_key cmd) = Some v"
    and cmd: "c_type cmd \<noteq> EXIT" "length (c_value cmd) \<le> VALUE_SIZE"
    and apart: "\<And>mk. masterKeys st (c_key cmd) = Some mk \<Longrightarrow> keys_apart S (keygen F) mk"
  shows "\<exists>w1 w2 w3. cli_moments S (kv_create K) (kv_access S K) F c cmd (st, sv) = [(st, sv), w1, w2, w3] \<and>
    key_lost S K (c_key cmd) w1 \<and> moment_ok S K (snd (spec_cmd cmd V)) w3 \<and>
    (if c_type cmd = GET then moment_ok S K (snd (spec_cmd cmd V)) w2 else key_lost S K (c_key cmd) w2)"
proof -
  let ?k = "c_key cmd" and ?V = "snd (spec_cmd cmd V)"
  have F1: "fresh_ok F" using F by (simp add: fresh_good_def)
  have known: "?k \<in> keySet st" using cli_repD(1) [OF rep v] .
  obtain n where n: "valueSizes st ?k = Some n" using rep v by (auto simp: cli_rep_iff key_rep_def)
  then have same: "(valueSizes st)(?k \<mapsto> n) = valueSizes st" by (simp add: fun_upd_idem)
  from cli_repD(2) [OF rep v] obtain mk where mk: "masterKeys st ?k = Some mk" "length mk = KEYBYTES" by blast
  let ?st1 = "st\<lparr>masterKeys := (masterKeys st)(?k \<mapsto> keygen F)\<rparr>"
  let ?st2 = "set_value_size ?k (c_value cmd) ?st1"
  have "key_lost S K ?k (?st1, sv)" "key_lost S K ?k (?st2, sv)"
    by (rule stale_lost [OF S sv drawn_stale [OF rep v F1 apart]];
      simp add: known set_value_size_def)+
  note lost = this
  from cli_step_refines [OF S K sv F rep cmd, of c] obtain st' sv' where
    step: "cli_step S (kv_create K) (kv_access S K) F c cmd (st, sv) = (Inr (fst (spec_cmd cmd V)), st', sv')"
    and rep': "cli_rep S (kv_get K (db sv')) ?V st'" by blast
  show ?thesis
  proof (cases "c_type cmd = GET")
    case True
    obtain e where entry: "constructGetEntry S F ?k st = (Inr e, ?st1)"
      using constructGetEntry_ok [OF S F1 mk] by blast
    from step known True entry obtain labels where acc: "kv_access S K e sv = (Inr labels, sv')"
      and st': "st' = snd (readValueFromLabels S c ?k labels ?st1)"
      by (auto simp: cli_step_def split: sum.splits prod.splits)
    have "st' = ?st1" using n by (simp add: st' readValueFromLabels_def same)
    with rep' have "moment_ok S K ?V (?st1, sv')" "moment_ok S K ?V (st', sv')" by (simp_all add: moment_ok_def)
    moreover have "cli_moments S (kv_create K) (kv_access S K) F c cmd (st, sv) =
        [(st, sv), (?st1, sv), (?st1, sv'), (st', sv')]"
      using known True by (simp add: cli_moments_def entry acc st')
    ultimately show ?thesis using lost(1) True by simp
  next
    case False
    obtain e where entry: "constructPutEntry S F ?k (c_value cmd) st = (Inr e, ?st1)"
      using constructPutEntry_ok [OF S F1 cmd(2) mk] by blast
    from step known False entry have "(st', sv') = (?st2, snd (kv_access S K e sv))"
      by (auto simp: cli_step_def Let_def split: sum.splits prod.splits)
    with rep' have "moment_ok S K ?V (?st2, snd (kv_access S K e sv))" by (simp add: moment_ok_def)
    moreover have "cli_moments S (kv_create K) (kv_access S K) F c cmd (st, sv) =
        [(st, sv), (?st1, sv), (?st2, sv), (?st2, snd (kv_access S K e sv))]"
      using known False by (simp add: cli_moments_def entry Let_def)
    ultimately show ?thesis using lost False by simp
  qed
qed

text \<open>The tables are saved and read back.\<close>

lemma moment_ok_sigint:
  assumes "\<And>x. load (save x) = x"
  shows "moment_ok S K V (cli_sigint load save w) = moment_ok S K V w"
  using cli_rep_restart [where load = load and save = save, OF assms] by (cases w) (simp add: moment_ok_def cli_sigint_def)

lemma key_lost_sigint:
  assumes L: "\<And>x. load (save x) = x" and "key_lost S K key w"
  shows "key_lost S K key (cli_sigint load save w)"
proof -
  obtain st sv where w: "w = (st, sv)" by (cases w)
  let ?st = "OpScureSetup load (Some (OpScureCleanup save st)) helper0"
  have "?st = st\<lparr>locks := locks ?st\<rparr>" by (intro helper.equality) (simp_all add: L)
  then obtain l where tables: "?st = st\<lparr>locks := l\<rparr>" by blast
  have "\<exists>er w'. cli_step S (kv_create K) (kv_access S K) F c \<lparr>c_type = GET, c_key = key, c_value = []\<rparr> (?st, sv) = (Inl er, w')"
    if "fresh_ok F" for F c
  proof -
    from assms(2) that obtain er w' where known: "key \<in> keySet st"
      and "cli_step S (kv_create K) (kv_access S K) F c \<lparr>c_type = GET, c_key = key, c_value = []\<rparr> (st, sv) = (Inl er, w')"
      unfolding key_lost_def w fst_conv by blast
    then show ?thesis
      unfolding tables
      by (auto simp: cli_step_def construct_locks records_locks Let_def split: sum.splits prod.splits)
  qed
  with assms show ?thesis by (simp add: key_lost_def w cli_sigint_def)
qed

end
