(* ===== verification/LabelSignalProperties.thy ===== *)
theory LabelSignalProperties
  imports LabelSignal LabelStaleProperties
begin

text \<open>What a SIGINT to the command-line client leaves for its next start.\<close>



end
