(* ===== verification/LabelEstimate.thy ===== *)
theory LabelEstimate
  imports LabelLoad
begin

text \<open>
  \<open>estimate_encryption.cpp\<close>, which times the construction of GET and PUT entries without a server, and the
  parsers of operations that the load generators carry along.
\<close>

section \<open>The keys\<close>

text \<open>One bit of an array of 250 bytes is set; the key is the array read as a C string.\<close>

definition est_entry :: "nat \<Rightarrow> bytes" where
  "est_entry i = (let entry = replicate 250 0 in entry[i div 8 := entry ! (i div 8) OR push_bit (i mod 8) 1])"

definition est_key :: "nat \<Rightarrow> string res" where
  "est_key i = bind_res (string_of_array (est_entry i)) (\<lambda>b. Inr (map (\<lambda>c. char_of (unat c)) b))"

section \<open>The loop\<close>

text \<open>
  The constructors hand their parts to the global \<open>pool\<close>; \<open>pool = False\<close> is the null pointer, through which a
  submission is undefined; the constructors write the new master key only after their submissions have been answered
  (\<open>clientHelper.cpp:261\<close>), so that the tables are as before.
\<close>

definition with_pool :: "bool \<Rightarrow> helper \<Rightarrow> 'a res \<times> helper \<Rightarrow> 'a res \<times> helper" where
  "with_pool pool st r = (if pool then r else (Inl Undefined, st))"

text \<open>One turn; the entries are made and dropped.\<close>

definition est_turn :: "bool \<Rightarrow> sodium \<Rightarrow> fresh \<Rightarrow> fresh \<Rightarrow> nat \<Rightarrow> helper \<Rightarrow> (nat \<times> nat) res \<times> helper" where
  "est_turn pool S F F' i st =
    (case est_key i of
       Inl er \<Rightarrow> (Inl er, st)
     | Inr str_entry \<Rightarrow>
        (case with_pool pool st (constructGetEntry S F str_entry st) of
           (Inl er, st) \<Rightarrow> (Inl er, st)
         | (Inr getEntry, st) \<Rightarrow>
            (case with_pool pool st (constructPutEntry S F' str_entry (to_bytes ''2'') st) of
               (Inl er, st) \<Rightarrow> (Inl er, st)
             | (Inr putEntry, st) \<Rightarrow> (Inr (1, 1), st))))"

text \<open>The result counts the times taken for GETs and PUTs before the loop ended, and how it ended.\<close>

fun est_loop :: "bool \<Rightarrow> sodium \<Rightarrow> (nat \<Rightarrow> fresh) \<Rightarrow> (nat \<Rightarrow> fresh) \<Rightarrow> nat list \<Rightarrow> nat \<times> nat \<Rightarrow> helper \<Rightarrow>
    (nat \<times> nat) \<times> error option \<times> helper" where
  "est_loop pool S F F' [] taken st = (taken, None, st)"
| "est_loop pool S F F' (i # is) (gets, puts) st =
    (case est_turn pool S (F i) (F' i) i st of
       (Inl er, st) \<Rightarrow> ((gets, puts), Some er, st)
     | (Inr (g, p), st) \<Rightarrow> est_loop pool S F F' is (gets + g, puts + p) st)"

text \<open>\<open>main\<close> sets up neither the tables nor the pool.\<close>

definition est_main :: "sodium \<Rightarrow> (nat \<Rightarrow> fresh) \<Rightarrow> (nat \<Rightarrow> fresh) \<Rightarrow> (nat \<times> nat) \<times> error option \<times> helper" where
  "est_main S F F' = est_loop False S F F' [0..<2000] (0, 0) helper0"

section \<open>What is measured\<close>

lemma filter_upt_from: "k \<le> n \<Longrightarrow> filter (\<lambda>i. k \<le> i) [0..<n] = [k..<n]"
  by (induction n) (auto simp: le_Suc_eq filter_empty_conv)

lemma string_of_est_entry:
  assumes "i < 2000"
  shows "string_of_array (est_entry i) = Inr (if i < 8 then [push_bit i 1] else [])"
proof -
  have index: "i div 8 < 250" using assms by simp
  have entry: "est_entry i = (replicate 250 0)[i div 8 := push_bit (i mod 8) 1]" using index by (simp add: est_entry_def)
  let ?b = "push_bit (i mod 8) 1 :: byte"
  have cells: "replicate 250 0 = 0 # replicate 249 (0 :: byte)" using replicate_Suc [of 249 "0 :: byte"] by simp
  show ?thesis
  proof (cases "i < 8")
    case True
    have "bit (push_bit i 1 :: byte) i" using True by (simp add: bit_simps)
    then have "?b \<noteq> 0" using True by auto
    have "est_entry i = ?b # replicate 249 0" using True unfolding entry cells by simp
    with True \<open>?b \<noteq> 0\<close> show ?thesis by (simp add: string_of_array_def)
  next
    case False
    then have "est_entry i = 0 # (replicate 249 0)[i div 8 - 1 := ?b]"
      unfolding entry cells by (cases "i div 8") simp_all
    with False show ?thesis by (simp add: string_of_array_def)
  qed
qed

lemma est_key_cases: "i < 2000 \<Longrightarrow> est_key i = Inr (if i < 8 then [char_of (unat (push_bit i 1 :: byte))] else [])"
  by (simp add: est_key_def string_of_est_entry bind_res_simps)

text \<open>With a pool, and with a master key for every key the loop asks for, a turn runs through.\<close>

definition est_ready :: "helper \<Rightarrow> bool" where
  "est_ready st \<longleftrightarrow> (\<forall>i < 2000. \<forall>key. est_key i = Inr key \<longrightarrow> (\<exists>mk. masterKeys st key = Some mk \<and> length mk = KEYBYTES))"

lemma est_turn_ready:
  assumes S: "sodium_ok S" and F: "fresh_ok F" "fresh_ok F'" and i: "i < 2000" and st: "est_ready st"
  shows "\<exists>st'. est_turn True S F F' i st = (Inr (1, 1), st') \<and> est_ready st'"
proof -
  obtain key where key: "est_key i = Inr key" using est_key_cases [OF i] by simp
  with st i obtain mk where mk: "masterKeys st key = Some mk" "length mk = KEYBYTES" unfolding est_ready_def by blast
  let ?st = "st\<lparr>masterKeys := (masterKeys st)(key \<mapsto> keygen F)\<rparr>"
  let ?st' = "?st\<lparr>masterKeys := (masterKeys ?st)(key \<mapsto> keygen F')\<rparr>"
  have len: "length (keygen F) = KEYBYTES" "length (keygen F') = KEYBYTES" using F by (simp_all add: fresh_ok_def)
  have "length (to_bytes ''2'') \<le> VALUE_SIZE" by (simp add: to_bytes_def layout)
  from constructGetEntry_ok [OF S F(1) mk] constructPutEntry_ok [OF S F(2) this, of ?st key "keygen F"] len
  have "est_turn True S F F' i st = (Inr (1, 1), ?st')" by (simp add: est_turn_def key with_pool_def)
  moreover have "est_ready ?st'" using st len unfolding est_ready_def by auto
  ultimately show ?thesis by blast
qed

lemma est_loop_ready:
  assumes S: "sodium_ok S" and F: "\<And>i. fresh_ok (F i)" "\<And>i. fresh_ok (F' i)"
  shows "\<forall>i \<in> set ks. i < 2000 \<Longrightarrow> est_ready st \<Longrightarrow>
    \<exists>st'. est_loop True S F F' ks (gets, puts) st = ((gets + length ks, puts + length ks), None, st')"
proof (induction ks arbitrary: gets puts st)
  case (Cons i ks)
  from est_turn_ready [OF S F(1) [of i] F(2) [of i], of i st] Cons.prems obtain st1 where
    "est_turn True S (F i) (F' i) i st = (Inr (1, 1), st1)" "est_ready st1" by auto
  with Cons.IH [of st1 "gets + 1" "puts + 1"] Cons.prems show ?case by auto
qed simp

section \<open>Parsers\<close>

text \<open>
  The parser of \<open>clients.cpp\<close> fills an operation of the proxy, that of \<open>benchmark.cpp\<close> (and of
  \<open>estimate_encryption.cpp\<close>, word for word) a command without EXIT.  The programs do not call them; they read
  what the command line of \<open>client.cpp\<close> reads.  An extraction that finds no word leaves its string as it is,
  and \<open>clients.cpp\<close> has one string for all words.
\<close>

definition take_word :: "string \<Rightarrow> string \<Rightarrow> string \<times> string" where
  "take_word tmp cin = (let (w, cin) = next_word cin in (if w = [] then tmp else w, cin))"

definition clients_parseOperation :: "string \<Rightarrow> operation \<times> string" where
  "clients_parseOperation cin =
    (let (tmp, cin) = take_word [] cin in
     if tmp = ''EXIT'' then (\<lparr>op_op = ''EXIT'', op_key = [], op_value = []\<rparr>, cin)
     else
       let x = (if tmp = ''PUT'' then ''PUT'' else ''GET''); (tmp, cin) = take_word tmp cin; key = tmp in
       if x = ''PUT'' then let (tmp, cin) = take_word tmp cin in (\<lparr>op_op = x, op_key = key, op_value = to_bytes tmp\<rparr>, cin)
       else (\<lparr>op_op = x, op_key = key, op_value = []\<rparr>, cin))"

definition bm_parseOperation :: "string \<Rightarrow> command \<times> string" where
  "bm_parseOperation cin =
    (let (tmp, cin) = next_word cin; t = (if tmp = ''PUT'' then PUT else GET); (key, cin) = next_word cin in
     if t = PUT then let (v, cin) = next_word cin in (\<lparr>c_type = t, c_key = key, c_value = to_bytes v\<rparr>, cin)
     else (\<lparr>c_type = t, c_key = key, c_value = []\<rparr>, cin))"

lemma clients_parseOperation_eq:
  assumes "parseOperation cin = (cmd, cin')" and "c_key cmd \<noteq> []" and "c_type cmd = PUT \<Longrightarrow> c_value cmd \<noteq> []"
  shows "clients_parseOperation cin = (command_op cmd, cin')"
  using assms
  by (auto simp: clients_parseOperation_def parseOperation_def command_op_def take_word_def to_bytes_def Let_def
      split: prod.splits if_splits)

text \<open>Where words are missing it makes up others: the key of a GET without a key is \<open>GET\<close>.\<close>

lemma clients_parse_short: "clients_parseOperation ''GET'' = (\<lparr>op_op = ''GET'', op_key = ''GET'', op_value = []\<rparr>, [])"
  by code_simp

lemma bm_parseOperation_eq:
  "fst (next_word cin) \<noteq> ''EXIT'' \<Longrightarrow> bm_parseOperation cin = parseOperation cin"
  by (auto simp: bm_parseOperation_def parseOperation_def Let_def split: prod.split)

text \<open>What is typed for the command line is read by all of them.\<close>

lemma all_parse_typed:
  assumes "typed (cmd, v)"
  shows "clients_parseOperation (show_command cmd v @ s) = (command_op cmd, CHR 0x0A # s)"
    and "bm_parseOperation (show_command cmd v @ s) = (cmd, CHR 0x0A # s)"
proof -
  have cmd: "c_type cmd \<noteq> EXIT" using assms by (simp add: typed_def)
  have words: "c_key cmd \<noteq> []" "c_type cmd = PUT \<Longrightarrow> c_value cmd \<noteq> []"
    using assms by (auto simp: typed_def a_word_def to_bytes_def split: if_splits)
  show "clients_parseOperation (show_command cmd v @ s) = (command_op cmd, CHR 0x0A # s)"
    by (rule clients_parseOperation_eq [OF parse_show [OF assms] words])
  have "fst (next_word (show_command cmd v @ s)) \<noteq> ''EXIT''"
    using parse_show [OF assms, of s] cmd by (auto simp: parseOperation_def split: prod.splits)
  with parse_show [OF assms, of s] show "bm_parseOperation (show_command cmd v @ s) = (cmd, CHR 0x0A # s)"
    by (simp add: bm_parseOperation_eq)
qed

end
