(* ===== verification/LabelEstimateProperties.thy ===== *)
theory LabelEstimateProperties
  imports LabelEstimate LabelExamples
begin

text \<open>What \<open>estimate_encryption.cpp\<close> measures.\<close>

text \<open>
  C36: the estimate of the encryption times measures nothing.  \<open>main\<close> makes no pool, so that its first
  entry is submitted through a null pointer, before any time is taken.  With a pool and with master
  keys for its keys the loop would take its 2000 times each, but all but 8 of them for the empty key: the
  array in which it sets bit \<open>i\<close> is read as a C string, which ends at the first byte without a bit.
\<close>

theorem estimate_measures_nothing:
  assumes "sodium_ok S" and "\<And>i. fresh_ok (F i)" and "\<And>i. fresh_ok (F' i)" and "est_ready st"
  shows "est_main S F F' = ((0, 0), Some Undefined, helper0) \<and>
    (\<exists>st'. est_loop True S F F' [0..<2000] (0, 0) st = ((2000, 2000), None, st')) \<and>
    length (filter (\<lambda>i. est_key i = Inr []) [0..<2000]) = 1992"
proof -
  have "est_main S F F' = ((0, 0), Some Undefined, helper0)"
  proof -
    have "[0..<2000 :: nat] = 0 # [1..<2000]" using upt_conv_Cons [of 0 2000] by simp
    moreover have "est_turn False S (F 0) (F' 0) 0 helper0 = (Inl Undefined, helper0)"
      by (simp add: est_turn_def est_key_cases with_pool_def)
    ultimately show ?thesis by (simp only: est_main_def est_loop.simps prod.case sum.case)
  qed
  moreover have "\<exists>st'. est_loop True S F F' [0..<2000] (0, 0) st = ((2000, 2000), None, st')"
  proof -
    have "\<forall>i \<in> set [0..<n]. i < n" and "length [0..<n] = n" for n :: nat by simp_all
    from est_loop_ready [where F = F and F' = F' and gets = 0 and puts = 0, OF assms(1-3) this(1) assms(4), unfolded this(2)]
    show ?thesis by (simp only: add_0)
  qed
  moreover have "length (filter (\<lambda>i. est_key i = Inr []) [0..<2000]) = 1992"
  proof -
    have "filter (\<lambda>i. est_key i = Inr []) [0..<n] = filter (\<lambda>i. 8 \<le> i) [0..<n]" if "n \<le> 2000" for n
      using that by (intro filter_cong) (auto simp: est_key_cases)
    from this [of 2000] filter_upt_from [of 8 2000] have "length (filter (\<lambda>i. est_key i = Inr []) [0..<2000]) = length [8..<2000 :: nat]"
      by (simp only: order_refl simp_thms)
    then show ?thesis by (simp only: length_upt)
  qed
  ultimately show ?thesis by blast
qed

text \<open>Tables with one master key for all.\<close>

theorem estimate_measures_nothing_witness:
  "fst (snd (est_main toy_sodium (\<lambda>i. toy_fresh 9) (\<lambda>i. toy_fresh 8))) = Some Undefined \<and>
    fst (est_loop True toy_sodium (\<lambda>i. toy_fresh 9) (\<lambda>i. toy_fresh 8) [0..<2000] (0, 0)
      (helper0\<lparr>masterKeys := (\<lambda>_. Some (replicate KEYBYTES 7))\<rparr>)) = (2000, 2000)"
  using estimate_measures_nothing [where S = toy_sodium and F = "\<lambda>i. toy_fresh 9" and F' = "\<lambda>i. toy_fresh 8"
      and st = "helper0\<lparr>masterKeys := (\<lambda>_. Some (replicate KEYBYTES 7))\<rparr>"]
  by (auto simp: toy_sodium_ok toy_fresh_ok est_ready_def)

end
