(* ===== verification/LabelReports.thy ===== *)
theory LabelReports
  imports LabelBench
begin

text \<open>
  What the load generators compute from their latencies: sums of \<open>float\<close>s.  A latency is a number of
  microseconds; every sum here is a natural number, so that rounding to the format is all that the
  arithmetic does besides.  The last division and the printing of its six digits are left out: a report
  has the dividend and the divisor.
\<close>

section \<open>Rounding\<close>

fun bit_length :: "nat \<Rightarrow> nat" where
  "bit_length n = (if n = 0 then 0 else Suc (bit_length (n div 2)))"

declare bit_length.simps [simp del]

text \<open>A natural number rounded to \<open>p\<close> significant bits, ties to even; 24 bits are a \<open>float\<close>, 53 a \<open>double\<close>.\<close>

definition fl :: "nat \<Rightarrow> nat \<Rightarrow> nat" where
  "fl p n = (let s = bit_length n - p; q = n div 2 ^ s; r = n mod 2 ^ s in
     (if 2 ^ s < 2 * r \<or> 2 * r = 2 ^ s \<and> odd q then q + 1 else q) * 2 ^ s)"

lemma bit_length_le: "n < 2 ^ p \<Longrightarrow> bit_length n \<le> p"
proof (induction p arbitrary: n)
  case (Suc p)
  then have "n div 2 < 2 ^ p" by auto
  with Suc.IH [of "n div 2"] show ?case by (subst bit_length.simps) simp
qed (simp add: bit_length.simps)

lemma bit_length_power: "bit_length (2 ^ p) = Suc p"
proof (induction p)
  case (Suc p)
  then show ?case by (subst bit_length.simps) simp
qed (simp add: bit_length.simps)

lemma fl_exact: "n \<le> 2 ^ p \<Longrightarrow> 0 < p \<Longrightarrow> fl p n = n"
proof (cases "n = 2 ^ p")
  case True
  assume "0 < p"
  then obtain k where "p = Suc k" by (cases p) simp_all
  moreover have "bit_length n - p = 1" using True bit_length_power [of p] by simp
  ultimately show ?thesis using True by (simp add: fl_def)
next
  case False
  assume "n \<le> 2 ^ p"
  with False have "bit_length n - p = 0" using bit_length_le [of n p] by simp
  then show ?thesis by (simp add: fl_def)
qed

section \<open>Sums\<close>

text \<open>
  \<open>std::accumulate\<close> from the \<open>int\<close> 0: each turn converts to \<open>float\<close>, adds and converts back, which is undefined
  for a sum that is no \<open>int\<close>; and from the \<open>double\<close> 0.0.
\<close>

fun accumulate_int :: "nat list \<Rightarrow> nat \<Rightarrow> nat res" where
  "accumulate_int [] a = Inr a"
| "accumulate_int (x # xs) a =
    (let s = fl 24 (fl 24 a + x) in if s < 2 ^ 31 then accumulate_int xs s else Inl Undefined)"

definition accumulate_double :: "nat list \<Rightarrow> nat" where
  "accumulate_double xs = foldl (\<lambda>a x. fl 53 (a + x)) 0 xs"

text \<open>\<open>clients.cpp\<close>: the average is over the 100 operations each client should have done.\<close>

definition clients_report :: "nat list list \<Rightarrow> (nat \<times> nat) res" where
  "clients_report latencies =
    bind_res (map_res (\<lambda>l. bind_res (accumulate_int (map (fl 24) l) 0) (\<lambda>t. Inr (fl 24 t))) latencies)
      (\<lambda>totals. Inr (accumulate_double totals, NUM_CLIENTS * 100))"

text \<open>\<open>concurrent_benchmark.cpp\<close>: \<open>total_time\<close> is a \<open>float\<close> that sums of \<open>double\<close>s are added to.\<close>

definition cb_report :: "nat list list \<Rightarrow> nat \<times> nat" where
  "cb_report stats = foldl (\<lambda>(total_time, total_ops) stat.
     (fl 24 (fl 53 (total_time + accumulate_double (map (fl 24) stat))), total_ops + length stat)) (0, 0) stats"

text \<open>\<open>benchmark.cpp\<close>: an average each for six vectors.\<close>

definition bm_report :: "nat list list \<Rightarrow> (nat \<times> nat) list" where
  "bm_report = map (\<lambda>ts. (accumulate_double (map (fl 24) ts), length ts))"

section \<open>Exact sums\<close>

lemma accumulate_int_exact:
  "a + sum_list xs \<le> 2 ^ 24 \<Longrightarrow> accumulate_int xs a = Inr (a + sum_list xs)"
proof (induction xs arbitrary: a)
  case (Cons x xs)
  then have "fl 24 a = a" "fl 24 (a + x) = a + x" by (simp_all add: fl_exact)
  moreover have "a + x < 2 ^ 31" using Cons.prems by simp
  ultimately show ?case using Cons.IH [of "a + x"] Cons.prems by (simp add: Let_def add.assoc)
qed simp

lemma accumulate_double_exact: "sum_list xs \<le> 2 ^ 53 \<Longrightarrow> accumulate_double xs = sum_list xs"
proof -
  have "a + sum_list xs \<le> 2 ^ 53 \<Longrightarrow> foldl (\<lambda>a x. fl 53 (a + x)) a xs = a + sum_list xs" for a
  proof (induction xs arbitrary: a)
    case (Cons x xs)
    then have "fl 53 (a + x) = a + x" by (simp add: fl_exact)
    with Cons.IH [of "a + x"] Cons.prems show ?case by (simp add: add.assoc)
  qed simp
  from this [of 0] show "sum_list xs \<le> 2 ^ 53 \<Longrightarrow> accumulate_double xs = sum_list xs"
    by (simp add: accumulate_double_def)
qed

lemma map_fl_exact: "sum_list xs \<le> 2 ^ 24 \<Longrightarrow> map (fl 24) xs = xs"
  by (rule map_idI, rule fl_exact) (auto dest: member_le_sum_list)

lemma clients_report_exact:
  assumes "\<forall>l \<in> set latencies. sum_list l \<le> 2 ^ 24" and "length latencies \<le> 2 ^ 29"
  shows "clients_report latencies = Inr (\<Sum>l\<leftarrow>latencies. sum_list l, NUM_CLIENTS * 100)"
proof -
  have "map_res (\<lambda>l. bind_res (accumulate_int (map (fl 24) l) 0) (\<lambda>t. Inr (fl 24 t))) latencies = Inr (map sum_list latencies)"
    using assms(1) by (intro map_res_Inr) (simp add: map_fl_exact accumulate_int_exact bind_res_simps fl_exact)
  moreover have "sum_list (map sum_list latencies) \<le> length latencies * 2 ^ 24"
    using assms(1) by (induction latencies) auto
  with assms(2) have "sum_list (map sum_list latencies) \<le> 2 ^ 53" by simp
  ultimately show ?thesis by (simp add: clients_report_def bind_res_simps accumulate_double_exact)
qed

text \<open>The other reports are exact as long as the sum of all latencies is a \<open>float\<close>.\<close>

lemma cb_report_exact:
  assumes "(\<Sum>l\<leftarrow>stats. sum_list l) \<le> 2 ^ 24"
  shows "cb_report stats = (\<Sum>l\<leftarrow>stats. sum_list l, \<Sum>l\<leftarrow>stats. length l)"
proof -
  let ?f = "\<lambda>(total_time, total_ops) stat.
    (fl 24 (fl 53 (total_time + accumulate_double (map (fl 24) stat))), total_ops + length stat)"
  have "t + (\<Sum>l\<leftarrow>stats. sum_list l) \<le> 2 ^ 24 \<Longrightarrow>
    foldl ?f (t, n) stats = (t + (\<Sum>l\<leftarrow>stats. sum_list l), n + (\<Sum>l\<leftarrow>stats. length l))" for t n
  proof (induction stats arbitrary: t n)
    case (Cons l ls)
    then have le: "sum_list l \<le> 2 ^ 24" "t + sum_list l \<le> 2 ^ 24" by simp_all
    have "t + sum_list l \<le> 2 ^ 53" by (rule order_trans [OF le(2)]) simp
    moreover have "accumulate_double l = sum_list l" by (rule accumulate_double_exact, rule order_trans [OF le(1)]) simp
    ultimately have "?f (t, n) l = (t + sum_list l, n + length l)"
      using le by (simp add: map_fl_exact fl_exact)
    with Cons.IH [of "t + sum_list l" "n + length l"] Cons.prems show ?case by (simp add: add.assoc)
  qed simp
  from this [of 0 0] assms show ?thesis by (simp add: cb_report_def)
qed

lemma bm_report_exact:
  "\<forall>ts \<in> set tss. sum_list ts \<le> 2 ^ 24 \<Longrightarrow> bm_report tss = map (\<lambda>ts. (sum_list ts, length ts)) tss"
proof -
  assume "\<forall>ts \<in> set tss. sum_list ts \<le> 2 ^ 24"
  moreover have "accumulate_double (map (fl 24) ts) = sum_list ts" if "sum_list ts \<le> 2 ^ 24" for ts
  proof -
    have "sum_list ts \<le> 2 ^ 53" by (rule order_trans [OF that]) simp
    with that show ?thesis by (simp add: map_fl_exact accumulate_double_exact)
  qed
  ultimately show ?thesis by (simp add: bm_report_def)
qed

text \<open>Where the sum of a client of \<open>clients.cpp\<close> has reached \<open>2 ^ 24\<close> microseconds, a latency of one microsecond is lost.\<close>

lemma fl_stuck: "fl 24 (2 ^ 24 + 1) = 2 ^ 24"
proof -
  have "bit_length (2 ^ 24 + 1) = 25" by (simp add: bit_length.simps)
  then have "bit_length (2 ^ 24 + 1) - 24 = 1" by (simp only:)
  then show ?thesis unfolding fl_def Let_def by simp
qed

lemma accumulate_int_stuck: "accumulate_int (replicate k 1) (2 ^ 24) = Inr (2 ^ 24)"
proof (induction k)
  case (Suc k)
  have "fl 24 (2 ^ 24) = 2 ^ 24" by (rule fl_exact) simp_all
  with fl_stuck have "fl 24 (fl 24 (2 ^ 24) + 1) = 2 ^ 24" by (simp only:)
  moreover have "(2 :: nat) ^ 24 < 2 ^ 31" by simp
  ultimately show ?case unfolding replicate_Suc accumulate_int.simps Let_def by (simp only: if_True Suc.IH)
qed simp

end
