(* ===== verification/PoolFutures.thy ===== *)
theory PoolFutures
  imports PoolLoopRuns
begin

text \<open>
  \<open>multi_future\<close> and the promises of \<open>submit\<close> (\<open>ortoa-lbl/BS_thread_pool.hpp\<close>): the results of the blocks of a
  loop, or the exceptions they throw, as the thread that submitted the loop gets them.
\<close>

section \<open>Promises and futures\<close>

text \<open>
  A promise belongs to a task.  The task that \<open>submit\<close> wraps around a function sets it to the value the
  function returns or to the exception it throws.
\<close>

datatype 'r promise = NotReady | Value 'r | Thrown error

fun set_promise :: "'r res \<Rightarrow> 'r promise" where
  "set_promise (Inr v) = Value v"
| "set_promise (Inl er) = Thrown er"

text \<open>A future is that of a task, or has been moved from or never set.\<close>

type_synonym multi_future = "nat option list"

definition mf_new :: "nat \<Rightarrow> multi_future" where
  "mf_new n = replicate n None"

text \<open>Assigning to an element; an index that is not below the size is undefined.\<close>

definition mf_assign :: "nat \<Rightarrow> nat \<Rightarrow> multi_future \<Rightarrow> multi_future res" where
  "mf_assign i t mf = (if i < length mf then Inr (mf[i := Some t]) else Inl Undefined)"

definition mf_push_back :: "nat \<Rightarrow> multi_future \<Rightarrow> multi_future" where
  "mf_push_back t mf = mf @ [Some t]"

definition mf_size :: "multi_future \<Rightarrow> nat" where
  "mf_size mf = length mf"

text \<open>
  \<open>get\<close>: each future in turn gives its value or throws, and is invalid then; \<open>None\<close> is a \<open>get\<close> that waits.  To get
  from an invalid future is undefined.
\<close>

fun mf_get :: "(nat \<Rightarrow> 'r promise) \<Rightarrow> multi_future \<Rightarrow> ('r list res \<times> multi_future) option" where
  "mf_get pr [] = Some (Inr [], [])"
| "mf_get pr (None # mf) = Some (Inl Undefined, None # mf)"
| "mf_get pr (Some t # mf) =
    (case pr t of
       NotReady \<Rightarrow> None
     | Thrown er \<Rightarrow> Some (Inl er, None # mf)
     | Value v \<Rightarrow>
         (case mf_get pr mf of
            None \<Rightarrow> None
          | Some (Inl er, mf) \<Rightarrow> Some (Inl er, None # mf)
          | Some (Inr vs, mf) \<Rightarrow> Some (Inr (v # vs), None # mf)))"

text \<open>The loop that submits the blocks: future \<open>i\<close> is that of task \<open>i\<close>.\<close>

fun mf_fill :: "nat list \<Rightarrow> multi_future \<Rightarrow> multi_future res" where
  "mf_fill [] mf = Inr mf"
| "mf_fill (i # ts) mf = bind_res (mf_assign i i mf) (mf_fill ts)"

lemma mf_fill_upt: "mf_fill [k..<k + m] (map Some [0..<k] @ replicate m None) = Inr (map Some [0..<k + m])"
proof (induction m arbitrary: k)
  case (Suc m)
  have "mf_assign k k (map Some [0..<k] @ replicate (Suc m) None) = Inr (map Some [0..<Suc k] @ replicate m None)"
    by (simp add: mf_assign_def list_update_append)
  moreover have "[k..<k + Suc m] = k # [Suc k..<Suc k + m]" by (simp add: upt_rec)
  ultimately show ?case using Suc.IH [of "Suc k"] by (simp del: upt_Suc)
qed simp

lemma mf_filled: "mf_fill [0..<n] (mf_new n) = Inr (map Some [0..<n])"
  using mf_fill_upt [of 0 n] by (simp add: mf_new_def)

section \<open>What get returns\<close>

text \<open>The promises of the tasks with the outcomes \<open>outs\<close>, when those of \<open>ex_ready\<close> are set.\<close>

definition promises :: "'r res list \<Rightarrow> exec \<Rightarrow> nat \<Rightarrow> 'r promise" where
  "promises outs e t = (if t \<in> ex_ready e \<and> t < length outs then set_promise (outs ! t) else NotReady)"

lemma mf_get_outcomes:
  assumes "\<And>t. t \<in> set ts \<Longrightarrow> pr t = NotReady \<or> pr t = set_promise (f t)" and "mf_get pr (map Some ts) = Some (r, mf)"
  shows "r = map_res f ts"
  using assms
proof (induction ts arbitrary: r mf)
  case (Cons t ts)
  show ?case
  proof (cases "f t")
    case (Inl er)
    with Cons.prems(1) [of t] Cons.prems(2) show ?thesis by auto
  next
    case (Inr v)
    with Cons.prems(1) [of t] Cons.prems(2) have pr: "pr t = Value v" by auto
    with Cons.prems(2) obtain r' mf' where rest: "mf_get pr (map Some ts) = Some (r', mf')"
      by (auto split: option.splits)
    with Cons.IH [OF _ rest] Cons.prems(1) have eq: "map_res f ts = r'" by simp
    show ?thesis
    proof (cases r')
      case (Inl er)
      with eq have "map_res f ts = Inl er" by simp
      moreover have "r = Inl er" using Cons.prems(2) rest pr Inl by simp
      ultimately show ?thesis using \<open>f t = Inr v\<close> by (simp add: bind_res_simps)
    next
      case (Inr vs)
      with eq have "map_res f ts = Inr vs" by simp
      moreover have "r = Inr (v # vs)" using Cons.prems(2) rest pr Inr by simp
      ultimately show ?thesis using \<open>f t = Inr v\<close> by (simp add: bind_res_simps)
    qed
  qed
qed simp

lemma mf_get_ready:
  "(\<And>t. t \<in> set ts \<Longrightarrow> pr t \<noteq> NotReady) \<Longrightarrow> mf_get pr (map Some ts) \<noteq> None"
  by (induction ts) (auto split: promise.split sum.split)

text \<open>The values can be got once.\<close>

lemma mf_get_once:
  "mf_get pr mf = Some (Inr vs, mf') \<Longrightarrow> mf' = replicate (length mf) None"
  by (induction pr mf arbitrary: vs mf' rule: mf_get.induct)
    (auto split: promise.splits option.splits sum.splits)

lemma mf_get_again: "mf \<noteq> [] \<Longrightarrow> mf_get pr (replicate (length mf) None) = Some (Inl Undefined, replicate (length mf) None)"
  by (cases mf) simp_all

section \<open>Loops with results\<close>

text \<open>A \<open>for\<close> loop over a block whose body gives a value or throws.\<close>

definition for_values :: "(nat \<Rightarrow> 'r res) \<Rightarrow> size_t \<Rightarrow> size_t \<Rightarrow> 'r list res" where
  "for_values body s e = map_res body [unat s..<unat e]"

lemma map_res_append:
  "map_res f (xs @ ys) = bind_res (map_res f xs) (\<lambda>us. bind_res (map_res f ys) (\<lambda>vs. Inr (us @ vs)))"
  by (induction xs) (auto simp: bind_res_def split: sum.splits)

lemma for_values_concat:
  "bind_res (map_res (\<lambda>(s, e). for_values body s e) bs) (\<lambda>vss. Inr (concat vss)) =
    map_res body (concat (map (\<lambda>(s, e). [unat s..<unat e]) bs))"
proof (induction bs)
  case (Cons b bs)
  obtain s e where b: "b = (s, e)" by (cases b)
  show ?case
    unfolding list.map concat.simps map_res_append Cons.IH [symmetric] b prod.case map_res.simps for_values_def [symmetric]
    by (auto simp: bind_res_def split: sum.splits)
qed simp

text \<open>The blocks of a loop, one after the other, give what the loop gives.\<close>

lemma loop_outcomes:
  assumes "first \<le> after" and "parallelize_loop (determine_thread_count hardware threads) first after (for_values body) n = Inr (outs, mf)"
  shows "mf = [0..<length outs]"
    and "bind_res (map_res (\<lambda>t. outs ! t) [0..<length outs]) (\<lambda>vss. Inr (concat vss)) = map_res body [unat first..<unat after]"
proof -
  obtain bs where bs: "loop_blocks (determine_thread_count hardware threads) first after n = Inr bs"
    "concat (map (\<lambda>(s, e). [unat s..<unat e]) bs) = [min (unat first) (unat after)..<max (unat first) (unat after)]"
    using loop_blocks_cover by blast
  from assms(2) bs(1) have outs: "outs = map (\<lambda>(s, e). for_values body s e) bs" and mf: "mf = [0..<length bs]"
    by (simp_all add: parallelize_loop_def bind_res_simps)
  then show "mf = [0..<length outs]" by simp
  have le: "unat first \<le> unat after" using assms(1) by (simp add: word_le_nat_alt)
  have "map_res (\<lambda>t. outs ! t) [0..<length outs] = map_res (\<lambda>(s, e). for_values body s e) bs"
  proof -
    have comp: "map_res f (map g xs) = map_res (\<lambda>x. f (g x)) xs" for f :: "'c \<Rightarrow> 'd res" and g :: "'e \<Rightarrow> 'c" and xs
      by (induction xs) simp_all
    have "map_res (\<lambda>x. x) outs = map_res (\<lambda>t. outs ! t) [0..<length outs]"
      using comp [of "\<lambda>x. x" "(!) outs" "[0..<length outs]"] by (simp add: map_nth)
    moreover have "map_res (\<lambda>x. x) outs = map_res (\<lambda>(s, e). for_values body s e) bs" by (simp only: outs comp)
    ultimately show ?thesis by simp
  qed
  then show "bind_res (map_res (\<lambda>t. outs ! t) [0..<length outs]) (\<lambda>vss. Inr (concat vss)) = map_res body [unat first..<unat after]"
    using for_values_concat [of body bs] bs(2) le by (simp add: min_absorb1 max_absorb2)
qed

end
