(* ===== verification/PoolFutureProperties.thy ===== *)
theory PoolFutureProperties
  imports PoolFutures ThreadPoolProperties
begin

text \<open>The results of a loop on the pool.\<close>

text \<open>From every state of a running pool \<open>get\<close> of the futures of submitted tasks can return.\<close>

lemma get_can_return:
  assumes "0 < n" and p: "pool_step\<^sup>*\<^sup>* (thread_pool n k) p" and names: "{..<m} \<inter> set (submitted p) = {}"
    and e: "(exec_step (\<lambda>_. []))\<^sup>*\<^sup>* (exec_start p b) e" and run: "pl_running (ex_pool e)" "\<not> paused (ex_pool e)"
    and "{..<m} \<subseteq> set (submitted (ex_pool e))" and "m = length outs"
  shows "\<exists>e'. (exec_step (\<lambda>_. []))\<^sup>*\<^sup>* e e' \<and> mf_get (promises outs e') (map Some [0..<m]) \<noteq> None"
proof -
  have "fitting (\<lambda>_. []) b" "idle_for (\<lambda>_. []) p" by (simp_all add: fitting_def idle_for_def)
  from futures_get_ready [OF assms(1) p this e run] obtain e' where
    e': "(exec_step (\<lambda>_. []))\<^sup>*\<^sup>* e e'" "set (submitted (ex_pool e)) \<subseteq> set (completed p) \<union> ex_ready e'" by blast
  have "t < m \<Longrightarrow> t \<notin> set (completed p)" for t
    by (rule fresh_names(2) [where tss = "replicate m []", OF p]) (use names in auto)
  with e'(2) assms(7) have "{..<m} \<subseteq> ex_ready e'" by blast
  then have "promises outs e' t \<noteq> NotReady" if "t \<in> set [0..<m]" for t
    using that assms(8) by (cases "outs ! t") (auto simp: promises_def)
  from mf_get_ready [where pr = "promises outs e'" and ts = "[0..<m]", OF this] e'(1) show ?thesis by blast
qed

text \<open>
  C24: a loop whose body gives values has on the pool the results it has without: however many threads
  and blocks there are and however the threads interleave, when \<open>get\<close> of the \<open>multi_future\<close> returns, the values
  of the blocks put together in order are those of the \<open>for\<close> loop over the range, or the exception is the
  one the \<open>for\<close> loop throws first; a second \<open>get\<close> is undefined; and while the pool runs \<open>get\<close> can return.
\<close>

theorem loop_results_in_order:
  fixes hardware threads :: "32 word" and first after n :: size_t and body :: "nat \<Rightarrow> 'r res"
  defines "tc \<equiv> determine_thread_count hardware threads"
  assumes "first \<le> after"
    and "parallelize_loop tc first after (for_values body) n = Inr (outs, ts)" and "mf_fill ts (mf_new (length ts)) = Inr mf"
    and "pool_step\<^sup>*\<^sup>* (thread_pool (unat tc) k) p" and "set ts \<inter> set (submitted p) = {}"
    and "(exec_step (\<lambda>_. []))\<^sup>*\<^sup>* (exec_start p m) e"
  shows "(\<forall>r mf'. mf_get (promises outs e) mf = Some (r, mf') \<longrightarrow>
      bind_res r (\<lambda>vss. Inr (concat vss)) = map_res body [unat first..<unat after] \<and>
      (\<forall>vss. r = Inr vss \<and> first < after \<longrightarrow> mf_get (promises outs e) mf' = Some (Inl Undefined, mf'))) \<and>
    (pl_running (ex_pool e) \<and> \<not> paused (ex_pool e) \<and> set ts \<subseteq> set (submitted (ex_pool e)) \<longrightarrow>
      (\<exists>e'. (exec_step (\<lambda>_. []))\<^sup>*\<^sup>* e e' \<and> mf_get (promises outs e') mf \<noteq> None))"
proof -
  have ts: "ts = [0..<length outs]" by (rule loop_outcomes(1) [OF assms(2) assms(3) [unfolded tc_def]])
  then have mf: "mf = map Some [0..<length outs]" using assms(4) mf_filled [of "length outs"] by simp
  note outcome = loop_outcomes(2) [OF assms(2) assms(3) [unfolded tc_def]]
  have "bind_res r (\<lambda>vss. Inr (concat vss)) = map_res body [unat first..<unat after]"
    if "mf_get (promises outs e) mf = Some (r, mf')" for r mf'
  proof -
    have "r = map_res (\<lambda>t. outs ! t) [0..<length outs]"
      by (rule mf_get_outcomes [OF _ that [unfolded mf]]) (simp add: promises_def)
    with outcome show ?thesis by simp
  qed
  moreover have "mf_get (promises outs e) mf' = Some (Inl Undefined, mf')"
    if got: "mf_get (promises outs e) mf = Some (Inr vss, mf')" and "first < after" for vss mf'
  proof -
    have "outs \<noteq> []"
    proof
      assume "outs = []"
      with outcome have "map_res body [unat first..<unat after] = Inr []" by (simp add: bind_res_simps)
      then have "[unat first..<unat after] = []" by (metis list_all2_Nil2 map_res_eq_Inr)
      with \<open>first < after\<close> show False by (simp add: word_less_nat_alt)
    qed
    then have "mf \<noteq> []" by (simp add: mf)
    with mf_get_once [OF got] mf_get_again [of mf] show ?thesis by simp
  qed
  moreover have "\<exists>e'. (exec_step (\<lambda>_. []))\<^sup>*\<^sup>* e e' \<and> mf_get (promises outs e') mf \<noteq> None"
    if run: "pl_running (ex_pool e)" "\<not> paused (ex_pool e)" and sub: "set ts \<subseteq> set (submitted (ex_pool e))"
  proof -
    have "0 < unat tc" unfolding tc_def using determine_thread_count_pos by (simp add: unat_gt_0)
    from get_can_return [OF this assms(5) _ assms(7) run, of "length outs" outs] assms(6) sub show ?thesis
      by (auto simp: ts mf atLeast0LessThan)
  qed
  ultimately show ?thesis by blast
qed

text \<open>A loop over the indices 2 to 8 that fails at 6, on three threads.\<close>

definition toy_body :: "nat \<Rightarrow> nat res" where
  "toy_body i = (if i = 6 then Inl RuntimeError else Inr (i * i))"

theorem loop_results_in_order_witness:
  "\<exists>outs ts mf e mf'. parallelize_loop 3 2 9 (for_values toy_body) 0 = Inr (outs, ts) \<and> mf_fill ts (mf_new (length ts)) = Inr mf \<and>
    (exec_step (\<lambda>_. []))\<^sup>*\<^sup>* (exec_start (thread_pool 3 3) cells) e \<and> mf_get (promises outs e) mf = Some (Inl RuntimeError, mf')"
proof -
  have tc: "determine_thread_count 4 3 = 3" by (simp add: determine_thread_count_def)
  obtain bs where bs: "loop_blocks (determine_thread_count 4 3) 2 9 0 = Inr bs"
    "length bs \<le> unat (if (0 :: size_t) = 0 then ucast (determine_thread_count 4 3) else 0 :: size_t)"
    using loop_blocks_cover by blast
  let ?outs = "map (\<lambda>(s, e). for_values toy_body s e) bs" and ?ts = "[0..<length bs]"
  have loop: "parallelize_loop 3 2 9 (for_values toy_body) 0 = Inr (?outs, ?ts)"
    using bs(1) by (simp add: parallelize_loop_def bind_res_simps tc)
  have len: "length ?outs \<le> 3" using bs(2) by (simp add: tc)
  have range: "(2 :: size_t) \<le> 9" by simp
  have fill: "mf_fill ?ts (mf_new (length ?ts)) = Inr (map Some ?ts)" using mf_filled [of "length bs"] by simp
  have start: "pool_step\<^sup>*\<^sup>* (thread_pool (unat (determine_thread_count 4 3)) 3) (thread_pool 3 3)" by (simp add: tc)
  have new: "set ?ts \<inter> set (submitted (thread_pool 3 3)) = {}" by (simp add: thread_pool_def)
  note results = loop_results_in_order [where hardware = 4 and threads = 3 and first = 2 and after = 9 and n = 0
      and body = toy_body and m = cells, unfolded tc, OF range loop fill start [unfolded tc] new]
  obtain p where p: "pool_step\<^sup>*\<^sup>* (thread_pool 3 3) p" "submitted p = [0..<length bs]" "pl_running p" "\<not> paused p"
    using pushes [of "length bs" 3] len by auto
  have "fitting (\<lambda>_. []) cells" "exec_inv (\<lambda>_. []) cells (exec_start (thread_pool 3 3) cells)"
    by (simp_all add: fitting_def exec_start_inv idle_for_def)
  from pool_steps_simulated [OF p(1) this] obtain e where
    e: "(exec_step (\<lambda>_. []))\<^sup>*\<^sup>* (exec_start (thread_pool 3 3) cells) e" "ex_pool e = p" by (auto simp: exec_start_def)
  from results [OF e(1)] e(2) p(2-4) obtain e' where
    e': "(exec_step (\<lambda>_. []))\<^sup>*\<^sup>* e e'" "mf_get (promises ?outs e') (map Some ?ts) \<noteq> None" by auto
  from rtranclp_trans [OF e(1) e'(1)] have all: "(exec_step (\<lambda>_. []))\<^sup>*\<^sup>* (exec_start (thread_pool 3 3) cells) e'" .
  from e'(2) obtain r mf' where got: "mf_get (promises ?outs e') (map Some ?ts) = Some (r, mf')" by auto
  from results [OF all] got have "bind_res r (\<lambda>vss. Inr (concat vss)) = map_res toy_body [2..<9]" by auto
  moreover have "map_res toy_body [2..<9] = Inl RuntimeError" by code_simp
  ultimately have "r = Inl RuntimeError" by (cases r) (simp_all add: bind_res_simps)
  with loop fill all got show ?thesis by blast
qed

end
