(* ===== verification/SyncedStream.thy ===== *)
theory SyncedStream
  imports Prelude "HOL-Library.Sublist"
begin

text \<open>
  \<open>synced_stream\<close> (\<open>ortoa-lbl/BS_thread_pool.hpp\<close>): threads that print to one stream.  A call of \<open>print\<close>
  locks the mutex, inserts its items one after the other and unlocks.
\<close>

section \<open>State and steps\<close>

text \<open>A call is the list of its items, as they are formatted; \<open>println\<close> appends a newline.\<close>

definition println :: "string list \<Rightarrow> string list" where
  "println items = items @ [[CHR 0x0A]]"

text \<open>
  A thread has calls of \<open>print\<close> before it, or is inside one and has items left.  \<open>ss_log\<close> records the
  calls in the order in which they lock.
\<close>

datatype printer = Calls "string list list" | Printing "string list" "string list list"

record sstream =
  out_stream :: string
  stream_mutex :: bool
  printers :: "printer list"
  ss_log :: "(nat \<times> string list) list"

inductive print_step :: "sstream \<Rightarrow> sstream \<Rightarrow> bool" where
  lock: "i < length (printers s) \<Longrightarrow> printers s ! i = Calls (c # cs) \<Longrightarrow> \<not> stream_mutex s \<Longrightarrow>
    print_step s (s\<lparr>stream_mutex := True, printers := (printers s)[i := Printing c cs], ss_log := ss_log s @ [(i, c)]\<rparr>)"
| insert_item: "i < length (printers s) \<Longrightarrow> printers s ! i = Printing (x # xs) cs \<Longrightarrow>
    print_step s (s\<lparr>out_stream := out_stream s @ x, printers := (printers s)[i := Printing xs cs]\<rparr>)"
| unlock: "i < length (printers s) \<Longrightarrow> printers s ! i = Printing [] cs \<Longrightarrow>
    print_step s (s\<lparr>stream_mutex := False, printers := (printers s)[i := Calls cs]\<rparr>)"

definition print_start :: "string list list list \<Rightarrow> sstream" where
  "print_start progs = \<lparr>out_stream = [], stream_mutex = False, printers = map Calls progs, ss_log = []\<rparr>"

section \<open>Whole calls\<close>

definition written :: "(nat \<times> string list) list \<Rightarrow> string" where
  "written log = concat (map (concat \<circ> snd) log)"

definition calls_of :: "nat \<Rightarrow> (nat \<times> string list) list \<Rightarrow> string list list" where
  "calls_of i log = map snd (filter (\<lambda>x. fst x = i) log)"

fun still_to_call :: "printer \<Rightarrow> string list list" where
  "still_to_call (Calls cs) = cs"
| "still_to_call (Printing xs cs) = cs"

fun calling :: "printer \<Rightarrow> bool" where
  "calling (Calls cs) = True"
| "calling (Printing xs cs) = False"

lemma written_append [simp]: "written (log @ log') = written log @ written log'"
  by (simp add: written_def)

lemma written_one [simp]: "written [(i, c)] = concat c"
  by (simp add: written_def)

lemma calls_of_append [simp]: "calls_of i (log @ log') = calls_of i log @ calls_of i log'"
  by (simp add: calls_of_def)

lemma calls_of_one [simp]: "calls_of i [(j, c)] = (if j = i then [c] else [])"
  by (simp add: calls_of_def)

text \<open>The mutex is taken exactly when one thread is inside a call, and that call lacks the items it has left.\<close>

definition print_inv :: "string list list list \<Rightarrow> sstream \<Rightarrow> bool" where
  "print_inv progs s \<longleftrightarrow> length (printers s) = length progs \<and> (\<forall>x \<in> set (ss_log s). fst x < length progs) \<and>
    (\<forall>i < length progs. calls_of i (ss_log s) @ still_to_call (printers s ! i) = progs ! i) \<and>
    (if stream_mutex s
     then \<exists>i xs cs. i < length progs \<and> printers s ! i = Printing xs cs \<and>
       (\<forall>j < length progs. j \<noteq> i \<longrightarrow> calling (printers s ! j)) \<and> out_stream s @ concat xs = written (ss_log s)
     else (\<forall>j < length progs. calling (printers s ! j)) \<and> out_stream s = written (ss_log s))"

lemma print_start_inv: "print_inv progs (print_start progs)"
  by (simp add: print_inv_def print_start_def calls_of_def written_def)

lemma print_inside:
  assumes "print_inv progs s" and "i < length (printers s)" and "printers s ! i = Printing xs cs"
  shows "stream_mutex s" and "\<forall>j < length progs. j \<noteq> i \<longrightarrow> calling (printers s ! j)"
    and "out_stream s @ concat xs = written (ss_log s)"
  using assms unfolding print_inv_def by (auto split: if_splits; metis calling.simps(2) printer.inject(2))+

lemma print_step_inv: "print_step s s' \<Longrightarrow> print_inv progs s \<Longrightarrow> print_inv progs s'"
proof (induction rule: print_step.induct)
  case (lock i s c cs)
  then show ?case
    by (auto simp: print_inv_def nth_list_update intro!: exI [of _ i])
next
  case (insert_item i s x xs cs)
  from print_inside [OF insert_item(3,1,2)] insert_item show ?case
    by (auto simp: print_inv_def nth_list_update intro!: exI [of _ i])
next
  case (unlock i s cs)
  from print_inside [OF unlock(3,1,2)] unlock show ?case
    by (auto simp: print_inv_def nth_list_update)
qed

section \<open>Every call is made\<close>

fun print_cost :: "printer \<Rightarrow> nat" where
  "print_cost (Calls cs) = (\<Sum>c\<leftarrow>cs. length c + 2)"
| "print_cost (Printing xs cs) = length xs + 1 + (\<Sum>c\<leftarrow>cs. length c + 2)"

definition print_rank :: "sstream \<Rightarrow> nat" where
  "print_rank s = sum_list (map print_cost (printers s))"

lemma sum_cost_less:
  "i < length ps \<Longrightarrow> print_cost p < print_cost (ps ! i) \<Longrightarrow>
    sum_list (map print_cost (ps[i := p])) < sum_list (map print_cost ps)"
  using elem_le_sum_list [of i "map print_cost ps"] by (simp add: map_update sum_list_update)

lemma print_step_rank: "print_step s s' \<Longrightarrow> print_rank s' < print_rank s"
  by (induction rule: print_step.induct) (simp_all add: print_rank_def sum_cost_less)

interpretation printing: ranked_steps print_step "print_inv progs" print_rank
  by unfold_locales (auto intro: print_step_inv print_step_rank)

text \<open>No thread waits for good: when nobody can go on, all calls have been made.\<close>

lemma print_stuck:
  assumes inv: "print_inv progs s" and stuck: "\<forall>s'. \<not> print_step s s'"
  shows "\<not> stream_mutex s \<and> (\<forall>i < length progs. printers s ! i = Calls [])"
proof -
  have len: "length (printers s) = length progs" using inv by (simp add: print_inv_def)
  have no: "\<not> stream_mutex s"
  proof
    assume "stream_mutex s"
    with inv obtain i xs cs where i: "i < length progs" "printers s ! i = Printing xs cs"
      unfolding print_inv_def by auto
    then show False using stuck len print_step.insert_item [of i s] print_step.unlock [of i s] by (cases xs) auto
  qed
  have "printers s ! i = Calls []" if i: "i < length progs" for i
  proof (cases "printers s ! i")
    case (Calls cs)
    with stuck no len i print_step.lock [of i s] show ?thesis by (cases cs) auto
  next
    case (Printing xs cs)
    with inv no i show ?thesis by (auto simp: print_inv_def)
  qed
  with no show ?thesis by blast
qed

section \<open>The property\<close>

text \<open>
  C40: threads that print through one \<open>synced_stream\<close> never mix their output.  Whenever nobody is inside a
  call, and at the end of every run, the stream is the calls, each whole, one after the other, and each
  thread's calls stand in its own order; inside a call it is a beginning of that.  Every run ends, within
  a bound, and where it ends every call of every thread is in the stream.
\<close>

theorem prints_are_whole:
  assumes "(print_step ^^ k) (print_start progs) s"
  shows "k \<le> (\<Sum>cs\<leftarrow>progs. \<Sum>c\<leftarrow>cs. length c + 2) \<and> prefix (out_stream s) (written (ss_log s)) \<and>
    (\<forall>x \<in> set (ss_log s). fst x < length progs) \<and>
    (\<not> stream_mutex s \<longrightarrow> out_stream s = written (ss_log s)) \<and>
    (\<forall>i < length progs. prefix (calls_of i (ss_log s)) (progs ! i)) \<and>
    ((\<forall>s'. \<not> print_step s s') \<longrightarrow> out_stream s = written (ss_log s) \<and>
      (\<forall>i < length progs. calls_of i (ss_log s) = progs ! i))"
proof -
  have inv: "print_inv progs s"
    by (rule printing.inv_steps [OF relpowp_imp_rtranclp [OF assms] print_start_inv])
  have "k + print_rank s \<le> print_rank (print_start progs)" by (rule printing.bounded [OF assms print_start_inv])
  moreover have "print_rank (print_start progs) = (\<Sum>cs\<leftarrow>progs. \<Sum>c\<leftarrow>cs. length c + 2)"
    by (simp add: print_rank_def print_start_def o_def)
  ultimately have "k \<le> (\<Sum>cs\<leftarrow>progs. \<Sum>c\<leftarrow>cs. length c + 2)" by linarith
  moreover have "prefix (out_stream s) (written (ss_log s))"
    using inv unfolding print_inv_def prefix_def by (auto split: if_splits) metis
  moreover have "\<forall>x \<in> set (ss_log s). fst x < length progs" using inv by (simp add: print_inv_def)
  moreover have whole: "\<not> stream_mutex s \<longrightarrow> out_stream s = written (ss_log s)" using inv by (simp add: print_inv_def)
  moreover have own: "calls_of i (ss_log s) @ still_to_call (printers s ! i) = progs ! i" if "i < length progs" for i
    using inv that by (simp add: print_inv_def)
  then have "\<forall>i < length progs. prefix (calls_of i (ss_log s)) (progs ! i)" unfolding prefix_def by metis
  moreover have "out_stream s = written (ss_log s) \<and> (\<forall>i < length progs. calls_of i (ss_log s) = progs ! i)"
    if "\<forall>s'. \<not> print_step s s'"
    using print_stuck [OF inv that] own whole by (metis append_Nil2 still_to_call.simps(1))
  ultimately show ?thesis by blast
qed

text \<open>Two threads with a line each.\<close>

theorem prints_are_whole_witness:
  "\<exists>k s. (print_step ^^ k) (print_start [[println [''a'', ''b'']], [println [''c'']]]) s \<and>
    out_stream s \<in> {''ab'' @ [CHR 0x0A] @ ''c'' @ [CHR 0x0A], ''c'' @ [CHR 0x0A] @ ''ab'' @ [CHR 0x0A]}"
proof -
  let ?progs = "[[println [''a'', ''b'']], [println [''c'']]]"
  obtain k s where s: "(print_step ^^ k) (print_start ?progs) s" "\<forall>s'. \<not> print_step s s'"
    using printing.run_to_end [OF print_start_inv] by blast
  from prints_are_whole [OF s(1)] s(2) have out: "out_stream s = written (ss_log s)"
    and calls: "calls_of 0 (ss_log s) = [println [''a'', ''b'']]" "calls_of 1 (ss_log s) = [println [''c'']]"
    and threads: "\<forall>x \<in> set (ss_log s). fst x = 0 \<or> fst x = 1"
    by (auto simp: numeral_2_eq_2 All_less_Suc less_Suc_eq)
  have "log = [(0, x), (1, y)] \<or> log = [(1, y), (0, x)]"
    if "calls_of 0 log = [x]" "calls_of 1 log = [y]" "\<forall>z \<in> set log. fst z = 0 \<or> fst z = 1" for log and x y :: "string list"
    using that by (cases log; cases "tl log"; cases "tl (tl log)") (auto simp: calls_of_def split: if_splits)
  from this [OF calls threads] out have
    "out_stream s \<in> {''ab'' @ [CHR 0x0A] @ ''c'' @ [CHR 0x0A], ''c'' @ [CHR 0x0A] @ ''ab'' @ [CHR 0x0A]}"
    by (auto simp: written_def println_def)
  with s(1) show ?thesis by blast
qed

end
