(* ===== verification/Spec2Isabelle.thy ===== *)
theory Spec2Isabelle
  imports LabelProperties LabelThreadProperties LabelClientProperties LabelLoadProperties LabelBenchProperties
    LabelStaleProperties ThreadPoolProperties PoolPhaseProperties TeeProperties TeeRunProperties TeePoolProperties
    TeeMainProperties LabelServerProperties LabelSignalProperties LabelEstimateProperties LabelReports
    PoolFutureProperties LabelMail SyncedStream
begin

text \<open>
  ORTOA is a family of protocols that read or write a remote value in one round trip without showing
  which.  The repository has two: ORTOA-LBL (\<open>src/ortoa-lbl\<close>), where a proxy replaces each pair of bits
  of a value by a label and the server opens one of four ciphertexts per pair, and ORTOA-TEE
  (\<open>src/ortoa-tee\<close>), where an enclave decrypts and re-encrypts the value.  This library models both,
  function by function, and proves what each promises and where the code falls short of it.

  Parts shared by both.
  \<^item> \<open>Prelude\<close>: bytes are \<open>8 word\<close>, \<open>size_t\<close> is \<open>64 word\<close>; an exception, an abort or an undefined
    behaviour of C++ is a value of \<open>error\<close> and a fallible function returns \<open>error + 'a\<close>; checked reads
    and writes of buffers; and the locale \<open>ranked_steps\<close> of step relations whose runs end.
  \<^item> \<open>Strings\<close>: the parts of the C++ string library the programs use.
  \<^item> \<open>Parallel\<close>: tasks that store into shared buffers, their interleavings, and the locale
    \<open>parallel_phase\<close>: when the tasks write what one function of the address says, every schedule gives
    the same buffers and none leaves their bounds.

  ORTOA-LBL.
  \<^item> \<open>LabelBits\<close> and \<open>ClientHelper\<close> (\<open>clientHelper.cpp\<close>, \<open>constants.h\<close>): the record \<open>helper\<close> holds the four
    global tables \<open>keySet\<close>, \<open>valueSizes\<close>, \<open>masterKeys\<close>, \<open>locks\<close>; \<open>constructCreateEntry\<close>,
    \<open>constructGetEntry\<close> and \<open>constructPutEntry\<close> run their eight parts as lists of stores;
    \<open>readValueFromLabels\<close> decodes labels.
  \<^item> \<open>LabelTables\<close> interprets \<open>parallel_phase\<close> on the three kinds of parts and says what an entry
    contains; \<open>LabelDecode\<close> says what decoding makes of a block of labels.
  \<^item> \<open>LabelServer\<close> (\<open>server.cpp\<close>): the record \<open>server\<close>, \<open>kv_create\<close>, \<open>kv_access\<close> with the 64 overlapping
    tasks of \<open>decryptPortion\<close>; the tasks open the labels 0 to 167 of 640 and no others.
  \<^item> \<open>LabelProxy\<close> (\<open>proxy.cpp\<close>): \<open>handleOp\<close> with its locks, counters and exceptions, the start and the
    restart from the saved file; \<open>LabelTypes\<close>: the type of the tables, kept by every operation.
  \<^item> \<open>LabelRefinement\<close>: the abstract store \<open>spec_op\<close> and the locale \<open>kv_service\<close>, what the proxy needs of
    its server; the proxy in front of any such service refines the store, and \<open>LabelServer\<close>'s
    definitions, called in place, interpret the locale.
  \<^item> \<open>LabelMail\<close>: the server behind Thrift, as the proxy meets it.  A create is \<open>oneway\<close> and has a connection
    of its own, so that it is a message on its way (\<open>mail_create\<close>) that arrives at any later time
    (\<open>Arrive\<close>); \<open>mail_run\<close> is a run of requests and arrivals, and the second interpretation of the locale.  A
    request on a key whose create is still on its way has overtaken it; \<open>in_time\<close> says of a run that
    none does.
  \<^item> \<open>LabelThreads\<close>: \<open>proxy_step\<close>, the threads of \<open>TThreadedServer\<close> in \<open>handleOp\<close>, with the oneway creates
    on their way to the server as a list, and the connections that fail when the server has ended; one thread at
    a time has a key.  \<open>LabelStore\<close>: the store that many threads use, \<open>store_step\<close>.  For every run of
    \<open>proxy_step\<close> there are two cases: at some point a key is locked while its create is on its way (\<open>\<not> delivered\<close>, the
    race that a property exhibits), or the run is one of the store.  \<open>LabelServerThreads\<close>: \<open>serve_step\<close>, the threads
    of the server between those of the proxy; they have no lock, an access reads, decrypts, counts and
    writes in separate steps and takes effect when it writes, as what it has read stays true while the
    proxy holds the key.
  \<^item> \<open>LabelClient\<close> (\<open>client.cpp\<close>) and \<open>LabelLoad\<close> (\<open>clients.cpp\<close>, \<open>concurrent_benchmark.cpp\<close>,
    \<open>benchmark.cpp\<close>): the command-line client, whose loop is a \<open>partial_function\<close> with \<open>None\<close> for a loop
    that never ends, and the load generators.
  \<^item> \<open>LabelLoadThreads\<close>: \<open>load_step\<close>, the 64 clients of \<open>clients.cpp\<close> on the threads of the proxy;
    \<open>ranked_steps\<close> is interpreted on it; a client ends with all its answers, with the exception of a create that was overtaken, or
    where the length of a random value is undefined.  \<open>LabelBench\<close>: \<open>cb_step\<close>, the same clients inside the process of \<open>concurrent_benchmark.cpp\<close>, as a
    simulation by \<open>load_step\<close>, and what its \<open>main\<close> computes and saves.  \<open>LabelStale\<close>: the handler of
    SIGINT and the \<open>main\<close> of \<open>benchmark.cpp\<close>, and what a saved master key of another age does.  \<open>LabelSignal\<close>:
    \<open>cli_moments\<close>, the states of a turn of the command-line client that a SIGINT can save.
    \<open>LabelReports\<close>: the sums of latencies that are printed, with the rounding of \<open>float\<close> and \<open>double\<close>, and
    the bounds within which they are exact.
  \<^item> \<open>LabelEstimate\<close> (\<open>estimate_encryption.cpp\<close>): its keys and its loop without a pool; and the parsers that
    the load generators do not call.
  \<^item> \<open>ThreadPool\<close> and \<open>PoolLoops\<close> (\<open>BS_thread_pool.hpp\<close>): \<open>pool_step\<close>, the pool with its workers, the
    threads that push and the one that waits and destroys; and the blocks a loop is cut into.
    \<open>PoolReset\<close>: \<open>reset_step\<close>, the pool that is stopped and started again with other threads.
    \<open>PoolPhases\<close>: tasks with promises (\<open>submit\<close>) that the pool's workers run store by store; it extends
    the locale \<open>parallel_phase\<close> by what a phase on the pool computes and that its futures get ready.
    \<open>PoolLoopRuns\<close>: \<open>parallelize_loop\<close> with its \<open>multi_future\<close>, as one more such phase;
    \<open>PoolPushLoops\<close>: \<open>push_loop\<close>, whose caller waits for all tasks of the pool;
    \<open>PoolFutures\<close>: the values and exceptions that come out of a \<open>multi_future\<close>.
    \<open>SyncedStream\<close>: \<open>print_step\<close>, threads that print through a \<open>synced_stream\<close>; \<open>ranked_steps\<close> is interpreted on it.
  \<^item> \<open>LabelExamples\<close> has concrete instances of the parameters; \<open>LabelProperties\<close>,
    \<open>LabelThreadProperties\<close>, \<open>LabelClientProperties\<close>, \<open>LabelLoadProperties\<close>, \<open>LabelBenchProperties\<close>,
    \<open>LabelStaleProperties\<close>, \<open>LabelServerProperties\<close>, \<open>LabelSignalProperties\<close>, \<open>LabelEstimateProperties\<close>,
    \<open>ThreadPoolProperties\<close>, \<open>PoolPhaseProperties\<close> and \<open>PoolFutureProperties\<close> state the properties and
    apply them there.

  ORTOA-TEE.
  \<^item> \<open>TeeEngine\<close> and \<open>TeeMac\<close> (\<open>encryption_engine.cpp\<close>): the salted encryption, the keys, signing and
    hashing, with the failure path of every library call, and the printing of buffers.
  \<^item> \<open>TeeStorage\<close> (\<open>libstorage\<close>): the interface as the locale \<open>storage\<close>, interpreted on the Redis client.
  \<^item> \<open>TeeHost\<close> (\<open>ecalls.cpp\<close>, \<open>ortoa.edl\<close>, \<open>host.cpp\<close>): the ecall, its boundary with the buffer lengths the
    EDL declares, the request handler; \<open>TeeService\<close>: the abstract store of the service, and the
    host's threads as \<open>host_step\<close>: read, ecall and write are three steps.
  \<^item> \<open>TeeWorkload\<close> (\<open>clientUtils.cpp\<close>, \<open>SharedQueue\<close>, \<open>initDB\<close>): reading and generating operations, the
    queue, filling the database; \<open>TeeThreads\<close>: the producers, the warm-up counter (an \<open>int\<close>, kept as
    \<open>32 word\<close>, that wraps) and a single runner.
  \<^item> \<open>TeeRun\<close> (\<open>runThreaded\<close>): client and host together: warm-up threads, runners, the queue and the
    host's threads in one relation \<open>run_step\<close>, which \<open>ranked_steps\<close> is interpreted on; for the warm-up
    threads it is a run of \<open>warm_step\<close>; \<open>TeeWarm\<close>: the runs in which the warm-up threads come
    first, and take everything.
  \<^item> \<open>TeePool\<close> (\<open>main\<close> of \<open>host.cpp\<close>): the arguments of the host, and \<open>hpool_step\<close>, a run whose connections
    share the 16 threads of \<open>TThreadPoolServer\<close>; any number of threads suffices.
  \<^item> \<open>TeeMain\<close> (\<open>parseArgs\<close>, \<open>start\<close>, \<open>writeOutput\<close>, \<open>main\<close>): the client program from its arguments to its
    answers, with the argument parser and the file system as parameters: \<open>client_program\<close> relates the host
    before and after and says how the program ends, the undefined behaviours of a producer (\<open>p_failed\<close>) and of a thread of
    the host (\<open>Broken\<close>) included; and why every run comes to its end.
  \<^item> \<open>TeeExamples\<close> has concrete instances; \<open>TeeProperties\<close>, \<open>TeeRunProperties\<close>, \<open>TeePoolProperties\<close> and
    \<open>TeeMainProperties\<close> state the properties.

  What the lemmas show, by kind.  Refinement: proxy and server, sequentially and with the threads of
  both, the command-line client, and host and enclave implement abstract stores.  Functional: what a GET, a PUT
  and a CREATE send, what the server makes of it, that a value comes back with its first 42 bytes
  only, and what the benchmarks leave behind.  Security: GET and PUT entries have one shape.
  Equivalence: the pool builds the entry the parts build in turn and computes a loop, and
  its results, as the loop does; the
  schedule of the server's tasks cannot be seen; a thread nobody interrupts is \<open>handleOp\<close>.  Types and
  invariants: the tables' type, one thread per key, each task and each queued operation once, through
  resets too, no interleaving makes up a value; what is printed at once stays together.  Termination: the load generators, the producers, a whole
  run of the client against a host with any number of threads, the pool's tasks.  Errors: long values,
  foreign keys, missing keys, master keys of another age, failed decryptions, exceptions in the client,
  a SIGINT at any moment, lost wake-ups of the pool.

  Bounds.  Lengths of values are assumed below \<open>2 ^ 62\<close>, so that \<open>size_t\<close> holds the sizes computed from
  them; the sizes of buffers are exact.  There is no fuel: loops are structural recursions or have a
  termination proof, the two that may not end are a \<open>partial_function\<close> and step relations.  The number
  of threads, of clients and the length of runs are arbitrary.

  Parameters.  Not in the repository and therefore arguments of the definitions, with what the code
  relies on as hypotheses: libsodium (\<open>sodium_ok\<close>: a box opens under its key and no other, subkeys have
  their length; \<open>fresh_good\<close>: the subkeys of a fresh key differ; \<open>keys_apart\<close>: a box sealed under a subkey of the one
  of two master keys does not open under those of the other: no cipher promises this for all keys and messages, it is the
  ideal form of what authenticated encryption is for, assumed of the two keys at hand), RocksDB (\<open>kvs_ok\<close>), the Boost archive
  (a saved file loads as what was saved), OpenSSL (\<open>ssl_ok\<close>, \<open>mac_ok\<close>), Redis (\<open>redis_ok\<close>), the random
  number generators (any values of the right length), argparse (any result) and Thrift, which delivers requests and answers
  unchanged and closes a connection whose handler throws.

  Not modelled.  The clock and the class \<open>timer\<close>, the last divisions of the averages and their printing; in
  the runs latencies are counted, \<open>LabelReports\<close> takes any values for them.  The set-up of servers and
  sockets in the \<open>main\<close> functions and the objects of Thrift.  The signal handlers of the benchmarks, which
  save the tables as those of the proxy and the client do, and that of the server, which only prints and
  exits.  Data races on the containers of the proxy and on the vectors of latencies, whose behaviour C++
  leaves undefined: a step is one access to one key, and a SIGINT falls between two statements.  Wake-ups of
  condition variables without a notification.  The Python and shell scripts, data and build files are not
  programs of the protocols.
\<close>

end
